(* ===== verification/Fog_Prelude.thy ===== *)
theory Fog_Prelude
  imports Main "HOL-Library.Word" "HOL-Library.Multiset"
begin

text \<open>
  Shared material of the development: the machine types of the Rust sources, results as
  sums, the casts between the unsigned block numbers of the code and the signed columns of the
  database, byte encodings, and the generic lemmas on words and lists that the component
  theories use.

  The release profile of the workspace sets \<^verbatim>\<open>overflow-checks = false\<close> and
  \<^verbatim>\<open>debug-assertions = false\<close>, so unsigned arithmetic wraps (the \<open>+\<close> of
  \<open>64 word\<close>) and \<^verbatim>\<open>debug_assert!\<close> is no branch of the model.
\<close>

section \<open>Machine types\<close>

type_synonym u8 = "8 word"
type_synonym u32 = "32 word"
type_synonym u64 = "64 word"
type_synonym i64 = int
type_synonym bytes = "u8 list"

section \<open>Results\<close>

type_synonym ('e, 'a) result = "'e + 'a"

abbreviation Ok :: "'a \<Rightarrow> ('e, 'a) result" where
  "Ok \<equiv> Inr"

abbreviation Err :: "'e \<Rightarrow> ('e, 'a) result" where
  "Err \<equiv> Inl"

text \<open>\<^verbatim>\<open>iter.collect::<Result<Vec<_>, _>>()\<close>: the values in order, or the first error.\<close>

fun collect :: "('e, 'a) result list \<Rightarrow> ('e, 'a list) result" where
  "collect [] = Ok []"
| "collect (r # rs) =
     (case r of Inl e \<Rightarrow> Err e
      | Inr a \<Rightarrow> (case collect rs of Inl e \<Rightarrow> Err e | Inr as \<Rightarrow> Ok (a # as)))"

definition is_ok :: "('e, 'a) result \<Rightarrow> bool" where
  "is_ok r = (case r of Inl _ \<Rightarrow> False | Inr _ \<Rightarrow> True)"

section \<open>Casts between \<^verbatim>\<open>u64\<close> and \<^verbatim>\<open>i64\<close>\<close>

text \<open>\<^verbatim>\<open>x as i64\<close> and \<^verbatim>\<open>x as u64\<close> keep the bits.\<close>

definition as_i64 :: "u64 \<Rightarrow> i64" where
  "as_i64 w = sint w"

definition as_u64 :: "i64 \<Rightarrow> u64" where
  "as_u64 i = word_of_int i"

definition i64_max :: i64 where
  "i64_max = 2 ^ 63 - 1"

definition i64_range :: "i64 \<Rightarrow> bool" where
  "i64_range i \<longleftrightarrow> - (2 ^ 63) \<le> i \<and> i \<le> i64_max"

section \<open>Little-endian bytes of a \<^verbatim>\<open>u64\<close>\<close>

definition to_le_bytes :: "u64 \<Rightarrow> bytes" where
  "to_le_bytes w = map (\<lambda>i. ucast (drop_bit (8 * i) w)) [0..<8]"

definition from_le_bytes :: "bytes \<Rightarrow> u64" where
  "from_le_bytes bs = foldr (\<lambda>b acc. ucast b + push_bit 8 acc) bs 0"

section \<open>Lists\<close>

text \<open>\<^verbatim>\<open>iter.position(p)\<close>\<close>

fun position :: "('a \<Rightarrow> bool) \<Rightarrow> 'a list \<Rightarrow> nat option" where
  "position P [] = None"
| "position P (x # xs) = (if P x then Some 0 else map_option Suc (position P xs))"

text \<open>
  A query with no \<^verbatim>\<open>ORDER BY\<close>, and the iteration over a hash map, give their elements in
  an order the code does not fix. Where the order is not fixed it is an argument of the model;
  \<open>permutes\<close> is all that is known of it.
\<close>

definition permutes :: "('a list \<Rightarrow> 'a list) \<Rightarrow> bool" where
  "permutes f \<longleftrightarrow> (\<forall>xs. mset (f xs) = mset xs)"

section \<open>Lemmas\<close>

named_theorems word_facts \<open>facts on the machine integers the components share\<close>

lemma collect_Ok_map [simp]: "collect (map (\<lambda>x. Ok (f x)) xs) = Ok (map f xs)"
  by (induction xs) auto

lemma collect_Ok_iff: "collect rs = Ok as \<longleftrightarrow> rs = map Ok as"
  by (induction rs arbitrary: as) (auto split: sum.splits)

lemma collect_map_Ok: "(\<And>x. x \<in> set xs \<Longrightarrow> f x = Ok (g x)) \<Longrightarrow> collect (map f xs) = Ok (map g xs)"
  by (induction xs) auto

lemma as_u64_as_i64 [simp]: "as_u64 (as_i64 w) = w"
  by (simp add: as_u64_def as_i64_def)

lemma as_u64_numeral [simp]: "as_u64 (numeral n) = numeral n" "as_u64 0 = 0" "as_u64 1 = 1"
  by (simp_all add: as_u64_def)

lemma as_i64_inject [simp]: "as_i64 v = as_i64 w \<longleftrightarrow> v = w"
  by (metis as_u64_as_i64)

lemma as_i64_range [simp]: "i64_range (as_i64 w)"
  using sint_greater_eq [of w] sint_less [of w] by (simp add: i64_range_def as_i64_def i64_max_def)

lemma as_i64_as_u64 [simp]: "i64_range i \<Longrightarrow> as_i64 (as_u64 i) = i"
  by (simp add: as_i64_def as_u64_def sint_sbintrunc' signed_take_bit_int_eq_self i64_range_def
      i64_max_def)

lemma as_i64_small: "unat w < 2 ^ 63 \<Longrightarrow> as_i64 w = int (unat w)"
proof -
  assume "unat w < 2 ^ 63"
  then have "int (unat w) < int (2 ^ 63)"
    by (simp only: of_nat_less_iff)
  then have "uint w < 2 ^ 63"
    by simp
  moreover have "- (2 ^ 63) \<le> uint w"
    by (rule order_trans [OF _ uint_ge_0]) simp
  ultimately have "signed_take_bit 63 (uint w) = uint w"
    by (rule signed_take_bit_int_eq_self [rotated])
  then show ?thesis
    by (simp add: as_i64_def sint_uint)
qed

lemma as_u64_mono: "0 \<le> i \<Longrightarrow> i \<le> j \<Longrightarrow> i64_range j \<Longrightarrow> as_u64 i \<le> as_u64 j"
  by (simp add: as_u64_def word_le_def uint_word_of_int i64_range_def i64_max_def)

lemma unat_of_nat_u8 [word_facts]: "n < 256 \<Longrightarrow> unat (of_nat n :: u8) = n"
  by (simp add: unat_of_nat)

lemma unat_of_nat_u64 [word_facts]: "n < 2 ^ 64 \<Longrightarrow> unat (of_nat n :: u64) = n"
  by (simp add: unat_of_nat)

lemma unat_u64_less: "unat (w :: u64) < 2 ^ 64"
  using unsigned_less [of w] by simp

lemma unat_plus_one [word_facts]: "(w :: u64) \<noteq> -1 \<Longrightarrow> unat (w + 1) = Suc (unat w)"
  by (metis unatSuc add.commute add_eq_0_iff2)

lemma u64_max_iff [word_facts]: "(w :: u64) = -1 \<longleftrightarrow> unat w = 2 ^ 64 - 1"
  by (simp add: word_unat_eq_iff unsigned_minus_1_eq_mask mask_eq_exp_minus_1)

text \<open>A word survives its little-endian bytes.\<close>

lemma le_bytes_step:
  "ucast (ucast (drop_bit (8 * j) w) :: u8) + push_bit 8 (drop_bit (8 * Suc j) w) = drop_bit (8 * j) (w :: u64)"
proof -
  have "ucast (ucast (drop_bit (8 * j) w) :: u8) = take_bit 8 (drop_bit (8 * j) w)"
    by (rule bit_word_eqI) (auto simp: bit_simps)
  moreover have "drop_bit (8 * Suc j) w = drop_bit 8 (drop_bit (8 * j) w)"
    by (simp add: drop_bit_drop_bit add.commute)
  ultimately show ?thesis
    by (metis add.commute bits_ident)
qed

lemma from_to_le_bytes [simp]: "from_le_bytes (to_le_bytes w) = w"
proof -
  have "foldr (\<lambda>b acc. ucast b + push_bit 8 acc)
          (map (\<lambda>i. ucast (drop_bit (8 * i) w) :: u8) [8 - n..<8]) 0 = drop_bit (8 * (8 - n)) w" if "n \<le> 8" for n
    using that
  proof (induction n)
    case 0
    have "drop_bit 64 w = 0" by (rule bit_word_eqI) (simp add: bit_simps)
    then show ?case by simp
  next
    case (Suc n)
    then have j: "Suc (8 - Suc n) = 8 - n" by arith
    then have "[8 - Suc n..<8] = (8 - Suc n) # [8 - n..<8]"
      by (metis diff_less upt_conv_Cons zero_less_Suc zero_less_numeral)
    then show ?case
      using Suc le_bytes_step [of "8 - Suc n" w] unfolding j by simp
  qed
  from this [of 8] show ?thesis by (simp add: from_le_bytes_def to_le_bytes_def)
qed

lemma length_to_le_bytes [simp]: "length (to_le_bytes w) = 8"
  by (simp add: to_le_bytes_def)

lemma from_le_bytes_zero [simp]: "from_le_bytes (replicate n 0) = 0"
  by (induction n) (simp_all add: from_le_bytes_def)

lemma position_Some_less: "position P xs = Some i \<Longrightarrow> i < length xs"
  by (induction xs arbitrary: i) (auto split: if_splits)

lemma position_Some_nth: "position P xs = Some i \<Longrightarrow> P (xs ! i)"
  by (induction xs arbitrary: i) (auto split: if_splits)

lemma position_Some_before: "position P xs = Some i \<Longrightarrow> j < i \<Longrightarrow> \<not> P (xs ! j)"
  by (induction xs arbitrary: i j) (auto split: if_splits simp: nth_Cons split: nat.splits)

lemma position_None_iff: "position P xs = None \<longleftrightarrow> (\<forall>x \<in> set xs. \<not> P x)"
  by (induction xs) auto

lemma filter_key_find:
  "distinct (map f xs) \<Longrightarrow>
     filter (\<lambda>x. f x = a) xs = (case find (\<lambda>x. f x = a) xs of None \<Rightarrow> [] | Some x \<Rightarrow> [x])"
proof (induction xs)
  case (Cons x xs)
  show ?case
  proof (cases "f x = a")
    case True
    then have "filter (\<lambda>x. f x = a) xs = []"
      using Cons.prems by (auto simp: filter_empty_conv image_iff)
    then show ?thesis using True by simp
  qed (use Cons in simp)
qed simp

lemma find_key_SomeD: "find (\<lambda>x. f x = a) xs = Some x \<Longrightarrow> x \<in> set xs \<and> f x = a"
  by (auto simp: find_Some_iff)

lemma find_key_None: "find (\<lambda>x. f x = a) xs = None \<longleftrightarrow> a \<notin> set (map f xs)"
  by (auto simp: find_None_iff)

lemma find_key_Some:
  "distinct (map f xs) \<Longrightarrow> x \<in> set xs \<Longrightarrow> f x = a \<Longrightarrow> find (\<lambda>x. f x = a) xs = Some x"
  by (induction xs) auto

lemma find_append: "find P (xs @ ys) = (case find P xs of None \<Rightarrow> find P ys | Some x \<Rightarrow> Some x)"
  by (induction xs) auto

lemma permutes_set [simp]: "permutes f \<Longrightarrow> set (f xs) = set xs"
  by (metis permutes_def set_mset_mset)

lemma permutes_length [simp]: "permutes f \<Longrightarrow> length (f xs) = length xs"
  by (metis permutes_def size_mset)

lemma permutes_distinct_map: "permutes f \<Longrightarrow> distinct (map g (f xs)) \<longleftrightarrow> distinct (map g xs)"
  by (metis permutes_def mset_map mset_eq_imp_distinct_iff)

lemma sort_key_map: "sort_key f (map h xs) = map h (sort_key (\<lambda>x. f (h x)) xs)"
proof -
  have "insort_key f (h x) (map h ys) = map h (insort_key (\<lambda>x. f (h x)) x ys)" for x ys
    by (induction ys) auto
  then show ?thesis by (induction xs) auto
qed

lemma sort_key_permutes:
  assumes "permutes f" "sorted_wrt (<) (map g xs)"
  shows "sort_key g (f xs) = xs"
proof (rule map_inj_on [of g])
  have "sorted (map g xs)" "distinct (map g xs)"
    using assms(2) by (auto simp: strict_sorted_iff)
  have "mset (map g (sort_key g (f xs))) = mset (map g xs)"
    using assms(1) by (simp add: permutes_def)
  then have "sort (map g xs) = map g (sort_key g (f xs))"
    by (rule properties_for_sort) simp
  then show "map g (sort_key g (f xs)) = map g xs"
    using \<open>sorted (map g xs)\<close> by (simp add: sorted_sort_id)
  show "inj_on g (set (sort_key g (f xs)) \<union> set xs)"
    using assms(1) \<open>distinct (map g xs)\<close> by (simp add: distinct_map)
qed

lemma permutes_id [simp]: "permutes (\<lambda>xs. xs)"
  by (simp add: permutes_def)

lemma permutes_rev [simp]: "permutes rev"
  by (simp add: permutes_def)

end
