(* ===== verification/Fog_Types.thy ===== *)
theory Fog_Types
  imports Fog_Prelude
begin

unbundle bit_operations_syntax

text \<open>
  The data types of \<^verbatim>\<open>src/fog/fog_types\<close> and of
  \<^verbatim>\<open>src/fog/recovery_db_iface/src/types.rs\<close>: block ranges, the records exchanged
  between ingest, the recovery database, view and the client, and the operations on them.

  A \<^verbatim>\<open>CompressedRistrettoPublic\<close> is its 32 bytes. The cryptography on it (decompression,
  the transaction shared secret, amounts) and the checksum of the \<^verbatim>\<open>crc\<close> crate are arguments
  of the operations that call them.
\<close>

section \<open>Block ranges (\<^verbatim>\<open>fog_types/src/common.rs\<close>)\<close>

record BlockRange =
  br_start_block :: u64
  br_end_block :: u64

definition BlockRange_new :: "u64 \<Rightarrow> u64 \<Rightarrow> BlockRange" where
  "BlockRange_new start_block end_block = \<lparr>br_start_block = start_block, br_end_block = end_block\<rparr>"

definition BlockRange_contains :: "BlockRange \<Rightarrow> u64 \<Rightarrow> bool" where
  "BlockRange_contains r block \<longleftrightarrow> block \<ge> br_start_block r \<and> block < br_end_block r"

definition BlockRange_is_valid :: "BlockRange \<Rightarrow> bool" where
  "BlockRange_is_valid r \<longleftrightarrow> br_end_block r > br_start_block r"

definition BlockRange_overlaps :: "BlockRange \<Rightarrow> BlockRange \<Rightarrow> bool" where
  "BlockRange_overlaps r other \<longleftrightarrow>
     br_start_block r < br_end_block other \<and> br_start_block other < br_end_block r"

section \<open>Records of the view protocol (\<^verbatim>\<open>fog_types/src/lib.rs\<close>, \<^verbatim>\<open>view.rs\<close>)\<close>

record ETxOutRecord =
  search_key :: bytes
  payload :: bytes

record KexRngPubkey =
  kp_public_key :: bytes
  kp_version :: u32

record RngRecord =
  rr_ingest_invocation_id :: i64
  rr_pubkey :: KexRngPubkey
  rr_start_block :: u64

record DecommissionedIngestInvocation =
  di_ingest_invocation_id :: i64
  di_last_ingested_block :: u64

datatype TxOutSearchResultCode = Found | NotFound | BadSearchKey | InternalError | RateLimited

text \<open>The discriminants of the \<^verbatim>\<open>#[repr(u32)]\<close> enum.\<close>

fun code_as_u32 :: "TxOutSearchResultCode \<Rightarrow> u32" where
  "code_as_u32 Found = 1"
| "code_as_u32 NotFound = 2"
| "code_as_u32 BadSearchKey = 3"
| "code_as_u32 InternalError = 4"
| "code_as_u32 RateLimited = 5"

definition code_try_from :: "u32 \<Rightarrow> TxOutSearchResultCode option" where
  "code_try_from src =
     (if src = code_as_u32 Found then Some Found
      else if src = code_as_u32 NotFound then Some NotFound
      else if src = code_as_u32 BadSearchKey then Some BadSearchKey
      else if src = code_as_u32 InternalError then Some InternalError
      else if src = code_as_u32 RateLimited then Some RateLimited
      else None)"

record TxOutSearchResult =
  sr_search_key :: bytes
  sr_result_code :: u32
  sr_ciphertext :: bytes

record QueryRequestAAD =
  start_from_user_event_id :: i64
  start_from_block_index :: u64

record QueryRequest =
  get_txos :: "bytes list"

record QueryResponse =
  highest_processed_block_count :: u64
  highest_processed_block_signature_timestamp :: u64
  next_start_from_user_event_id :: i64
  missed_block_ranges :: "BlockRange list"
  rng_records :: "RngRecord list"
  decommissioned_ingest_invocations :: "DecommissionedIngestInvocation list"
  tx_out_search_results :: "TxOutSearchResult list"
  last_known_block_count :: u64
  last_known_block_cumulative_txo_count :: u64

section \<open>Transaction outputs (\<^verbatim>\<open>fog_types/src/view.rs\<close>)\<close>

record TxOutRecord =
  tx_out_amount_commitment_data :: bytes
  tx_out_amount_masked_value :: u64
  tx_out_target_key_data :: bytes
  tx_out_public_key_data :: bytes
  tx_out_global_index :: u64
  tor_block_index :: u64
  tor_timestamp :: u64
  tx_out_amount_commitment_data_crc32 :: u32

record FogTxOut =
  ft_target_key :: bytes
  ft_public_key :: bytes
  amount_masked_value :: u64
  amount_commitment_data_crc32 :: u32

record FogTxOutMetadata =
  global_index :: u64
  fm_block_index :: u64
  fm_timestamp :: u64

record Amount =
  commitment :: bytes
  masked_value :: u64

record TxOut =
  amount :: Amount
  target_key :: bytes
  public_key :: bytes
  e_fog_hint :: bytes

datatype KeyError = LengthMismatch nat nat | AlgorithmMismatch | InvalidPublicKey

datatype 'ae FogTxOutError = ChecksumMismatch | FTO_Amount 'ae | FTO_Key KeyError

definition TxOutRecord_new :: "FogTxOut \<Rightarrow> FogTxOutMetadata \<Rightarrow> TxOutRecord" where
  "TxOutRecord_new fog_tx_out meta =
     \<lparr>tx_out_amount_commitment_data = [],
      tx_out_amount_masked_value = amount_masked_value fog_tx_out,
      tx_out_target_key_data = ft_target_key fog_tx_out,
      tx_out_public_key_data = ft_public_key fog_tx_out,
      tx_out_global_index = global_index meta,
      tor_block_index = fm_block_index meta,
      tor_timestamp = fm_timestamp meta,
      tx_out_amount_commitment_data_crc32 = amount_commitment_data_crc32 fog_tx_out\<rparr>"

text \<open>
  \<open>key_of\<close> is \<^verbatim>\<open>CompressedRistrettoPublic::try_from(&[u8])\<close> of \<^verbatim>\<open>mc_crypto_keys\<close>
  and \<open>crc32\<close> is \<^verbatim>\<open>crc32::checksum_ieee\<close>.
\<close>

definition get_fog_tx_out ::
  "(bytes \<Rightarrow> (KeyError, bytes) result) \<Rightarrow> (bytes \<Rightarrow> u32) \<Rightarrow> TxOutRecord \<Rightarrow> (KeyError, FogTxOut) result"
where
  "get_fog_tx_out key_of crc32 r =
     (if tx_out_amount_commitment_data r = []
      then (case key_of (tx_out_target_key_data r) of Inl e \<Rightarrow> Err e | Inr t \<Rightarrow>
            (case key_of (tx_out_public_key_data r) of Inl e \<Rightarrow> Err e | Inr p \<Rightarrow>
             Ok \<lparr>ft_target_key = t, ft_public_key = p,
                 amount_masked_value = tx_out_amount_masked_value r,
                 amount_commitment_data_crc32 = tx_out_amount_commitment_data_crc32 r\<rparr>))
      else if length (tx_out_amount_commitment_data r) \<noteq> 32
      then Err (LengthMismatch 32 (length (tx_out_amount_commitment_data r)))
      else (case key_of (tx_out_target_key_data r) of Inl e \<Rightarrow> Err e | Inr t \<Rightarrow>
            (case key_of (tx_out_public_key_data r) of Inl e \<Rightarrow> Err e | Inr p \<Rightarrow>
             Ok \<lparr>ft_target_key = t, ft_public_key = p,
                 amount_masked_value = tx_out_amount_masked_value r,
                 amount_commitment_data_crc32 = crc32 (tx_out_amount_commitment_data r)\<rparr>)))"

definition FogTxOut_from :: "(bytes \<Rightarrow> u32) \<Rightarrow> TxOut \<Rightarrow> FogTxOut" where
  "FogTxOut_from crc32 src =
     \<lparr>ft_target_key = target_key src,
      ft_public_key = public_key src,
      amount_masked_value = masked_value (amount src),
      amount_commitment_data_crc32 = crc32 (commitment (amount src))\<rparr>"

text \<open>
  The functions of \<^verbatim>\<open>mc_crypto_keys\<close> and \<^verbatim>\<open>mc_transaction_core\<close> that
  \<^verbatim>\<open>try_recover_tx_out\<close> calls: point decompression, \<^verbatim>\<open>get_tx_out_shared_secret\<close>,
  \<^verbatim>\<open>get_value_mask\<close> and \<^verbatim>\<open>Amount::new\<close>.
\<close>

record ('priv, 'pub, 'ss, 'ae) tx_crypto =
  decompress :: "bytes \<Rightarrow> (KeyError, 'pub) result"
  get_tx_out_shared_secret :: "'priv \<Rightarrow> 'pub \<Rightarrow> 'ss"
  get_value_mask :: "'ss \<Rightarrow> u64"
  Amount_new :: "u64 \<Rightarrow> 'ss \<Rightarrow> ('ae, Amount) result"

definition try_recover_tx_out ::
  "('priv, 'pub, 'ss, 'ae) tx_crypto \<Rightarrow> (bytes \<Rightarrow> u32) \<Rightarrow> nat \<Rightarrow> FogTxOut \<Rightarrow> 'priv
     \<Rightarrow> ('ae FogTxOutError, TxOut) result"
where
  "try_recover_tx_out C crc32 hint_len f view_key =
     (case decompress C (ft_public_key f) of Inl e \<Rightarrow> Err (FTO_Key e) | Inr pub \<Rightarrow>
      (let ss = get_tx_out_shared_secret C view_key pub;
           value = amount_masked_value f XOR get_value_mask C ss
       in case Amount_new C value ss of Inl e \<Rightarrow> Err (FTO_Amount e) | Inr amt \<Rightarrow>
          if amount_commitment_data_crc32 f \<noteq> crc32 (commitment amt)
          then Err ChecksumMismatch
          else Ok \<lparr>amount = amt, target_key = ft_target_key f, public_key = ft_public_key f,
                   e_fog_hint = replicate hint_len 0\<rparr>))"

text \<open>
  What is relied on of those crates: a 32-byte string is a well-formed compressed key, and
  \<^verbatim>\<open>Amount::new\<close> masks the value with the mask of the shared secret.
\<close>

definition key_of_32_bytes :: "(bytes \<Rightarrow> (KeyError, bytes) result) \<Rightarrow> bool" where
  "key_of_32_bytes key_of \<longleftrightarrow> (\<forall>bs. length bs = 32 \<longrightarrow> key_of bs = Ok bs)"

definition amount_masks_value :: "('priv, 'pub, 'ss, 'ae) tx_crypto \<Rightarrow> bool" where
  "amount_masks_value C \<longleftrightarrow>
     (\<forall>v ss amt. Amount_new C v ss = Ok amt \<longrightarrow> masked_value amt = v XOR get_value_mask C ss)"

section \<open>Database interface types (\<^verbatim>\<open>recovery_db_iface/src/types.rs\<close>)\<close>

record IngressPublicKeyStatus =
  st_start_block :: u64
  st_pubkey_expiry :: u64
  st_retired :: bool
  st_lost :: bool

record AddBlockDataStatus =
  block_already_scanned_with_this_key :: bool

record IngressPublicKeyRecord =
  key :: bytes
  status :: IngressPublicKeyStatus
  last_scanned_block :: "u64 option"

definition covers_block_index :: "IngressPublicKeyRecord \<Rightarrow> u64 \<Rightarrow> bool" where
  "covers_block_index self block_index =
     (if st_lost (status self)
      then st_start_block (status self) \<le> block_index \<and>
           (case last_scanned_block self of None \<Rightarrow> False | Some idx \<Rightarrow> block_index \<le> idx)
      else st_start_block (status self) \<le> block_index \<and>
           (\<not> st_retired (status self) \<or> block_index < st_pubkey_expiry (status self)))"

definition next_needed_block_index :: "IngressPublicKeyRecord \<Rightarrow> u64 option" where
  "next_needed_block_index self =
     (let candidate = (case last_scanned_block self of
                         None \<Rightarrow> st_start_block (status self)
                       | Some x \<Rightarrow> x + 1)
      in if covers_block_index self candidate then Some candidate else None)"

datatype FogUserEvent =
    NewRngRecord RngRecord
  | DecommissionIngestInvocation DecommissionedIngestInvocation
  | MissingBlocks BlockRange

record IngestableRange =
  ir_id :: i64
  ir_start_block :: u64
  ir_decommissioned :: bool
  ir_last_ingested_block :: "u64 option"

definition can_provide_block :: "IngestableRange \<Rightarrow> u64 \<Rightarrow> bool" where
  "can_provide_block self block =
     (if block < ir_start_block self then False
      else if ir_decommissioned self
      then (case ir_last_ingested_block self of
              Some last_ingested_block \<Rightarrow> last_ingested_block \<ge> block
            | None \<Rightarrow> False)
      else True)"

record 'rep ReportData =
  rd_ingest_invocation_id :: "i64 option"
  rd_report :: 'rep
  rd_pubkey_expiry :: u64

section \<open>Lemmas\<close>

lemma code_try_from_as_u32 [simp]: "code_try_from (code_as_u32 c) = Some c"
  by (cases c) (simp_all add: code_try_from_def)

lemma code_try_from_Some: "code_try_from w = Some c \<longleftrightarrow> w = code_as_u32 c"
  by (cases c) (auto simp: code_try_from_def split: if_splits)

lemma BlockRange_new_sel [simp]:
  "br_start_block (BlockRange_new a b) = a" "br_end_block (BlockRange_new a b) = b"
  by (simp_all add: BlockRange_new_def)

lemma BlockRange_is_valid_iff_contains: "BlockRange_is_valid r \<longleftrightarrow> (\<exists>b. BlockRange_contains r b)"
  by (auto simp: BlockRange_is_valid_def BlockRange_contains_def)

lemma get_fog_tx_out_new:
  assumes "key_of_32_bytes key_of" "length (ft_target_key f) = 32" "length (ft_public_key f) = 32"
  shows "get_fog_tx_out key_of crc32 (TxOutRecord_new f m) = Ok f"
  using assms by (simp add: get_fog_tx_out_def TxOutRecord_new_def key_of_32_bytes_def)

lemma overlaps_iff_common_block:
  assumes "BlockRange_is_valid r" "BlockRange_is_valid s"
  shows "BlockRange_overlaps r s \<longleftrightarrow> (\<exists>b. BlockRange_contains r b \<and> BlockRange_contains s b)"
proof
  assume "BlockRange_overlaps r s"
  with assms have "BlockRange_contains r (max (br_start_block r) (br_start_block s)) \<and>
                   BlockRange_contains s (max (br_start_block r) (br_start_block s))"
    by (auto simp: BlockRange_overlaps_def BlockRange_contains_def BlockRange_is_valid_def)
  then show "\<exists>b. BlockRange_contains r b \<and> BlockRange_contains s b" by blast
qed (auto simp: BlockRange_overlaps_def BlockRange_contains_def)

text \<open>
  C26: a transaction output that was made for the holder of the view key survives the path
  \<^verbatim>\<open>TxOut\<close> to \<^verbatim>\<open>FogTxOut\<close> to \<^verbatim>\<open>TxOutRecord\<close> and back: the client recovers the same
  amount (commitment and masked value), target key and public key; only the fog hint, which is
  not preserved, is zeroed.
\<close>

theorem tx_out_recovery_roundtrip:
  assumes "key_of_32_bytes key_of" "amount_masks_value C"
    and "length (target_key tx) = 32" "length (public_key tx) = 32"
    and "decompress C (public_key tx) = Ok pub"
    and "Amount_new C v (get_tx_out_shared_secret C view_key pub) = Ok (amount tx)"
  shows "\<exists>f. get_fog_tx_out key_of crc32 (TxOutRecord_new (FogTxOut_from crc32 tx) meta) = Ok f \<and>
             try_recover_tx_out C crc32 hint_len f view_key =
               Ok (tx\<lparr>e_fog_hint := replicate hint_len 0\<rparr>)"
proof -
  let ?ss = "get_tx_out_shared_secret C view_key pub"
  have "masked_value (amount tx) = v XOR get_value_mask C ?ss"
    using assms by (auto simp: amount_masks_value_def)
  then have "masked_value (amount tx) XOR get_value_mask C ?ss = v"
    by (simp add: xor.assoc)
  then have "try_recover_tx_out C crc32 hint_len (FogTxOut_from crc32 tx) view_key =
               Ok (tx\<lparr>e_fog_hint := replicate hint_len 0\<rparr>)"
    using assms by (simp add: try_recover_tx_out_def FogTxOut_from_def Let_def)
  moreover have "get_fog_tx_out key_of crc32 (TxOutRecord_new (FogTxOut_from crc32 tx) meta) =
                   Ok (FogTxOut_from crc32 tx)"
    using assms by (intro get_fog_tx_out_new) (simp_all add: FogTxOut_from_def)
  ultimately show ?thesis by blast
qed

definition sample_tx_crypto :: "(u64, bytes, u64, unit) tx_crypto" where
  "sample_tx_crypto =
     \<lparr>decompress = (\<lambda>bs. Ok bs),
      get_tx_out_shared_secret = (\<lambda>k p. k + from_le_bytes (take 8 p)),
      get_value_mask = (\<lambda>ss. ss * 3),
      Amount_new = (\<lambda>v ss. Ok \<lparr>commitment = to_le_bytes (v + ss), masked_value = v XOR (ss * 3)\<rparr>)\<rparr>"

definition sample_tx_out :: TxOut where
  "sample_tx_out =
     \<lparr>amount = \<lparr>commitment = to_le_bytes (10 + 7), masked_value = 10 XOR (7 * 3)\<rparr>,
      target_key = replicate 32 1, public_key = replicate 32 0, e_fog_hint = replicate 84 9\<rparr>"

theorem tx_out_recovery_roundtrip_witness:
  "\<exists>f. get_fog_tx_out Ok (\<lambda>bs. ucast (from_le_bytes bs))
          (TxOutRecord_new (FogTxOut_from (\<lambda>bs. ucast (from_le_bytes bs)) sample_tx_out)
             \<lparr>global_index = 4, fm_block_index = 2, fm_timestamp = 99\<rparr>) = Ok f \<and>
        try_recover_tx_out sample_tx_crypto (\<lambda>bs. ucast (from_le_bytes bs)) 84 f 7 =
          Ok (sample_tx_out\<lparr>e_fog_hint := replicate 84 0\<rparr>)"
  by (rule tx_out_recovery_roundtrip [where pub = "replicate 32 0" and v = 10])
    (simp_all add: key_of_32_bytes_def amount_masks_value_def sample_tx_crypto_def sample_tx_out_def
       from_le_bytes_def numeral_eq_Suc)

end
