(* ===== verification/Recovery_Db.thy ===== *)
theory Recovery_Db
  imports Fog_Types
begin

text \<open>
  The recovery database, \<^verbatim>\<open>src/fog/sql_recovery_db\<close>, over the schema of its migration
  \<^verbatim>\<open>2020-11-03-203017_create_initial_db/up.sql\<close>.

  A table is the list of its rows in insertion order; a constraint of the schema (primary key,
  \<^verbatim>\<open>UNIQUE\<close>, foreign key, \<^verbatim>\<open>VARCHAR(64)\<close>) is a check of the insert that can violate it,
  and its violation is the error value that the code sees. An operation maps the database to a
  result and the database after it. A transaction that fails restores the tables but, as in
  PostgreSQL, not the sequences behind the \<^verbatim>\<open>BIGSERIAL\<close> columns. Each call is atomic.
  \<open>pool_up\<close> is whether \<^verbatim>\<open>self.pool.get()\<close> gives a connection, \<open>now\<close> is the
  clock of the database server, and \<open>enc\<close>/\<open>dec\<close> are the prost encoding of the protobuf
  blobs. Rows that a query returns with no \<^verbatim>\<open>ORDER BY\<close> come in the order of an argument
  \<open>scan\<close>.
\<close>

section \<open>Tables (\<^verbatim>\<open>up.sql\<close>, \<^verbatim>\<open>models.rs\<close>, \<^verbatim>\<open>sql_types.rs\<close>)\<close>

record ingress_key_row =
  ik_key :: bytes
  ik_start_block :: i64
  ik_pubkey_expiry :: i64
  ik_retired :: bool
  ik_lost :: bool

record ingest_invocation_row =
  ii_id :: i64
  ii_ingress_key :: bytes
  ii_egress_key :: bytes
  ii_last_active_at :: int
  ii_start_block :: i64
  ii_decommissioned :: bool
  ii_rng_version :: int

record ingested_block_row =
  ib_id :: i64
  ib_iid :: i64
  ib_key :: bytes
  ib_block_number :: i64
  ib_cumulative_txo_count :: i64
  ib_timestamp :: i64
  ib_data :: bytes

datatype UserEventType = UE_NewIngestInvocation | UE_DecommissionIngestInvocation | UE_MissingBlocks

record NewUserEvent =
  ue_type :: UserEventType
  ue_new_iid :: "i64 option"
  ue_decommission_iid :: "i64 option"
  ue_missing_start :: "i64 option"
  ue_missing_end :: "i64 option"

type_synonym user_event_row = "i64 \<times> NewUserEvent"

record NewReport =
  rp_key :: bytes
  rp_iid :: "i64 option"
  rp_report_id :: string
  rp_report :: bytes
  rp_pubkey_expiry :: i64

type_synonym report_row = "i64 \<times> NewReport"

record recovery_db =
  pool_up :: bool
  ingress_keys :: "ingress_key_row list"
  ingest_invocations :: "ingest_invocation_row list"
  ingested_blocks :: "ingested_block_row list"
  user_events :: "user_event_row list"
  reports :: "report_row list"
  seq_ii :: i64
  seq_ib :: i64
  seq_ue :: i64
  seq_rp :: i64

text \<open>The database right after the migration.\<close>

definition empty_db :: recovery_db where
  "empty_db =
     \<lparr>pool_up = True, ingress_keys = [], ingest_invocations = [], ingested_blocks = [],
      user_events = [], reports = [], seq_ii = 1, seq_ib = 1, seq_ue = 1, seq_rp = 1\<rparr>"

section \<open>Errors (\<^verbatim>\<open>error.rs\<close>)\<close>

datatype DieselError =
    DieselNotFound
  | UniqueViolation
  | ForeignKeyViolation
  | OtherDatabaseError string
  | DeserializationError

text \<open>
  The messages built by \<^verbatim>\<open>format!\<close> are represented by the values they print. \<open>Panic\<close> is the
  failed \<^verbatim>\<open>assert!\<close> of \<^verbatim>\<open>NewUserEvent::missing_blocks\<close>.
\<close>

datatype db_error =
    Orm DieselError
  | R2d2
  | MissingIngressKey bytes
  | UserEventSchemaViolation i64 string
  | IngressKeysSchemaViolation bytes
  | IngestedBlockSchemaViolation u64
  | Decode
  | Panic

definition should_retry :: "db_error \<Rightarrow> bool" where
  "should_retry e =
     (case e of
        Orm (OtherDatabaseError message) \<Rightarrow>
          message = ''no connection to the server\<newline>'' \<or>
          message = ''terminating connection due to administrator command''
      | _ \<Rightarrow> False)"

type_synonym 'a db_result = "(db_error, 'a) result \<times> recovery_db"

section \<open>Connections, transactions and sequences\<close>

definition with_conn :: "(recovery_db \<Rightarrow> 'a db_result) \<Rightarrow> recovery_db \<Rightarrow> 'a db_result" where
  "with_conn f db = (if pool_up db then f db else (Err R2d2, db))"

definition rollback :: "recovery_db \<Rightarrow> recovery_db \<Rightarrow> recovery_db" where
  "rollback before after =
     before\<lparr>seq_ii := seq_ii after, seq_ib := seq_ib after, seq_ue := seq_ue after,
            seq_rp := seq_rp after\<rparr>"

definition transaction :: "(recovery_db \<Rightarrow> 'a db_result) \<Rightarrow> recovery_db \<Rightarrow> 'a db_result" where
  "transaction f db =
     (case f db of
        (Inl e, db') \<Rightarrow> (Err e, rollback db db')
      | (Inr a, db') \<Rightarrow> (Ok a, db'))"

definition bind_db :: "'a db_result \<Rightarrow> ('a \<Rightarrow> recovery_db \<Rightarrow> 'b db_result) \<Rightarrow> 'b db_result" where
  "bind_db m k = (case m of (Inl e, db) \<Rightarrow> (Err e, db) | (Inr a, db) \<Rightarrow> k a db)"

definition seq_exhausted :: db_error where
  "seq_exhausted = Orm (OtherDatabaseError ''nextval: reached maximum value of sequence'')"

definition update_where :: "('a \<Rightarrow> bool) \<Rightarrow> ('a \<Rightarrow> 'a) \<Rightarrow> 'a list \<Rightarrow> 'a list" where
  "update_where P f rows = map (\<lambda>r. if P r then f r else r) rows"

definition max_block :: "ingested_block_row list \<Rightarrow> i64 option" where
  "max_block rows = (if rows = [] then None else Some (Max (set (map ib_block_number rows))))"

definition from_sql_key :: "bytes \<Rightarrow> (db_error, bytes) result" where
  "from_sql_key vec = (if length vec \<noteq> 32 then Err (Orm DeserializationError) else Ok vec)"

definition load_ingress_key :: "ingress_key_row \<Rightarrow> (db_error, ingress_key_row) result" where
  "load_ingress_key r = (case from_sql_key (ik_key r) of Inl e \<Rightarrow> Err e | Inr k \<Rightarrow> Ok (r\<lparr>ik_key := k\<rparr>))"

section \<open>User events (\<^verbatim>\<open>models.rs\<close>)\<close>

definition new_ingest_invocation_event :: "i64 \<Rightarrow> NewUserEvent" where
  "new_ingest_invocation_event iid =
     \<lparr>ue_type = UE_NewIngestInvocation, ue_new_iid = Some iid, ue_decommission_iid = None,
      ue_missing_start = None, ue_missing_end = None\<rparr>"

definition decommission_ingest_invocation_event :: "i64 \<Rightarrow> NewUserEvent" where
  "decommission_ingest_invocation_event iid =
     \<lparr>ue_type = UE_DecommissionIngestInvocation, ue_new_iid = None, ue_decommission_iid = Some iid,
      ue_missing_start = None, ue_missing_end = None\<rparr>"

definition missing_blocks_event :: "BlockRange \<Rightarrow> NewUserEvent option" where
  "missing_blocks_event r =
     (if \<not> BlockRange_is_valid r then None
      else Some \<lparr>ue_type = UE_MissingBlocks, ue_new_iid = None, ue_decommission_iid = None,
                 ue_missing_start = Some (as_i64 (br_start_block r)),
                 ue_missing_end = Some (as_i64 (br_end_block r))\<rparr>)"

text \<open>The \<^verbatim>\<open>UNIQUE\<close> constraints of \<^verbatim>\<open>user_events\<close>; a \<^verbatim>\<open>NULL\<close> equals nothing.\<close>

definition user_event_conflict :: "NewUserEvent \<Rightarrow> NewUserEvent \<Rightarrow> bool" where
  "user_event_conflict e f \<longleftrightarrow>
     (ue_new_iid e \<noteq> None \<and> ue_new_iid e = ue_new_iid f) \<or>
     (ue_decommission_iid e \<noteq> None \<and> ue_decommission_iid e = ue_decommission_iid f) \<or>
     (ue_missing_start e \<noteq> None \<and> ue_missing_end e \<noteq> None \<and>
      ue_missing_start e = ue_missing_start f \<and> ue_missing_end e = ue_missing_end f)"

definition known_iid :: "recovery_db \<Rightarrow> i64 option \<Rightarrow> bool" where
  "known_iid db i \<longleftrightarrow> set_option i \<subseteq> set (map ii_id (ingest_invocations db))"

definition insert_user_event :: "NewUserEvent \<Rightarrow> recovery_db \<Rightarrow> unit db_result" where
  "insert_user_event ev db =
     (if seq_ue db > i64_max then (Err seq_exhausted, db)
      else let i = seq_ue db; db1 = db\<lparr>seq_ue := i + 1\<rparr> in
        if \<exists>(j, f) \<in> set (user_events db). user_event_conflict ev f
        then (Err (Orm UniqueViolation), db1)
        else if \<not> (known_iid db (ue_new_iid ev) \<and> known_iid db (ue_decommission_iid ev))
        then (Err (Orm ForeignKeyViolation), db1)
        else (Ok (), db1\<lparr>user_events := user_events db @ [(i, ev)]\<rparr>))"

section \<open>Operations of \<^verbatim>\<open>SqlRecoveryDb\<close> (\<^verbatim>\<open>lib.rs\<close>)\<close>

definition decommission_ingest_invocation_impl :: "int \<Rightarrow> i64 \<Rightarrow> recovery_db \<Rightarrow> unit db_result" where
  "decommission_ingest_invocation_impl now iid db =
     insert_user_event (decommission_ingest_invocation_event iid)
       (db\<lparr>ingest_invocations :=
          update_where (\<lambda>r. ii_id r = iid) (\<lambda>r. r\<lparr>ii_decommissioned := True, ii_last_active_at := now\<rparr>)
            (ingest_invocations db)\<rparr>)"

definition update_last_active_at_impl :: "int \<Rightarrow> i64 \<Rightarrow> recovery_db \<Rightarrow> unit db_result" where
  "update_last_active_at_impl now iid db =
     (Ok (), db\<lparr>ingest_invocations :=
        update_where (\<lambda>r. ii_id r = iid) (\<lambda>r. r\<lparr>ii_last_active_at := now\<rparr>) (ingest_invocations db)\<rparr>)"

definition missed_range_of_row :: "user_event_row \<Rightarrow> (db_error, BlockRange) result" where
  "missed_range_of_row row =
     (case (ue_missing_start (snd row), ue_missing_end (snd row)) of
        (Some s, Some e) \<Rightarrow> Ok (BlockRange_new (as_u64 s) (as_u64 e))
      | _ \<Rightarrow> Err (UserEventSchemaViolation (fst row) ''missing start or end block indices''))"

definition get_missed_block_ranges_impl :: "recovery_db \<Rightarrow> (db_error, BlockRange list) result" where
  "get_missed_block_ranges_impl db =
     collect (map missed_range_of_row
       (sort_key fst (filter (\<lambda>(i, e). ue_type e = UE_MissingBlocks) (user_events db))))"

definition status_of_row :: "ingress_key_row \<Rightarrow> IngressPublicKeyStatus" where
  "status_of_row r =
     \<lparr>st_start_block = as_u64 (ik_start_block r), st_pubkey_expiry = as_u64 (ik_pubkey_expiry r),
      st_retired = ik_retired r, st_lost = ik_lost r\<rparr>"

definition get_ingress_key_status_impl ::
  "bytes \<Rightarrow> recovery_db \<Rightarrow> (db_error, IngressPublicKeyStatus option) result"
where
  "get_ingress_key_status_impl k db =
     (case collect (map load_ingress_key (filter (\<lambda>r. ik_key r = k) (ingress_keys db))) of
        Inl e \<Rightarrow> Err e
      | Inr [] \<Rightarrow> Ok None
      | Inr [r] \<Rightarrow> Ok (Some (status_of_row r))
      | Inr _ \<Rightarrow> Err (IngressKeysSchemaViolation k))"

definition get_ingress_key_status :: "bytes \<Rightarrow> recovery_db \<Rightarrow> (IngressPublicKeyStatus option) db_result" where
  "get_ingress_key_status k = with_conn (\<lambda>db. (get_ingress_key_status_impl k db, db))"

definition new_ingress_key :: "bytes \<Rightarrow> u64 \<Rightarrow> recovery_db \<Rightarrow> bool db_result" where
  "new_ingress_key k start_block = with_conn (\<lambda>db.
     if k \<in> set (map ik_key (ingress_keys db)) then (Ok False, db)
     else (Ok True, db\<lparr>ingress_keys := ingress_keys db @
             [\<lparr>ik_key = k, ik_start_block = as_i64 start_block, ik_pubkey_expiry = 0,
               ik_retired = False, ik_lost = False\<rparr>]\<rparr>))"

definition retire_ingress_key :: "bytes \<Rightarrow> bool \<Rightarrow> recovery_db \<Rightarrow> unit db_result" where
  "retire_ingress_key k set_retired = with_conn (\<lambda>db.
     (Ok (), db\<lparr>ingress_keys :=
        update_where (\<lambda>r. ik_key r = k) (\<lambda>r. r\<lparr>ik_retired := set_retired\<rparr>) (ingress_keys db)\<rparr>))"

definition last_scanned :: "recovery_db \<Rightarrow> bytes \<Rightarrow> i64 option" where
  "last_scanned db k = max_block (filter (\<lambda>b. ib_key b = k) (ingested_blocks db))"

definition get_last_scanned_block_index :: "bytes \<Rightarrow> recovery_db \<Rightarrow> (u64 option) db_result" where
  "get_last_scanned_block_index k = with_conn (\<lambda>db. (Ok (map_option as_u64 (last_scanned db k)), db))"

definition get_ingress_key_records ::
  "(ingress_key_row list \<Rightarrow> ingress_key_row list) \<Rightarrow> u64 \<Rightarrow> recovery_db
     \<Rightarrow> (IngressPublicKeyRecord list) db_result"
where
  "get_ingress_key_records scan start_block_at_least = with_conn (\<lambda>db.
     case collect (map load_ingress_key
            (scan (filter (\<lambda>r. ik_start_block r \<ge> as_i64 start_block_at_least) (ingress_keys db)))) of
       Inl e \<Rightarrow> (Err e, db)
     | Inr rows \<Rightarrow>
         (Ok (map (\<lambda>r. \<lparr>key = ik_key r, status = status_of_row r,
                         last_scanned_block = map_option as_u64 (last_scanned db (ik_key r))\<rparr>) rows),
          db))"

definition insert_ingest_invocation ::
  "bytes \<Rightarrow> bytes \<Rightarrow> int \<Rightarrow> i64 \<Rightarrow> int \<Rightarrow> recovery_db \<Rightarrow> i64 db_result"
where
  "insert_ingest_invocation ingress_key egress_key now start_block rng_version db =
     (if seq_ii db > i64_max then (Err seq_exhausted, db)
      else let i = seq_ii db; db1 = db\<lparr>seq_ii := i + 1\<rparr> in
        if egress_key \<in> set (map ii_egress_key (ingest_invocations db))
        then (Err (Orm UniqueViolation), db1)
        else if ingress_key \<notin> set (map ik_key (ingress_keys db))
        then (Err (Orm ForeignKeyViolation), db1)
        else (case from_sql_key ingress_key of
                Inl e \<Rightarrow> (Err e, db1)
              | Inr _ \<Rightarrow>
                (Ok i, db1\<lparr>ingest_invocations := ingest_invocations db @
                   [\<lparr>ii_id = i, ii_ingress_key = ingress_key, ii_egress_key = egress_key,
                     ii_last_active_at = now, ii_start_block = start_block,
                     ii_decommissioned = False, ii_rng_version = rng_version\<rparr>]\<rparr>)))"

definition decommission_prev :: "int \<Rightarrow> i64 option \<Rightarrow> recovery_db \<Rightarrow> unit db_result" where
  "decommission_prev now prev_iid db =
     (case prev_iid of
        Some prev \<Rightarrow> decommission_ingest_invocation_impl now prev db
      | None \<Rightarrow> (Ok (), db))"

definition new_ingest_invocation_tx ::
  "int \<Rightarrow> i64 option \<Rightarrow> bytes \<Rightarrow> KexRngPubkey \<Rightarrow> u64 \<Rightarrow> recovery_db \<Rightarrow> i64 db_result"
where
  "new_ingest_invocation_tx now prev_iid ingress_public_key egress_public_key start_block db =
     bind_db (decommission_prev now prev_iid db) (\<lambda>_ db.
     bind_db (insert_ingest_invocation ingress_public_key (kp_public_key egress_public_key) now
                (as_i64 start_block) (sint (kp_version egress_public_key)) db) (\<lambda>iid db.
     bind_db (insert_user_event (new_ingest_invocation_event iid) db) (\<lambda>_ db.
       (Ok iid, db))))"

definition new_ingest_invocation ::
  "int \<Rightarrow> i64 option \<Rightarrow> bytes \<Rightarrow> KexRngPubkey \<Rightarrow> u64 \<Rightarrow> recovery_db \<Rightarrow> i64 db_result"
where
  "new_ingest_invocation now prev_iid ingress_public_key egress_public_key start_block =
     with_conn (transaction
       (new_ingest_invocation_tx now prev_iid ingress_public_key egress_public_key start_block))"

definition get_ingestable_ranges :: "recovery_db \<Rightarrow> (IngestableRange list) db_result" where
  "get_ingestable_ranges = with_conn (\<lambda>db.
     (Ok (map (\<lambda>r. \<lparr>ir_id = ii_id r, ir_start_block = as_u64 (ii_start_block r),
                     ir_decommissioned = ii_decommissioned r,
                     ir_last_ingested_block = map_option as_u64
                       (max_block (filter (\<lambda>b. ib_iid b = ii_id r) (ingested_blocks db)))\<rparr>)
           (sort_key ii_id (ingest_invocations db))), db))"

definition decommission_ingest_invocation :: "int \<Rightarrow> i64 \<Rightarrow> recovery_db \<Rightarrow> unit db_result" where
  "decommission_ingest_invocation now iid =
     with_conn (transaction (decommission_ingest_invocation_impl now iid))"

record Block =
  bk_index :: u64
  bk_cumulative_txo_count :: u64

definition insert_ingested_block ::
  "bytes \<Rightarrow> i64 \<Rightarrow> i64 \<Rightarrow> i64 \<Rightarrow> i64 \<Rightarrow> bytes \<Rightarrow> recovery_db \<Rightarrow> unit db_result"
where
  "insert_ingested_block k iid block_number txo_count timestamp data db =
     (if seq_ib db > i64_max then (Err seq_exhausted, db)
      else let i = seq_ib db; db1 = db\<lparr>seq_ib := i + 1\<rparr> in
        if \<exists>b \<in> set (ingested_blocks db).
             ib_block_number b = block_number \<and> (ib_iid b = iid \<or> ib_key b = k)
        then (Err (Orm UniqueViolation), db1)
        else if \<not> (known_iid db (Some iid) \<and> k \<in> set (map ik_key (ingress_keys db)))
        then (Err (Orm ForeignKeyViolation), db1)
        else (Ok (), db1\<lparr>ingested_blocks := ingested_blocks db @
                [\<lparr>ib_id = i, ib_iid = iid, ib_key = k, ib_block_number = block_number,
                  ib_cumulative_txo_count = txo_count, ib_timestamp = timestamp, ib_data = data\<rparr>]\<rparr>))"

definition add_block_data_tx ::
  "(ETxOutRecord list \<Rightarrow> bytes) \<Rightarrow> int \<Rightarrow> i64 \<Rightarrow> Block \<Rightarrow> u64 \<Rightarrow> ETxOutRecord list \<Rightarrow> recovery_db
     \<Rightarrow> unit db_result"
where
  "add_block_data_tx enc now iid block block_signature_timestamp txs db =
     (case find (\<lambda>r. ii_id r = iid) (ingest_invocations db) of
        None \<Rightarrow> (Err (Orm DieselNotFound), db)
      | Some r \<Rightarrow>
          bind_db (insert_ingested_block (ii_ingress_key r) iid (as_i64 (bk_index block))
                     (as_i64 (bk_cumulative_txo_count block)) (as_i64 block_signature_timestamp)
                     (enc txs) db)
            (\<lambda>_ db. update_last_active_at_impl now iid db))"

definition add_block_data ::
  "(ETxOutRecord list \<Rightarrow> bytes) \<Rightarrow> int \<Rightarrow> i64 \<Rightarrow> Block \<Rightarrow> u64 \<Rightarrow> ETxOutRecord list \<Rightarrow> recovery_db
     \<Rightarrow> AddBlockDataStatus db_result"
where
  "add_block_data enc now iid block block_signature_timestamp txs = with_conn (\<lambda>db.
     case transaction (add_block_data_tx enc now iid block block_signature_timestamp txs) db of
       (Inr _, db') \<Rightarrow> (Ok \<lparr>block_already_scanned_with_this_key = False\<rparr>, db')
     | (Inl (Orm UniqueViolation), db') \<Rightarrow> (Ok \<lparr>block_already_scanned_with_this_key = True\<rparr>, db')
     | (Inl e, db') \<Rightarrow> (Err e, db'))"

definition report_lost_ingress_key_tx :: "bytes \<Rightarrow> recovery_db \<Rightarrow> unit db_result" where
  "report_lost_ingress_key_tx lost_key db0 =
     (let db = db0\<lparr>ingress_keys :=
                 update_where (\<lambda>r. ik_key r = lost_key) (\<lambda>r. r\<lparr>ik_lost := True\<rparr>) (ingress_keys db0)\<rparr>
      in case collect (map load_ingress_key (filter (\<lambda>r. ik_key r = lost_key) (ingress_keys db))) of
           Inl e \<Rightarrow> (Err e, db)
         | Inr [] \<Rightarrow> (Err (MissingIngressKey lost_key), db)
         | Inr [r] \<Rightarrow>
             (let missed = BlockRange_new (as_u64 (ik_start_block r)) (as_u64 (ik_pubkey_expiry r));
                  scanned = map_option as_u64 (last_scanned db lost_key)
              in if (case scanned of Some b \<Rightarrow> b + 1 \<ge> br_end_block missed | None \<Rightarrow> False)
                 then (Ok (), db)
                 else let missed = (case scanned of
                        Some b \<Rightarrow> if b + 1 > br_start_block missed
                                  then missed\<lparr>br_start_block := b + 1\<rparr> else missed
                      | None \<Rightarrow> missed)
                   in if \<not> BlockRange_is_valid missed then (Ok (), db)
                      else (case missing_blocks_event missed of
                              None \<Rightarrow> (Err Panic, db)
                            | Some ev \<Rightarrow> insert_user_event ev db))
         | Inr _ \<Rightarrow> (Err (IngressKeysSchemaViolation lost_key), db))"

definition report_lost_ingress_key :: "bytes \<Rightarrow> recovery_db \<Rightarrow> unit db_result" where
  "report_lost_ingress_key lost_key = with_conn (transaction (report_lost_ingress_key_tx lost_key))"

definition get_missed_block_ranges :: "recovery_db \<Rightarrow> (BlockRange list) db_result" where
  "get_missed_block_ranges = with_conn (\<lambda>db. (get_missed_block_ranges_impl db, db))"

text \<open>
  The left join of \<^verbatim>\<open>search_user_events\<close>: an event with every invocation its
  \<^verbatim>\<open>new_ingest_invocation_id\<close> names, or with none.
\<close>

definition join_invocation ::
  "recovery_db \<Rightarrow> user_event_row \<Rightarrow> (user_event_row \<times> ingest_invocation_row option) list"
where
  "join_invocation db u =
     (let ms = filter (\<lambda>ii. ue_new_iid (snd u) = Some (ii_id ii)) (ingest_invocations db)
      in if ms = [] then [(u, None)] else map (\<lambda>ii. (u, Some ii)) ms)"

definition decommission_max_block :: "recovery_db \<Rightarrow> NewUserEvent \<Rightarrow> i64" where
  "decommission_max_block db e =
     (case max_block (filter (\<lambda>b. ue_type e = UE_DecommissionIngestInvocation \<and>
                                  ue_decommission_iid e = Some (ib_iid b)) (ingested_blocks db)) of
        None \<Rightarrow> 0 | Some m \<Rightarrow> m)"

definition event_of_row ::
  "recovery_db \<Rightarrow> user_event_row \<times> ingest_invocation_row option \<Rightarrow> (db_error, FogUserEvent) result"
where
  "event_of_row db row =
     (case row of ((i, e), mi) \<Rightarrow>
       (case ue_type e of
          UE_NewIngestInvocation \<Rightarrow>
            (case mi of
               None \<Rightarrow> Err (UserEventSchemaViolation i ''missing rng_record_ingest_invocation_id'')
             | Some ii \<Rightarrow>
                 Ok (NewRngRecord
                   \<lparr>rr_ingest_invocation_id = ii_id ii,
                    rr_pubkey = \<lparr>kp_public_key = ii_egress_key ii,
                                kp_version = word_of_int (ii_rng_version ii)\<rparr>,
                    rr_start_block = as_u64 (ii_start_block ii)\<rparr>))
        | UE_DecommissionIngestInvocation \<Rightarrow>
            (case ue_decommission_iid e of
               None \<Rightarrow> Err (UserEventSchemaViolation i ''missing decommission_ingest_invocation_id'')
             | Some iid \<Rightarrow>
                 Ok (DecommissionIngestInvocation
                   \<lparr>di_ingest_invocation_id = iid,
                    di_last_ingested_block = as_u64 (decommission_max_block db e)\<rparr>))
        | UE_MissingBlocks \<Rightarrow>
            (case ue_missing_start e of
               None \<Rightarrow> Err (UserEventSchemaViolation i ''missing missing_blocks_start'')
             | Some s \<Rightarrow>
                 (case ue_missing_end e of
                    None \<Rightarrow> Err (UserEventSchemaViolation i ''missing missing_blocks_end'')
                  | Some t \<Rightarrow> Ok (MissingBlocks (BlockRange_new (as_u64 s) (as_u64 t)))))))"

fun search_loop ::
  "recovery_db \<Rightarrow> (user_event_row \<times> ingest_invocation_row option) list \<Rightarrow> i64
     \<Rightarrow> (i64 \<times> FogUserEvent) list \<Rightarrow> (db_error, (i64 \<times> FogUserEvent) list \<times> i64) result"
where
  "search_loop db [] m events = Ok (events, m)"
| "search_loop db (row # rows) m events =
     (case event_of_row db row of
        Inl e \<Rightarrow> Err e
      | Inr ev \<Rightarrow> search_loop db rows (max m (fst (fst row))) (events @ [(fst (fst row), ev)]))"

definition search_user_events ::
  "(user_event_row list \<Rightarrow> user_event_row list) \<Rightarrow> i64 \<Rightarrow> recovery_db \<Rightarrow> (FogUserEvent list \<times> i64) db_result"
where
  "search_user_events scan start_from db =
     (if start_from = i64_max then (Ok ([], i64_max), db)
      else with_conn (\<lambda>db.
        case search_loop db
               (concat (map (join_invocation db)
                  (scan (filter (\<lambda>u. fst u > start_from) (user_events db))))) start_from [] of
          Inl e \<Rightarrow> (Err e, db)
        | Inr (events, m) \<Rightarrow> (Ok (map snd (sort_key fst events), m), db)) db)"

fun index_blocks ::
  "(bytes \<Rightarrow> ETxOutRecord list option) \<Rightarrow> bytes list \<Rightarrow> (bytes \<rightharpoonup> bytes) \<Rightarrow> (db_error, bytes \<rightharpoonup> bytes) result"
where
  "index_blocks dec [] m = Ok m"
| "index_blocks dec (proto_bytes # rest) m =
     (case dec proto_bytes of
        None \<Rightarrow> Err Decode
      | Some recs \<Rightarrow> index_blocks dec rest (fold (\<lambda>r m. m(search_key r \<mapsto> payload r)) recs m))"

definition get_tx_outs ::
  "(bytes \<Rightarrow> ETxOutRecord list option) \<Rightarrow> (ingested_block_row list \<Rightarrow> ingested_block_row list) \<Rightarrow> u64
     \<Rightarrow> bytes list \<Rightarrow> recovery_db \<Rightarrow> (TxOutSearchResult list) db_result"
where
  "get_tx_outs dec scan start_block search_keys = with_conn (\<lambda>db.
     case index_blocks dec (map ib_data
            (scan (filter (\<lambda>b. ib_block_number b \<ge> as_i64 start_block) (ingested_blocks db)))) Map.empty of
       Inl e \<Rightarrow> (Err e, db)
     | Inr m \<Rightarrow>
         (Ok (map (\<lambda>sk. case m sk of
                Some p \<Rightarrow> \<lparr>sr_search_key = sk, sr_result_code = code_as_u32 Found, sr_ciphertext = p\<rparr>
              | None \<Rightarrow> \<lparr>sr_search_key = sk, sr_result_code = code_as_u32 NotFound, sr_ciphertext = []\<rparr>)
              search_keys), db))"

definition update_last_active_at :: "int \<Rightarrow> i64 \<Rightarrow> recovery_db \<Rightarrow> unit db_result" where
  "update_last_active_at now iid = with_conn (update_last_active_at_impl now iid)"

definition blocks_of :: "recovery_db \<Rightarrow> bytes \<Rightarrow> u64 \<Rightarrow> ingested_block_row list" where
  "blocks_of db k block_index =
     filter (\<lambda>b. ib_key b = k \<and> ib_block_number b = as_i64 block_index) (ingested_blocks db)"

definition get_tx_outs_by_block_and_key ::
  "(bytes \<Rightarrow> ETxOutRecord list option) \<Rightarrow> bytes \<Rightarrow> u64 \<Rightarrow> recovery_db \<Rightarrow> (ETxOutRecord list option) db_result"
where
  "get_tx_outs_by_block_and_key dec k block_index = with_conn (\<lambda>db.
     (case map ib_data (blocks_of db k block_index) of
        [] \<Rightarrow> Ok None
      | [proto] \<Rightarrow> (case dec proto of None \<Rightarrow> Err Decode | Some recs \<Rightarrow> Ok (Some recs))
      | _ \<Rightarrow> Err (IngestedBlockSchemaViolation block_index), db))"

definition get_invocation_id_by_block_and_key ::
  "bytes \<Rightarrow> u64 \<Rightarrow> recovery_db \<Rightarrow> (i64 option) db_result"
where
  "get_invocation_id_by_block_and_key k block_index = with_conn (\<lambda>db.
     (case map ib_iid (blocks_of db k block_index) of
        [] \<Rightarrow> Ok None
      | [iid] \<Rightarrow> Ok (Some iid)
      | _ \<Rightarrow> Err (IngestedBlockSchemaViolation block_index), db))"

definition get_cumulative_txo_count_for_block ::
  "(ingested_block_row list \<Rightarrow> ingested_block_row list) \<Rightarrow> u64 \<Rightarrow> recovery_db \<Rightarrow> (u64 option) db_result"
where
  "get_cumulative_txo_count_for_block scan block_index = with_conn (\<lambda>db.
     (case map ib_cumulative_txo_count
             (scan (filter (\<lambda>b. ib_block_number b = as_i64 block_index) (ingested_blocks db))) of
        [] \<Rightarrow> Ok None
      | c # cs \<Rightarrow> if list_all (\<lambda>v. v = c) (c # cs) then Ok (Some (as_u64 c))
                  else Err (IngestedBlockSchemaViolation block_index), db))"

definition get_block_signature_timestamp_for_block ::
  "(ingested_block_row list \<Rightarrow> ingested_block_row list) \<Rightarrow> u64 \<Rightarrow> recovery_db \<Rightarrow> (u64 option) db_result"
where
  "get_block_signature_timestamp_for_block scan block_index = with_conn (\<lambda>db.
     (Ok (case map ib_timestamp
                (scan (filter (\<lambda>b. ib_block_number b = as_i64 block_index) (ingested_blocks db))) of
            [] \<Rightarrow> None | t # _ \<Rightarrow> Some (as_u64 t)), db))"

definition get_highest_known_block_index :: "recovery_db \<Rightarrow> (u64 option) db_result" where
  "get_highest_known_block_index = with_conn (\<lambda>db. (Ok (map_option as_u64 (max_block (ingested_blocks db))), db))"

section \<open>Operations of \<^verbatim>\<open>ReportDb\<close> (\<^verbatim>\<open>lib.rs\<close>)\<close>

definition get_all_reports ::
  "(bytes \<Rightarrow> 'rep option) \<Rightarrow> recovery_db \<Rightarrow> ((string \<times> 'rep ReportData) list) db_result"
where
  "get_all_reports dec_report = with_conn (\<lambda>db.
     (collect (map (\<lambda>(i, r). case dec_report (rp_report r) of
                 None \<Rightarrow> Err Decode
               | Some report \<Rightarrow> Ok (rp_report_id r,
                   \<lparr>rd_ingest_invocation_id = rp_iid r, rd_report = report,
                    rd_pubkey_expiry = as_u64 (rp_pubkey_expiry r)\<rparr>))
        (sort_key fst (reports db))), db))"

text \<open>\<^verbatim>\<open>INSERT INTO reports ... ON CONFLICT (fog_report_id) DO UPDATE SET ...\<close>\<close>

definition upsert_report :: "NewReport \<Rightarrow> recovery_db \<Rightarrow> unit db_result" where
  "upsert_report r db =
     (if seq_rp db > i64_max then (Err seq_exhausted, db)
      else let i = seq_rp db; db1 = db\<lparr>seq_rp := i + 1\<rparr> in
        if length (rp_report_id r) > 64
        then (Err (Orm (OtherDatabaseError ''value too long for type character varying(64)'')), db1)
        else if \<not> (rp_key r \<in> set (map ik_key (ingress_keys db)) \<and> known_iid db (rp_iid r))
        then (Err (Orm ForeignKeyViolation), db1)
        else if rp_report_id r \<in> set (map (rp_report_id \<circ> snd) (reports db))
        then (Ok (), db1\<lparr>reports :=
                update_where (\<lambda>(j, q). rp_report_id q = rp_report_id r) (\<lambda>(j, q). (j, r)) (reports db)\<rparr>)
        else (Ok (), db1\<lparr>reports := reports db @ [(i, r)]\<rparr>))"

definition set_report_tx ::
  "('rep \<Rightarrow> bytes) \<Rightarrow> bytes \<Rightarrow> string \<Rightarrow> 'rep ReportData \<Rightarrow> recovery_db \<Rightarrow> IngressPublicKeyStatus db_result"
where
  "set_report_tx enc_report ingress_key report_id data db0 =
     (let expiry = as_i64 (rd_pubkey_expiry data);
          P = (\<lambda>r. ik_key r = ingress_key \<and> ik_retired r = False \<and> ik_pubkey_expiry r < expiry);
          f = (\<lambda>r. r\<lparr>ik_pubkey_expiry := expiry\<rparr>);
          db = db0\<lparr>ingress_keys := update_where P f (ingress_keys db0)\<rparr>
      in case (case collect (map load_ingress_key (map f (filter P (ingress_keys db0)))) of
                 Inl e \<Rightarrow> Err e
               | Inr [] \<Rightarrow> (case get_ingress_key_status_impl ingress_key db of
                             Inl e \<Rightarrow> Err e
                           | Inr None \<Rightarrow> Err (MissingIngressKey ingress_key)
                           | Inr (Some st) \<Rightarrow> Ok st)
               | Inr [r] \<Rightarrow> Ok (status_of_row r)
               | Inr _ \<Rightarrow> Err (IngressKeysSchemaViolation ingress_key)) of
           Inl e \<Rightarrow> (Err e, db)
         | Inr result \<Rightarrow>
             if st_retired result then (Ok result, db)
             else bind_db (upsert_report
                    \<lparr>rp_key = ingress_key, rp_iid = rd_ingest_invocation_id data,
                     rp_report_id = report_id, rp_report = enc_report (rd_report data),
                     rp_pubkey_expiry = expiry\<rparr> db) (\<lambda>_ db. (Ok result, db)))"

definition set_report ::
  "('rep \<Rightarrow> bytes) \<Rightarrow> bytes \<Rightarrow> string \<Rightarrow> 'rep ReportData \<Rightarrow> recovery_db \<Rightarrow> IngressPublicKeyStatus db_result"
where
  "set_report enc_report ingress_key report_id data =
     with_conn (transaction (set_report_tx enc_report ingress_key report_id data))"

definition remove_report :: "string \<Rightarrow> recovery_db \<Rightarrow> unit db_result" where
  "remove_report report_id = with_conn (\<lambda>db.
     (Ok (), db\<lparr>reports := filter (\<lambda>(i, r). rp_report_id r \<noteq> report_id) (reports db)\<rparr>))"

end
