(* ===== verification/Recovery_Inv.thy ===== *)
theory Recovery_Inv
  imports Recovery_Db
begin

text \<open>
  The well-formedness invariant of the recovery database and its preservation by every operation
  of \<^verbatim>\<open>SqlRecoveryDb\<close>, the step relation between database states and the facts that hold along
  any sequence of steps.

  The invariant contains the schema's own constraints and what the code keeps beyond them: an
  ingested block carries the ingress key of its invocation, every invocation is announced by
  exactly one event and is decommissioned exactly when an event says so, an event row has the
  columns of its type, and no published report has an expiry above the one recorded for its key.
\<close>

section \<open>The invariant\<close>

definition keys_inv :: "recovery_db \<Rightarrow> bool" where
  "keys_inv db \<longleftrightarrow>
     distinct (map ik_key (ingress_keys db)) \<and>
     (\<forall>r \<in> set (ingress_keys db). length (ik_key r) = 32 \<and> i64_range (ik_start_block r) \<and>
        i64_range (ik_pubkey_expiry r) \<and> 0 \<le> ik_pubkey_expiry r)"

definition invocations_inv :: "recovery_db \<Rightarrow> bool" where
  "invocations_inv db \<longleftrightarrow>
     sorted_wrt (<) (map ii_id (ingest_invocations db)) \<and>
     (\<forall>i \<in> set (map ii_id (ingest_invocations db)). 1 \<le> i \<and> i < seq_ii db) \<and>
     set (map ii_ingress_key (ingest_invocations db)) \<subseteq> set (map ik_key (ingress_keys db)) \<and>
     distinct (map ii_egress_key (ingest_invocations db)) \<and> 1 \<le> seq_ii db"

definition blocks_inv :: "recovery_db \<Rightarrow> bool" where
  "blocks_inv db \<longleftrightarrow>
     sorted_wrt (<) (map ib_id (ingested_blocks db)) \<and>
     (\<forall>i \<in> set (map ib_id (ingested_blocks db)). 1 \<le> i \<and> i < seq_ib db) \<and>
     distinct (map (\<lambda>b. (ib_iid b, ib_block_number b)) (ingested_blocks db)) \<and>
     distinct (map (\<lambda>b. (ib_key b, ib_block_number b)) (ingested_blocks db)) \<and>
     set (map (\<lambda>b. (ib_iid b, ib_key b)) (ingested_blocks db)) \<subseteq>
       set (map (\<lambda>r. (ii_id r, ii_ingress_key r)) (ingest_invocations db)) \<and>
     (\<forall>n \<in> set (map ib_block_number (ingested_blocks db)). i64_range n) \<and> 1 \<le> seq_ib db"

definition event_shape :: "NewUserEvent \<Rightarrow> bool" where
  "event_shape e \<longleftrightarrow>
     (\<exists>iid. e = new_ingest_invocation_event iid) \<or>
     (\<exists>iid. e = decommission_ingest_invocation_event iid) \<or>
     (\<exists>r. missing_blocks_event r = Some e)"

definition events_inv :: "recovery_db \<Rightarrow> bool" where
  "events_inv db \<longleftrightarrow>
     sorted_wrt (<) (map fst (user_events db)) \<and>
     (\<forall>i \<in> set (map fst (user_events db)). 1 \<le> i \<and> i < seq_ue db) \<and>
     sorted_wrt (\<lambda>e f. \<not> user_event_conflict f e) (map snd (user_events db)) \<and>
     (\<forall>e \<in> set (map snd (user_events db)). event_shape e) \<and>
     {iid. new_ingest_invocation_event iid \<in> set (map snd (user_events db))} =
       set (map ii_id (ingest_invocations db)) \<and>
     {iid. decommission_ingest_invocation_event iid \<in> set (map snd (user_events db))} =
       set (map ii_id (filter ii_decommissioned (ingest_invocations db))) \<and>
     1 \<le> seq_ue db \<and> seq_ue db \<le> i64_max + 1"

definition report_ok :: "recovery_db \<Rightarrow> NewReport \<Rightarrow> bool" where
  "report_ok db q \<longleftrightarrow> length (rp_report_id q) \<le> 64 \<and> known_iid db (rp_iid q) \<and> i64_range (rp_pubkey_expiry q) \<and>
     (\<exists>r \<in> set (ingress_keys db). ik_key r = rp_key q \<and> rp_pubkey_expiry q \<le> ik_pubkey_expiry r)"

definition reports_inv :: "recovery_db \<Rightarrow> bool" where
  "reports_inv db \<longleftrightarrow>
     sorted_wrt (<) (map fst (reports db)) \<and>
     (\<forall>i \<in> set (map fst (reports db)). 1 \<le> i \<and> i < seq_rp db) \<and>
     distinct (map (rp_report_id \<circ> snd) (reports db)) \<and>
     (\<forall>q \<in> set (map snd (reports db)). report_ok db q) \<and>
     1 \<le> seq_rp db"

definition db_inv :: "recovery_db \<Rightarrow> bool" where
  "db_inv db \<longleftrightarrow>
     keys_inv db \<and> invocations_inv db \<and> blocks_inv db \<and> events_inv db \<and> reports_inv db"

lemmas db_inv_defs =
  db_inv_def keys_inv_def invocations_inv_def blocks_inv_def events_inv_def reports_inv_def
  report_ok_def

section \<open>Steps\<close>

text \<open>
  A step is one call of an operation that changes the database, by any of the servers that share
  it, or the pool losing or regaining its connection. A key argument has the 32 bytes of
  \<^verbatim>\<open>CompressedRistrettoPublic\<close>. \<open>enc\<close> and \<open>enc_report\<close> are the prost encoders of the
  block data and of the report.
\<close>

inductive db_step ::
  "(ETxOutRecord list \<Rightarrow> bytes) \<Rightarrow> ('rep \<Rightarrow> bytes) \<Rightarrow> recovery_db \<Rightarrow> recovery_db \<Rightarrow> bool"
  for enc enc_report
where
  step_pool: "db_step enc enc_report db (db\<lparr>pool_up := b\<rparr>)"
| step_new_key: "length k = 32 \<Longrightarrow> db_step enc enc_report db (snd (new_ingress_key k start db))"
| step_retire: "db_step enc enc_report db (snd (retire_ingress_key k b db))"
| step_new_invocation:
    "length k = 32 \<Longrightarrow> db_step enc enc_report db (snd (new_ingest_invocation now prev k egress start db))"
| step_decommission: "db_step enc enc_report db (snd (decommission_ingest_invocation now iid db))"
| step_add_block: "db_step enc enc_report db (snd (add_block_data enc now iid block ts txs db))"
| step_report_lost: "db_step enc enc_report db (snd (report_lost_ingress_key k db))"
| step_last_active: "db_step enc enc_report db (snd (update_last_active_at now iid db))"
| step_set_report: "db_step enc enc_report db (snd (set_report enc_report k rid data db))"
| step_remove_report: "db_step enc enc_report db (snd (remove_report rid db))"

definition db_steps ::
  "(ETxOutRecord list \<Rightarrow> bytes) \<Rightarrow> ('rep \<Rightarrow> bytes) \<Rightarrow> recovery_db \<Rightarrow> recovery_db \<Rightarrow> bool"
where
  "db_steps enc enc_report = (db_step enc enc_report)\<^sup>*\<^sup>*"

section \<open>Rows under update\<close>

lemma map_update_where:
  assumes "\<And>x. g (f x) = g x"
  shows "map g (update_where P f xs) = map g xs"
  by (simp add: update_where_def assms)

lemma set_update_where: "set (update_where P f xs) = (\<lambda>r. if P r then f r else r) ` set xs"
  by (auto simp: update_where_def)

lemma update_where_Nil_iff [simp]: "update_where P f xs = [] \<longleftrightarrow> xs = []"
  by (simp add: update_where_def)

lemma filter_update_where:
  assumes "\<And>x. Q (f x) = Q x"
  shows "filter Q (update_where P f xs) = update_where P f (filter Q xs)"
  by (induction xs) (simp_all add: update_where_def assms)

lemma load_ingress_key_Ok: "length (ik_key r) = 32 \<Longrightarrow> load_ingress_key r = Ok r"
  by (simp add: load_ingress_key_def from_sql_key_def)

lemma load_ingress_keys_Ok:
  "(\<And>r. r \<in> set rs \<Longrightarrow> length (ik_key r) = 32) \<Longrightarrow> collect (map load_ingress_key rs) = Ok rs"
  using collect_map_Ok [of rs load_ingress_key id] by (simp add: load_ingress_key_Ok)

section \<open>Connections and transactions\<close>

lemma with_conn_cases:
  "(\<not> pool_up db \<and> with_conn f db = (Err R2d2, db)) \<or> (pool_up db \<and> with_conn f db = f db)"
  by (simp add: with_conn_def)

lemma with_conn_up [simp]: "pool_up db \<Longrightarrow> with_conn f db = f db"
  by (simp add: with_conn_def)

lemma with_conn_down [simp]: "\<not> pool_up db \<Longrightarrow> with_conn f db = (Err R2d2, db)"
  by (simp add: with_conn_def)

lemma transaction_Ok: "fst (f db) = Ok a \<Longrightarrow> transaction f db = f db"
  by (cases "f db") (auto simp: transaction_def)

lemma transaction_Err: "fst (f db) = Err e \<Longrightarrow> transaction f db = (Err e, rollback db (snd (f db)))"
  by (cases "f db") (auto simp: transaction_def)

lemma transaction_inv:
  assumes ok: "\<And>a. fst (f db) = Ok a \<Longrightarrow> Q (snd (f db))"
    and err: "\<And>e. fst (f db) = Err e \<Longrightarrow> Q (rollback db (snd (f db)))"
  shows "Q (snd (transaction f db))"
  using assms by (cases "fst (f db)") (auto simp: transaction_Ok transaction_Err)

text \<open>The sequences never go back; \<open>seqs_le\<close> is what a failed transaction leaves behind.\<close>

definition seqs_le :: "recovery_db \<Rightarrow> recovery_db \<Rightarrow> bool" where
  "seqs_le db db' \<longleftrightarrow>
     seq_ii db \<le> seq_ii db' \<and> seq_ib db \<le> seq_ib db' \<and> seq_ue db \<le> seq_ue db' \<and>
     seq_rp db \<le> seq_rp db' \<and> (seq_ue db \<le> i64_max + 1 \<longrightarrow> seq_ue db' \<le> i64_max + 1)"

lemma seqs_le_refl [simp]: "seqs_le db db"
  by (simp add: seqs_le_def)

lemma seqs_le_trans: "seqs_le a b \<Longrightarrow> seqs_le b c \<Longrightarrow> seqs_le a c"
  by (auto simp: seqs_le_def)

lemma rollback_sel [simp]:
  "pool_up (rollback db db') = pool_up db"
  "ingress_keys (rollback db db') = ingress_keys db"
  "ingest_invocations (rollback db db') = ingest_invocations db"
  "ingested_blocks (rollback db db') = ingested_blocks db"
  "user_events (rollback db db') = user_events db"
  "reports (rollback db db') = reports db"
  by (simp_all add: rollback_def)

lemma db_inv_rollback:
  assumes "db_inv db" "seqs_le db db'"
  shows "db_inv (rollback db db')"
proof -
  have "keys_inv (rollback db db')" "invocations_inv (rollback db db')" "blocks_inv (rollback db db')"
    "events_inv (rollback db db')" "reports_inv (rollback db db')"
    using assms by (auto simp: db_inv_defs rollback_def seqs_le_def known_iid_def split: option.splits)
  then show ?thesis by (simp add: db_inv_def)
qed

lemma seqs_le_insert_user_event [simp]: "seqs_le db (snd (insert_user_event ev db))"
  by (simp add: insert_user_event_def seqs_le_def Let_def)

lemma seqs_le_insert_ingest_invocation [simp]:
  "seqs_le db (snd (insert_ingest_invocation k e now s v db))"
  by (simp add: insert_ingest_invocation_def seqs_le_def Let_def split: sum.splits)

lemma seqs_le_insert_ingested_block [simp]:
  "seqs_le db (snd (insert_ingested_block k iid n c t d db))"
  by (simp add: insert_ingested_block_def seqs_le_def Let_def)

lemma seqs_le_upsert_report [simp]: "seqs_le db (snd (upsert_report r db))"
  by (simp add: upsert_report_def seqs_le_def Let_def)

lemma seqs_le_update_last_active [simp]: "seqs_le db (snd (update_last_active_at_impl now iid db))"
  by (simp add: update_last_active_at_impl_def seqs_le_def)

lemma seqs_le_decommission_impl [simp]:
  "seqs_le db (snd (decommission_ingest_invocation_impl now iid db))"
  unfolding decommission_ingest_invocation_impl_def
  by (rule seqs_le_trans [OF _ seqs_le_insert_user_event]) (simp add: seqs_le_def)

lemma seqs_le_bind_db:
  assumes "seqs_le db (snd m)" "\<And>a. seqs_le (snd m) (snd (k a (snd m)))"
  shows "seqs_le db (snd (bind_db m k))"
  using assms by (cases m; cases "fst m") (auto simp: bind_db_def intro: seqs_le_trans)

lemma bind_db_OkE:
  assumes "fst (bind_db m k) = Ok b"
  obtains a where "fst m = Ok a" "bind_db m k = k a (snd m)"
  using assms by (cases m; cases "fst m") (auto simp: bind_db_def)

section \<open>Preservation, operation by operation\<close>

lemma insert_user_event_Ok:
  assumes "fst (insert_user_event ev db) = Ok u"
  shows "snd (insert_user_event ev db) =
           db\<lparr>seq_ue := seq_ue db + 1, user_events := user_events db @ [(seq_ue db, ev)]\<rparr>"
    and "seq_ue db \<le> i64_max"
    and "\<forall>f \<in> set (map snd (user_events db)). \<not> user_event_conflict ev f"
    and "known_iid db (ue_new_iid ev)" "known_iid db (ue_decommission_iid ev)"
  using assms by (auto simp: insert_user_event_def Let_def split: if_splits)

lemmas event_kind_defs =
  new_ingest_invocation_event_def decommission_ingest_invocation_event_def

lemma event_kinds_distinct [simp]:
  "new_ingest_invocation_event i \<noteq> decommission_ingest_invocation_event j"
  "decommission_ingest_invocation_event j \<noteq> new_ingest_invocation_event i"
  "new_ingest_invocation_event i = new_ingest_invocation_event i' \<longleftrightarrow> i = i'"
  "decommission_ingest_invocation_event j = decommission_ingest_invocation_event j' \<longleftrightarrow> j = j'"
  by (auto simp: event_kind_defs)

lemma missing_event_distinct [simp]:
  "missing_blocks_event r \<noteq> Some (new_ingest_invocation_event i)"
  "missing_blocks_event r \<noteq> Some (decommission_ingest_invocation_event i)"
  by (auto simp: missing_blocks_event_def event_kind_defs)

lemma event_shapes [simp]:
  "event_shape (new_ingest_invocation_event i)"
  "event_shape (decommission_ingest_invocation_event i)"
  "missing_blocks_event r = Some e \<Longrightarrow> event_shape e"
  by (auto simp: event_shape_def)

lemma events_inv_insert:
  assumes "events_inv db" "fst (insert_user_event ev db') = Ok u" "event_shape ev"
    and "user_events db' = user_events db" "seq_ue db' = seq_ue db"
    and "{iid. new_ingest_invocation_event iid \<in> set (map snd (user_events db @ [(seq_ue db, ev)]))} =
           set (map ii_id (ingest_invocations db'))"
    and "{iid. decommission_ingest_invocation_event iid \<in> set (map snd (user_events db @ [(seq_ue db, ev)]))} =
           set (map ii_id (filter ii_decommissioned (ingest_invocations db')))"
  shows "events_inv (snd (insert_user_event ev db'))"
proof -
  note ins = insert_user_event_Ok [OF assms(2)]
  let ?ue = "user_events db @ [(seq_ue db, ev)]"
  have "sorted_wrt (<) (map fst ?ue)" "\<forall>i \<in> set (map fst ?ue). 1 \<le> i \<and> i < seq_ue db + 1"
    using assms(1) by (auto simp: events_inv_def sorted_wrt_append)
  moreover have "sorted_wrt (\<lambda>e f. \<not> user_event_conflict f e) (map snd ?ue)"
    "\<forall>e \<in> set (map snd ?ue). event_shape e"
    using assms(1,3,4) ins(3) by (auto simp: events_inv_def sorted_wrt_append)
  ultimately show ?thesis
    using ins(1,2) assms(1,4-7) by (simp add: events_inv_def)
qed

lemma insert_user_event_frame [simp]:
  "pool_up (snd (insert_user_event ev db)) = pool_up db"
  "ingress_keys (snd (insert_user_event ev db)) = ingress_keys db"
  "ingest_invocations (snd (insert_user_event ev db)) = ingest_invocations db"
  "ingested_blocks (snd (insert_user_event ev db)) = ingested_blocks db"
  "reports (snd (insert_user_event ev db)) = reports db"
  "seq_ii (snd (insert_user_event ev db)) = seq_ii db"
  "seq_ib (snd (insert_user_event ev db)) = seq_ib db"
  "seq_rp (snd (insert_user_event ev db)) = seq_rp db"
  by (simp_all add: insert_user_event_def Let_def)

lemma known_iid_cong:
  "map ii_id (ingest_invocations db) = map ii_id (ingest_invocations db') \<Longrightarrow> known_iid db = known_iid db'"
  by (simp add: known_iid_def fun_eq_iff)

text \<open>Rewriting of the columns of an invocation that no constraint is about.\<close>

lemma db_inv_touch_invocation:
  fixes P :: "ingest_invocation_row \<Rightarrow> bool"
  assumes "db_inv db"
    and cols: "\<And>r. ii_id (f r) = ii_id r" "\<And>r. ii_ingress_key (f r) = ii_ingress_key r"
      "\<And>r. ii_egress_key (f r) = ii_egress_key r"
  defines "db' \<equiv> db\<lparr>ingest_invocations := update_where P f (ingest_invocations db)\<rparr>"
  shows "keys_inv db'" "invocations_inv db'" "blocks_inv db'" "reports_inv db'"
proof -
  have m: "map ii_id (ingest_invocations db') = map ii_id (ingest_invocations db)"
    "map ii_ingress_key (ingest_invocations db') = map ii_ingress_key (ingest_invocations db)"
    "map ii_egress_key (ingest_invocations db') = map ii_egress_key (ingest_invocations db)"
    "map (\<lambda>r. (ii_id r, ii_ingress_key r)) (ingest_invocations db') =
     map (\<lambda>r. (ii_id r, ii_ingress_key r)) (ingest_invocations db)"
    by (simp_all add: db'_def map_update_where cols)
  have rest: "ingress_keys db' = ingress_keys db" "ingested_blocks db' = ingested_blocks db"
    "reports db' = reports db" "seq_ii db' = seq_ii db" "seq_ib db' = seq_ib db" "seq_rp db' = seq_rp db"
    by (simp_all add: db'_def)
  show "keys_inv db'" "invocations_inv db'" "blocks_inv db'" "reports_inv db'"
    using assms(1) known_iid_cong [OF m(1)]
    unfolding db_inv_def keys_inv_def invocations_inv_def blocks_inv_def reports_inv_def report_ok_def m rest
    by simp_all
qed

lemma tables_inv_user_events:
  assumes "keys_inv db" "invocations_inv db" "blocks_inv db" "reports_inv db"
    and "events_inv (snd (insert_user_event ev db))"
  shows "db_inv (snd (insert_user_event ev db))"
  using assms by (simp add: db_inv_defs known_iid_def)

lemma decommissioned_update_where:
  "set (map ii_id (filter ii_decommissioned (update_where (\<lambda>r. ii_id r = iid)
     (\<lambda>r. r\<lparr>ii_decommissioned := True, ii_last_active_at := now\<rparr>) rows))) =
   set (map ii_id (filter ii_decommissioned rows)) \<union> (if iid \<in> set (map ii_id rows) then {iid} else {})"
  by (induction rows) (auto simp: update_where_def)

lemma decommission_impl_inv:
  assumes "db_inv db" and ok: "fst (decommission_ingest_invocation_impl now iid db) = Ok u"
  shows "db_inv (snd (decommission_ingest_invocation_impl now iid db))"
proof -
  let ?f = "\<lambda>r. r\<lparr>ii_decommissioned := True, ii_last_active_at := now\<rparr>"
  let ?db1 = "db\<lparr>ingest_invocations := update_where (\<lambda>r. ii_id r = iid) ?f (ingest_invocations db)\<rparr>"
  have ok1: "fst (insert_user_event (decommission_ingest_invocation_event iid) ?db1) = Ok u"
    using ok by (simp add: decommission_ingest_invocation_impl_def)
  have ids: "map ii_id (ingest_invocations ?db1) = map ii_id (ingest_invocations db)"
    by (simp add: map_update_where)
  have known: "iid \<in> set (map ii_id (ingest_invocations db))"
    using insert_user_event_Ok(5) [OF ok1]
    ids
    by (simp add: known_iid_def decommission_ingest_invocation_event_def del: set_map)
  have "set (map ii_id (filter ii_decommissioned (ingest_invocations ?db1))) =
        insert iid (set (map ii_id (filter ii_decommissioned (ingest_invocations db))))"
    using known decommissioned_update_where [of iid now "ingest_invocations db"] by simp
  then have "events_inv (snd (insert_user_event (decommission_ingest_invocation_event iid) ?db1))"
    using assms(1) ok1 ids by (intro events_inv_insert [where db = db]) (auto simp: db_inv_def events_inv_def)
  then show ?thesis
    using db_inv_touch_invocation [OF assms(1), of ?f "\<lambda>r. ii_id r = iid"]
    unfolding decommission_ingest_invocation_impl_def by (intro tables_inv_user_events) simp_all
qed

lemma update_last_active_impl_inv:
  assumes "db_inv db"
  shows "db_inv (snd (update_last_active_at_impl now iid db))"
proof -
  let ?f = "\<lambda>r. r\<lparr>ii_last_active_at := now\<rparr>"
  have "filter ii_decommissioned (update_where (\<lambda>r. ii_id r = iid) ?f (ingest_invocations db)) =
        update_where (\<lambda>r. ii_id r = iid) ?f (filter ii_decommissioned (ingest_invocations db))"
    by (rule filter_update_where) simp
  then have "events_inv (snd (update_last_active_at_impl now iid db))"
    using assms by (simp add: update_last_active_at_impl_def db_inv_def events_inv_def map_update_where
        del: set_map)
  then show ?thesis
    using db_inv_touch_invocation [OF assms, of ?f "\<lambda>r. ii_id r = iid"]
    by (simp add: update_last_active_at_impl_def db_inv_def)
qed

lemma insert_ingest_invocation_Ok:
  assumes "fst (insert_ingest_invocation k e now s v db) = Ok iid"
  shows "snd (insert_ingest_invocation k e now s v db) =
           db\<lparr>seq_ii := seq_ii db + 1, ingest_invocations := ingest_invocations db @
             [\<lparr>ii_id = seq_ii db, ii_ingress_key = k, ii_egress_key = e, ii_last_active_at = now,
               ii_start_block = s, ii_decommissioned = False, ii_rng_version = v\<rparr>]\<rparr>"
    and "iid = seq_ii db" and "e \<notin> set (map ii_egress_key (ingest_invocations db))"
    and "k \<in> set (map ik_key (ingress_keys db))"
  using assms by (auto simp: insert_ingest_invocation_def Let_def split: if_splits sum.splits)

lemma insert_invocation_and_event_inv:
  assumes inv: "db_inv db" and ok1: "fst (insert_ingest_invocation k e now s v db) = Ok iid"
    and ok2: "fst (insert_user_event (new_ingest_invocation_event iid)
                     (snd (insert_ingest_invocation k e now s v db))) = Ok u"
  shows "db_inv (snd (insert_user_event (new_ingest_invocation_event iid)
                        (snd (insert_ingest_invocation k e now s v db))))"
proof -
  note ins = insert_ingest_invocation_Ok [OF ok1]
  let ?db1 = "snd (insert_ingest_invocation k e now s v db)"
  have "keys_inv ?db1" "blocks_inv ?db1" "reports_inv ?db1"
    using inv unfolding ins(1) by (auto simp: db_inv_defs known_iid_def)
  moreover have "invocations_inv ?db1"
    using inv ins(3,4) unfolding ins(1) by (auto simp: db_inv_def invocations_inv_def sorted_wrt_append)
  moreover have "events_inv (snd (insert_user_event (new_ingest_invocation_event iid) ?db1))"
    using inv ins(2)
    by (intro events_inv_insert [OF _ ok2, where db = db])
      (auto simp: ins(1) db_inv_def events_inv_def)
  ultimately show ?thesis by (intro tables_inv_user_events)
qed

text \<open>An operation that is a transaction keeps the invariant if its body does when it succeeds.\<close>

lemma transaction_op_inv:
  assumes "db_inv db" "\<And>a. fst (f db) = Ok a \<Longrightarrow> db_inv (snd (f db))" "seqs_le db (snd (f db))"
  shows "db_inv (snd (with_conn (transaction f) db))"
proof -
  have "db_inv (snd (transaction f db))"
    by (rule transaction_inv) (use assms db_inv_rollback in blast)+
  then show ?thesis using assms(1) by (cases "pool_up db") simp_all
qed

lemma new_ingest_invocation_tx_OkE:
  assumes "fst (new_ingest_invocation_tx now prev k egress start db) = Ok iid"
  obtains db1 db2 where "fst (decommission_prev now prev db) = Ok ()" "db1 = snd (decommission_prev now prev db)"
    and "insert_ingest_invocation k (kp_public_key egress) now (as_i64 start) (sint (kp_version egress)) db1 =
           (Ok iid, db2)"
    and "fst (insert_user_event (new_ingest_invocation_event iid) db2) = Ok ()"
    and "snd (new_ingest_invocation_tx now prev k egress start db) =
           snd (insert_user_event (new_ingest_invocation_event iid) db2)"
  using assms unfolding new_ingest_invocation_tx_def
  by (auto simp: bind_db_def split: prod.splits sum.splits)

lemma decommission_prev_inv:
  "db_inv db \<Longrightarrow> fst (decommission_prev now prev db) = Ok u \<Longrightarrow> db_inv (snd (decommission_prev now prev db))"
  by (cases prev) (simp_all add: decommission_prev_def decommission_impl_inv)

lemma new_ingest_invocation_tx_inv:
  assumes "db_inv db" and ok: "fst (new_ingest_invocation_tx now prev k egress start db) = Ok iid"
  shows "db_inv (snd (new_ingest_invocation_tx now prev k egress start db))"
  using ok
proof (rule new_ingest_invocation_tx_OkE)
  fix db1 db2
  assume 1: "fst (decommission_prev now prev db) = Ok ()" "db1 = snd (decommission_prev now prev db)"
    and 2: "insert_ingest_invocation k (kp_public_key egress) now (as_i64 start) (sint (kp_version egress)) db1 =
           (Ok iid, db2)"
    and 3: "fst (insert_user_event (new_ingest_invocation_event iid) db2) = Ok ()"
    and 4: "snd (new_ingest_invocation_tx now prev k egress start db) =
           snd (insert_user_event (new_ingest_invocation_event iid) db2)"
  have "db_inv db1" using 1 assms(1) by (simp add: decommission_prev_inv)
  then show ?thesis
    using insert_invocation_and_event_inv [of db1 k "kp_public_key egress" now "as_i64 start"
        "sint (kp_version egress)" iid] 2 3 4 by simp
qed

lemma seqs_le_new_ingest_invocation_tx:
  "seqs_le db (snd (new_ingest_invocation_tx now prev k egress start db))"
  unfolding new_ingest_invocation_tx_def
  by (intro seqs_le_bind_db) (auto simp: decommission_prev_def split: option.splits)

lemma new_ingest_invocation_inv:
  "db_inv db \<Longrightarrow> db_inv (snd (new_ingest_invocation now prev k egress start db))"
  unfolding new_ingest_invocation_def
  by (rule transaction_op_inv) (auto intro: new_ingest_invocation_tx_inv seqs_le_new_ingest_invocation_tx)

lemma decommission_ingest_invocation_inv:
  "db_inv db \<Longrightarrow> db_inv (snd (decommission_ingest_invocation now iid db))"
  unfolding decommission_ingest_invocation_def
  by (rule transaction_op_inv) (auto intro: decommission_impl_inv)

lemma insert_ingested_block_Ok:
  assumes "fst (insert_ingested_block k iid n c t d db) = Ok u"
  shows "snd (insert_ingested_block k iid n c t d db) =
           db\<lparr>seq_ib := seq_ib db + 1, ingested_blocks := ingested_blocks db @
             [\<lparr>ib_id = seq_ib db, ib_iid = iid, ib_key = k, ib_block_number = n,
               ib_cumulative_txo_count = c, ib_timestamp = t, ib_data = d\<rparr>]\<rparr>"
    and "\<And>b. b \<in> set (ingested_blocks db) \<Longrightarrow> ib_block_number b = n \<Longrightarrow> ib_iid b \<noteq> iid \<and> ib_key b \<noteq> k"
  using assms by (auto simp: insert_ingested_block_def Let_def split: if_splits)

lemma insert_ingested_block_inv:
  assumes inv: "db_inv db" and ok: "fst (insert_ingested_block k iid n c t d db) = Ok u"
    and key: "(iid, k) \<in> set (map (\<lambda>r. (ii_id r, ii_ingress_key r)) (ingest_invocations db))"
    and "i64_range n"
  shows "db_inv (snd (insert_ingested_block k iid n c t d db))"
proof -
  note ins = insert_ingested_block_Ok [OF ok]
  have "keys_inv (snd (insert_ingested_block k iid n c t d db))"
    "invocations_inv (snd (insert_ingested_block k iid n c t d db))"
    "events_inv (snd (insert_ingested_block k iid n c t d db))"
    "reports_inv (snd (insert_ingested_block k iid n c t d db))"
    using inv unfolding ins(1) by (simp_all add: db_inv_defs known_iid_def)
  moreover have "blocks_inv (snd (insert_ingested_block k iid n c t d db))"
    using inv key assms(4) ins(2) unfolding ins(1)
    by (auto simp: db_inv_def blocks_inv_def sorted_wrt_append)
  ultimately show ?thesis by (simp add: db_inv_def)
qed

lemma snd_add_block_data:
  "snd (add_block_data enc now iid block ts txs db) =
     snd (with_conn (transaction (add_block_data_tx enc now iid block ts txs)) db)"
  by (cases "pool_up db")
    (auto simp: add_block_data_def split: prod.splits sum.splits db_error.splits DieselError.splits)

lemma add_block_data_tx_Ok:
  assumes "fst (add_block_data_tx enc now iid block ts txs db) = Ok u"
  obtains r where "find (\<lambda>r. ii_id r = iid) (ingest_invocations db) = Some r"
    and "fst (insert_ingested_block (ii_ingress_key r) iid (as_i64 (bk_index block))
               (as_i64 (bk_cumulative_txo_count block)) (as_i64 ts) (enc txs) db) = Ok ()"
    and "snd (add_block_data_tx enc now iid block ts txs db) =
           snd (update_last_active_at_impl now iid
             (snd (insert_ingested_block (ii_ingress_key r) iid (as_i64 (bk_index block))
               (as_i64 (bk_cumulative_txo_count block)) (as_i64 ts) (enc txs) db)))"
  using assms by (auto simp: add_block_data_tx_def split: option.splits elim!: bind_db_OkE)

lemma seqs_le_add_block_data_tx: "seqs_le db (snd (add_block_data_tx enc now iid block ts txs db))"
  unfolding add_block_data_tx_def by (auto split: option.splits intro!: seqs_le_bind_db)

lemma add_block_data_inv:
  assumes inv: "db_inv db"
  shows "db_inv (snd (add_block_data enc now iid block ts txs db))"
proof -
  have "db_inv (snd (add_block_data_tx enc now iid block ts txs db))"
    if ok: "fst (add_block_data_tx enc now iid block ts txs db) = Ok u" for u
  proof (rule add_block_data_tx_Ok [OF ok])
    fix r
    assume r: "find (\<lambda>r. ii_id r = iid) (ingest_invocations db) = Some r"
      and ins: "fst (insert_ingested_block (ii_ingress_key r) iid (as_i64 (bk_index block))
               (as_i64 (bk_cumulative_txo_count block)) (as_i64 ts) (enc txs) db) = Ok ()"
      and eq: "snd (add_block_data_tx enc now iid block ts txs db) =
           snd (update_last_active_at_impl now iid
             (snd (insert_ingested_block (ii_ingress_key r) iid (as_i64 (bk_index block))
               (as_i64 (bk_cumulative_txo_count block)) (as_i64 ts) (enc txs) db)))"
    have "(iid, ii_ingress_key r) \<in> set (map (\<lambda>r. (ii_id r, ii_ingress_key r)) (ingest_invocations db))"
      using r by (auto simp: find_Some_iff)
    then show ?thesis
      unfolding eq using ins inv by (intro update_last_active_impl_inv insert_ingested_block_inv) simp_all
  qed
  then show ?thesis
    unfolding snd_add_block_data using inv by (intro transaction_op_inv seqs_le_add_block_data_tx)
qed

text \<open>Rewriting of an ingress key row that keeps the key and does not lower the expiry.\<close>

lemma db_inv_touch_keys:
  assumes "db_inv db"
    and cols: "\<And>r. ik_key (f r) = ik_key r" "\<And>r. ik_start_block (f r) = ik_start_block r"
    and exp: "\<And>r. r \<in> set (ingress_keys db) \<Longrightarrow> P r \<Longrightarrow>
                ik_pubkey_expiry r \<le> ik_pubkey_expiry (f r) \<and> i64_range (ik_pubkey_expiry (f r))"
  shows "db_inv (db\<lparr>ingress_keys := update_where P f (ingress_keys db)\<rparr>)"
proof -
  let ?db' = "db\<lparr>ingress_keys := update_where P f (ingress_keys db)\<rparr>"
  have m: "map ik_key (ingress_keys ?db') = map ik_key (ingress_keys db)"
    by (simp add: map_update_where cols)
  have "keys_inv ?db'"
    using assms(1) exp unfolding db_inv_def keys_inv_def m
    by (fastforce simp: set_update_where cols)
  moreover have "invocations_inv ?db'"
    using assms(1) unfolding db_inv_def invocations_inv_def m by simp
  moreover have step: "\<exists>r' \<in> set (update_where P f (ingress_keys db)). ik_key r' = k \<and> e \<le> ik_pubkey_expiry r'"
    if ex: "\<exists>r \<in> set (ingress_keys db). ik_key r = k \<and> e \<le> ik_pubkey_expiry r" for k e
  proof -
    obtain r where r: "r \<in> set (ingress_keys db)" "ik_key r = k" "e \<le> ik_pubkey_expiry r"
      using ex by blast
    then show ?thesis
      using exp [of r] by (intro bexI [of _ "if P r then f r else r"]) (auto simp: set_update_where cols)
  qed
  have "reports_inv ?db'"
    using assms(1) by (simp add: db_inv_def reports_inv_def report_ok_def known_iid_def step)
  ultimately show ?thesis
    using assms(1) by (simp add: db_inv_def blocks_inv_def events_inv_def)
qed

definition find_key :: "recovery_db \<Rightarrow> bytes \<Rightarrow> ingress_key_row option" where
  "find_key db k = find (\<lambda>r. ik_key r = k) (ingress_keys db)"

lemma find_key_rows:
  assumes "keys_inv db"
  shows "filter (\<lambda>r. ik_key r = k) (ingress_keys db) = (case find_key db k of None \<Rightarrow> [] | Some r \<Rightarrow> [r])"
  using assms by (simp add: keys_inv_def find_key_def filter_key_find)

lemma find_key_Some_iff:
  "keys_inv db \<Longrightarrow> find_key db k = Some r \<longleftrightarrow> r \<in> set (ingress_keys db) \<and> ik_key r = k"
  by (auto simp: keys_inv_def find_key_def dest: find_key_SomeD intro: find_key_Some)

lemma keys_inv_len: "keys_inv db \<Longrightarrow> r \<in> set (ingress_keys db) \<Longrightarrow> length (ik_key r) = 32"
  by (simp add: keys_inv_def)

lemma load_key_rows:
  assumes "keys_inv db"
  shows "collect (map load_ingress_key (filter (\<lambda>r. ik_key r = k) (ingress_keys db))) =
           Ok (case find_key db k of None \<Rightarrow> [] | Some r \<Rightarrow> [r])"
  using assms
  by (subst load_ingress_keys_Ok) (auto simp: keys_inv_len find_key_rows [symmetric])

lemma get_ingress_key_status_impl_eq:
  "keys_inv db \<Longrightarrow> get_ingress_key_status_impl k db = Ok (map_option status_of_row (find_key db k))"
  by (simp add: get_ingress_key_status_impl_def load_key_rows split: option.splits)

text \<open>\<^verbatim>\<open>report_lost_ingress_key\<close> on a well-formed database.\<close>

definition missed_range :: "recovery_db \<Rightarrow> ingress_key_row \<Rightarrow> BlockRange" where
  "missed_range db r =
     (let s = as_u64 (ik_start_block r) in
      BlockRange_new (case last_scanned db (ik_key r) of
                        None \<Rightarrow> s | Some b \<Rightarrow> max s (as_u64 b + 1)) (as_u64 (ik_pubkey_expiry r)))"

definition mark_lost :: "bytes \<Rightarrow> recovery_db \<Rightarrow> recovery_db" where
  "mark_lost k db = db\<lparr>ingress_keys :=
     update_where (\<lambda>r. ik_key r = k) (\<lambda>r. r\<lparr>ik_lost := True\<rparr>) (ingress_keys db)\<rparr>"

lemma mark_lost_inv: "db_inv db \<Longrightarrow> db_inv (mark_lost k db)"
  unfolding mark_lost_def by (rule db_inv_touch_keys) (auto simp: db_inv_def keys_inv_def)

lemma find_update_where:
  assumes "\<And>x. Q (f x) = Q x"
  shows "find Q (update_where P f xs) = map_option (\<lambda>r. if P r then f r else r) (find Q xs)"
  by (induction xs) (simp_all add: update_where_def assms)

lemma find_key_mark_lost: "find_key (mark_lost k db) k = map_option (\<lambda>r. r\<lparr>ik_lost := True\<rparr>) (find_key db k)"
  by (auto simp: find_key_def mark_lost_def find_update_where find_Some_iff intro: option.map_cong)

lemma last_scanned_mark_lost [simp]: "last_scanned (mark_lost k db) = last_scanned db"
  by (simp add: fun_eq_iff last_scanned_def mark_lost_def)

lemma report_lost_tx_eq:
  assumes "db_inv db"
  shows "report_lost_ingress_key_tx k db =
     (case find_key db k of
        None \<Rightarrow> (Err (MissingIngressKey k), mark_lost k db)
      | Some r \<Rightarrow>
          if BlockRange_is_valid (missed_range db r)
          then insert_user_event (the (missing_blocks_event (missed_range db r))) (mark_lost k db)
          else (Ok (), mark_lost k db))"
proof (cases "find_key db k")
  case None
  then show ?thesis
    using mark_lost_inv [OF assms, of k] load_key_rows [of "mark_lost k db" k]
    by (simp add: report_lost_ingress_key_tx_def Let_def mark_lost_def [symmetric] db_inv_def
        find_key_mark_lost)
next
  case (Some r)
  then have [simp]: "ik_key r = k" by (auto simp: find_key_def find_Some_iff)
  have "collect (map load_ingress_key (filter (\<lambda>r. ik_key r = k) (ingress_keys (mark_lost k db)))) =
          Ok [r\<lparr>ik_lost := True\<rparr>]"
    using mark_lost_inv [OF assms, of k] Some by (simp add: load_key_rows db_inv_def find_key_mark_lost)
  then show ?thesis
    using Some
    by (auto simp: report_lost_ingress_key_tx_def Let_def mark_lost_def [symmetric] missed_range_def
        missing_blocks_event_def BlockRange_is_valid_def BlockRange_new_def max_def not_le
        split: option.splits)
qed

lemma missing_blocks_event_valid:
  "BlockRange_is_valid r \<Longrightarrow> missing_blocks_event r = Some (the (missing_blocks_event r))"
  by (simp add: missing_blocks_event_def)

lemma insert_missing_event_inv:
  assumes "db_inv db" "missing_blocks_event r = Some ev" "fst (insert_user_event ev db) = Ok u"
  shows "db_inv (snd (insert_user_event ev db))"
proof -
  have "ev \<noteq> new_ingest_invocation_event i" "ev \<noteq> decommission_ingest_invocation_event i"
    "new_ingest_invocation_event i \<noteq> ev" "decommission_ingest_invocation_event i \<noteq> ev" for i
    using assms(2) by auto
  then have "events_inv (snd (insert_user_event ev db))"
    using assms by (intro events_inv_insert [where db = db]) (auto simp: db_inv_def events_inv_def)
  then show ?thesis using assms(1) by (intro tables_inv_user_events) (simp_all add: db_inv_def)
qed

lemma seqs_le_mark_lost [simp]: "seqs_le db (mark_lost k db)"
  by (simp add: mark_lost_def seqs_le_def)

lemma report_lost_ingress_key_inv:
  assumes "db_inv db"
  shows "db_inv (snd (report_lost_ingress_key k db))"
  unfolding report_lost_ingress_key_def
proof (rule transaction_op_inv [OF assms])
  show "db_inv (snd (report_lost_ingress_key_tx k db))"
    if "fst (report_lost_ingress_key_tx k db) = Ok a" for a
    using that assms
    by (auto simp: report_lost_tx_eq mark_lost_inv split: option.splits if_splits
        intro!: insert_missing_event_inv [OF mark_lost_inv missing_blocks_event_valid])
  show "seqs_le db (snd (report_lost_ingress_key_tx k db))"
    using assms
    by (auto simp: report_lost_tx_eq split: option.splits
        intro: seqs_le_trans [OF seqs_le_mark_lost seqs_le_insert_user_event])
qed

text \<open>\<^verbatim>\<open>set_report\<close> on a well-formed database: the row of the key after the conditional update.\<close>

definition raise_expiry :: "i64 \<Rightarrow> ingress_key_row \<Rightarrow> ingress_key_row" where
  "raise_expiry e r =
     (if \<not> ik_retired r \<and> ik_pubkey_expiry r < e then r\<lparr>ik_pubkey_expiry := e\<rparr> else r)"

definition raise_key_expiry :: "bytes \<Rightarrow> i64 \<Rightarrow> recovery_db \<Rightarrow> recovery_db" where
  "raise_key_expiry k e db =
     db\<lparr>ingress_keys := update_where (\<lambda>r. ik_key r = k \<and> ik_retired r = False \<and> ik_pubkey_expiry r < e)
                          (\<lambda>r. r\<lparr>ik_pubkey_expiry := e\<rparr>) (ingress_keys db)\<rparr>"

lemma raise_expiry_sel [simp]:
  "ik_key (raise_expiry e r) = ik_key r" "ik_retired (raise_expiry e r) = ik_retired r"
  "ik_start_block (raise_expiry e r) = ik_start_block r" "ik_lost (raise_expiry e r) = ik_lost r"
  "ik_pubkey_expiry r \<le> ik_pubkey_expiry (raise_expiry e r)"
  "\<not> ik_retired r \<Longrightarrow> ik_pubkey_expiry (raise_expiry e r) = max (ik_pubkey_expiry r) e"
  by (simp_all add: raise_expiry_def)

lemma raise_key_expiry_inv: "db_inv db \<Longrightarrow> i64_range e \<Longrightarrow> db_inv (raise_key_expiry k e db)"
  unfolding raise_key_expiry_def by (rule db_inv_touch_keys) simp_all

lemma find_key_raise: "find_key (raise_key_expiry k e db) k = map_option (raise_expiry e) (find_key db k)"
  by (auto simp: find_key_def raise_key_expiry_def find_update_where find_Some_iff raise_expiry_def
      intro!: option.map_cong)

lemma set_report_tx_eq:
  fixes data :: "'rep ReportData"
  assumes "db_inv db"
  defines "e \<equiv> as_i64 (rd_pubkey_expiry data)"
  shows "set_report_tx enc_report k rid data db =
     (case find_key db k of
        None \<Rightarrow> (Err (MissingIngressKey k), raise_key_expiry k e db)
      | Some r \<Rightarrow>
          if ik_retired r then (Ok (status_of_row r), raise_key_expiry k e db)
          else bind_db (upsert_report
                 \<lparr>rp_key = k, rp_iid = rd_ingest_invocation_id data, rp_report_id = rid,
                  rp_report = enc_report (rd_report data), rp_pubkey_expiry = e\<rparr>
                 (raise_key_expiry k e db)) (\<lambda>_ db. (Ok (status_of_row (raise_expiry e r)), db)))"
proof -
  let ?P = "\<lambda>r. ik_key r = k \<and> ik_retired r = False \<and> ik_pubkey_expiry r < e"
  let ?f = "\<lambda>r. r\<lparr>ik_pubkey_expiry := e\<rparr>"
  have keys: "keys_inv db" "keys_inv (raise_key_expiry k e db)"
    using assms raise_key_expiry_inv by (auto simp: db_inv_def)
  have rows: "filter ?P (ingress_keys db) =
      (case find_key db k of None \<Rightarrow> [] | Some r \<Rightarrow> if ik_retired r \<or> \<not> ik_pubkey_expiry r < e then [] else [r])"
  proof -
    have "filter ?P (ingress_keys db) =
      filter (\<lambda>r. \<not> ik_retired r \<and> ik_pubkey_expiry r < e) (filter (\<lambda>r. ik_key r = k) (ingress_keys db))"
      by (auto simp: conj_commute intro: filter_cong)
    then show ?thesis by (auto simp: find_key_rows [OF keys(1)] split: option.splits)
  qed
  have "collect (map load_ingress_key (map ?f (filter ?P (ingress_keys db)))) = Ok (map ?f (filter ?P (ingress_keys db)))"
    using keys(1) by (intro load_ingress_keys_Ok) (auto simp: keys_inv_len)
  then show ?thesis
    unfolding set_report_tx_def Let_def e_def [symmetric] raise_key_expiry_def [symmetric] rows
    by (auto simp: get_ingress_key_status_impl_eq [OF keys(2)] find_key_raise raise_expiry_def
        status_of_row_def split: option.splits)
qed

lemma upsert_report_Ok:
  assumes "fst (upsert_report r db) = Ok u"
  shows "length (rp_report_id r) \<le> 64" "known_iid db (rp_iid r)"
    and "snd (upsert_report r db) =
      db\<lparr>seq_rp := seq_rp db + 1, reports :=
        if rp_report_id r \<in> set (map (rp_report_id \<circ> snd) (reports db))
        then update_where (\<lambda>(j, q). rp_report_id q = rp_report_id r) (\<lambda>(j, q). (j, r)) (reports db)
        else reports db @ [(seq_rp db, r)]\<rparr>"
  using assms by (auto simp: upsert_report_def Let_def split: if_splits)

lemma report_ok_cong:
  "ingress_keys db = ingress_keys db' \<Longrightarrow> ingest_invocations db = ingest_invocations db' \<Longrightarrow>
     report_ok db = report_ok db'"
  by (simp add: fun_eq_iff report_ok_def known_iid_def)

lemma upsert_report_inv:
  assumes inv: "db_inv db" and ok: "fst (upsert_report r db) = Ok u"
    and "\<exists>kr \<in> set (ingress_keys db). ik_key kr = rp_key r \<and> rp_pubkey_expiry r \<le> ik_pubkey_expiry kr"
    and "i64_range (rp_pubkey_expiry r)"
  shows "db_inv (snd (upsert_report r db))"
proof -
  note up = upsert_report_Ok [OF ok]
  let ?upd = "update_where (\<lambda>(j, q). rp_report_id q = rp_report_id r) (\<lambda>(j, q). (j, r)) (reports db)"
  have r: "report_ok db r" using up(1,2) assms(3,4) by (simp add: report_ok_def)
  have m: "map fst ?upd = map fst (reports db)"
      "map (rp_report_id \<circ> snd) ?upd = map (rp_report_id \<circ> snd) (reports db)"
      "snd ` set ?upd \<subseteq> insert r (snd ` set (reports db))"
    by (auto simp: update_where_def)
  then have m': "\<forall>q \<in> set (map snd ?upd). report_ok db q"
    using inv r unfolding db_inv_def reports_inv_def set_map by blast
  have "\<forall>i \<in> set (map fst (reports db)). 1 \<le> i \<and> i < seq_rp db + 1"
    using inv by (auto simp: db_inv_def reports_inv_def)
  then have "reports_inv (snd (upsert_report r db))"
    using inv r m(1,2) m' report_ok_cong [of "snd (upsert_report r db)" db] unfolding up(3)
    by (auto simp: db_inv_def reports_inv_def sorted_wrt_append simp del: map_map set_map)
  then show ?thesis
    using inv by (simp add: db_inv_def keys_inv_def invocations_inv_def blocks_inv_def events_inv_def
        upsert_report_def Let_def)
qed

lemma set_report_inv:
  assumes "db_inv db"
  shows "db_inv (snd (set_report enc_report k rid data db))"
  unfolding set_report_def
proof (rule transaction_op_inv [OF assms])
  let ?e = "as_i64 (rd_pubkey_expiry data)"
  let ?q = "\<lparr>rp_key = k, rp_iid = rd_ingest_invocation_id data, rp_report_id = rid,
             rp_report = enc_report (rd_report data), rp_pubkey_expiry = ?e\<rparr>"
  have inv': "db_inv (raise_key_expiry k ?e db)"
    by (rule raise_key_expiry_inv [OF assms]) simp
  show "db_inv (snd (set_report_tx enc_report k rid data db))"
    if ok: "fst (set_report_tx enc_report k rid data db) = Ok a" for a
  proof (cases "find_key db k")
    case None
    then show ?thesis using ok by (simp add: set_report_tx_eq [OF assms])
  next
    case (Some r)
    then have "raise_expiry ?e r \<in> set (ingress_keys (raise_key_expiry k ?e db)) \<and> ik_key r = k"
      using inv' find_key_Some_iff [of "raise_key_expiry k ?e db" k "raise_expiry ?e r"]
      by (simp add: db_inv_def find_key_raise)
    then have "\<not> ik_retired r \<Longrightarrow> fst (upsert_report ?q (raise_key_expiry k ?e db)) = Ok u \<Longrightarrow>
        db_inv (snd (upsert_report ?q (raise_key_expiry k ?e db)))" for u
      by (intro upsert_report_inv [OF inv']) (auto intro!: bexI [of _ "raise_expiry ?e r"])
    then show ?thesis
      using ok Some inv'
      by (auto simp: set_report_tx_eq [OF assms] bind_db_def split: if_splits prod.splits sum.splits)
  qed
  show "seqs_le db (snd (set_report_tx enc_report k rid data db))"
    by (auto simp: set_report_tx_eq [OF assms] raise_key_expiry_def split: option.splits
        intro!: seqs_le_bind_db seqs_le_trans [OF _ seqs_le_upsert_report]) (simp_all add: seqs_le_def)
qed

lemma new_ingress_key_inv:
  assumes "db_inv db" "length k = 32"
  shows "db_inv (snd (new_ingress_key k start db))"
proof (cases "pool_up db \<and> k \<notin> set (map ik_key (ingress_keys db))")
  case True
  let ?db' = "snd (new_ingress_key k start db)"
  have eq: "?db' = db\<lparr>ingress_keys := ingress_keys db @
      [\<lparr>ik_key = k, ik_start_block = as_i64 start, ik_pubkey_expiry = 0, ik_retired = False, ik_lost = False\<rparr>]\<rparr>"
    using True by (simp add: new_ingress_key_def)
  have "keys_inv ?db'"
    using assms True by (simp add: eq db_inv_def keys_inv_def) (simp add: i64_range_def i64_max_def)
  moreover have "invocations_inv ?db'" "reports_inv ?db'"
    using assms by (auto simp: eq db_inv_def invocations_inv_def reports_inv_def report_ok_def known_iid_def)
  ultimately show ?thesis
    using assms by (simp add: eq db_inv_def blocks_inv_def events_inv_def)
qed (use assms in \<open>auto simp: new_ingress_key_def with_conn_def\<close>)

lemma retire_ingress_key_inv:
  assumes "db_inv db"
  shows "db_inv (snd (retire_ingress_key k b db))"
proof -
  have "db_inv (db\<lparr>ingress_keys := update_where (\<lambda>r. ik_key r = k) (\<lambda>r. r\<lparr>ik_retired := b\<rparr>) (ingress_keys db)\<rparr>)"
    using assms by (intro db_inv_touch_keys) (auto simp: db_inv_def keys_inv_def)
  then show ?thesis using assms by (cases "pool_up db") (simp_all add: retire_ingress_key_def)
qed

lemma remove_report_inv: "db_inv db \<Longrightarrow> db_inv (snd (remove_report rid db))"
  by (cases "pool_up db")
    (auto simp: remove_report_def db_inv_defs known_iid_def distinct_map_filter sorted_wrt_filter
       sorted_wrt_map)

lemma update_last_active_at_inv: "db_inv db \<Longrightarrow> db_inv (snd (update_last_active_at now iid db))"
  by (cases "pool_up db") (simp_all add: update_last_active_at_def update_last_active_impl_inv)

lemma pool_inv: "db_inv db \<Longrightarrow> db_inv (db\<lparr>pool_up := b\<rparr>)"
  by (simp add: db_inv_defs known_iid_def)

lemma db_step_inv: "db_step enc enc_report db db' \<Longrightarrow> db_inv db \<Longrightarrow> db_inv db'"
  by (induction rule: db_step.induct)
    (simp_all add: pool_inv new_ingress_key_inv retire_ingress_key_inv new_ingest_invocation_inv
       decommission_ingest_invocation_inv add_block_data_inv report_lost_ingress_key_inv
       update_last_active_at_inv set_report_inv remove_report_inv)

lemma db_steps_inv: "db_steps enc enc_report db db' \<Longrightarrow> db_inv db \<Longrightarrow> db_inv db'"
  unfolding db_steps_def by (induction rule: rtranclp_induct) (auto intro: db_step_inv)

lemma empty_db_inv: "db_inv empty_db"
  by (simp add: empty_db_def db_inv_defs i64_max_def)

end
