(* ===== verification/Recovery_Mono.thy ===== *)
theory Recovery_Mono
  imports Recovery_Inv "HOL-Library.Sublist"
begin

text \<open>
  What never changes in the recovery database: the order \<open>db_le\<close> says that the ingested blocks
  and the user events are append-only, that an invocation keeps its identifying columns and stays
  decommissioned, and that an ingress key keeps its start block, never lowers its expiry and stays
  lost. Every step of the database is above its start in this order.
\<close>

definition ii_static :: "ingest_invocation_row \<Rightarrow> i64 \<times> bytes \<times> bytes \<times> i64 \<times> int" where
  "ii_static r = (ii_id r, ii_ingress_key r, ii_egress_key r, ii_start_block r, ii_rng_version r)"

definition key_row_le :: "ingress_key_row \<Rightarrow> ingress_key_row \<Rightarrow> bool" where
  "key_row_le r r' \<longleftrightarrow>
     ik_key r' = ik_key r \<and> ik_start_block r' = ik_start_block r \<and>
     ik_pubkey_expiry r \<le> ik_pubkey_expiry r' \<and> (ik_lost r \<longrightarrow> ik_lost r')"

definition db_le :: "recovery_db \<Rightarrow> recovery_db \<Rightarrow> bool" where
  "db_le db db' \<longleftrightarrow>
     prefix (ingested_blocks db) (ingested_blocks db') \<and>
     prefix (user_events db) (user_events db') \<and>
     prefix (map ii_static (ingest_invocations db)) (map ii_static (ingest_invocations db')) \<and>
     set (map ii_id (filter ii_decommissioned (ingest_invocations db))) \<subseteq>
       set (map ii_id (filter ii_decommissioned (ingest_invocations db'))) \<and>
     (\<forall>k r. find_key db k = Some r \<longrightarrow> (\<exists>r'. find_key db' k = Some r' \<and> key_row_le r r'))"

lemma key_row_le_refl [simp]: "key_row_le r r"
  by (simp add: key_row_le_def)

lemma key_row_le_trans: "key_row_le a b \<Longrightarrow> key_row_le b c \<Longrightarrow> key_row_le a c"
  by (auto simp: key_row_le_def)

lemma db_le_refl [simp]: "db_le db db"
  by (auto simp: db_le_def)

lemma db_le_trans: "db_le a b \<Longrightarrow> db_le b c \<Longrightarrow> db_le a c"
  unfolding db_le_def by (meson key_row_le_trans order_trans prefix_order.trans)

lemma db_le_same_tables:
  "\<lbrakk>ingress_keys db' = ingress_keys db; ingest_invocations db' = ingest_invocations db;
    ingested_blocks db' = ingested_blocks db; user_events db' = user_events db\<rbrakk> \<Longrightarrow> db_le db db'"
  by (auto simp: db_le_def find_key_def)

lemma db_le_rollback [simp]: "db_le db (rollback db db')"
  by (rule db_le_same_tables) simp_all

lemma db_le_transaction_op:
  assumes "db_le db (snd (f db))"
  shows "db_le db (snd (with_conn (transaction f) db))"
proof -
  have "db_le db (snd (transaction f db))" by (rule transaction_inv) (use assms in simp_all)
  then show ?thesis by (cases "pool_up db") simp_all
qed

lemma db_le_bind_db:
  assumes "db_le db (snd m)" "\<And>a. db_le (snd m) (snd (k a (snd m)))"
  shows "db_le db (snd (bind_db m k))"
  using assms by (cases m; cases "fst m") (auto simp: bind_db_def intro: db_le_trans)

lemma db_le_insert_user_event [simp]: "db_le db (snd (insert_user_event ev db))"
  by (auto simp: insert_user_event_def Let_def db_le_def find_key_def)

lemma db_le_insert_ingest_invocation [simp]: "db_le db (snd (insert_ingest_invocation k e now s v db))"
  by (auto simp: insert_ingest_invocation_def Let_def db_le_def find_key_def split: sum.splits)

lemma db_le_insert_ingested_block [simp]: "db_le db (snd (insert_ingested_block k iid n c t d db))"
  by (auto simp: insert_ingested_block_def Let_def db_le_def find_key_def)

lemma db_le_upsert_report [simp]: "db_le db (snd (upsert_report r db))"
  by (rule db_le_same_tables) (simp_all add: upsert_report_def Let_def)

lemma db_le_touch_invocation:
  assumes "\<And>r. ii_static (f r) = ii_static r" "\<And>r. ii_decommissioned r \<Longrightarrow> ii_decommissioned (f r)"
  shows "db_le db (db\<lparr>ingest_invocations := update_where P f (ingest_invocations db)\<rparr>)"
proof -
  have id: "ii_id (f r) = ii_id r" for r using assms(1) [of r] by (simp add: ii_static_def)
  have "ii_id ` {x \<in> set rows. ii_decommissioned x} \<subseteq>
          ii_id ` {x \<in> set (update_where P f rows). ii_decommissioned x}" for rows
  proof (clarsimp)
    fix x assume x: "x \<in> set rows" "ii_decommissioned x"
    then show "ii_id x \<in> ii_id ` {x \<in> set (update_where P f rows). ii_decommissioned x}"
      by (intro image_eqI [where x = "if P x then f x else x"]) (auto simp: set_update_where id assms(2))
  qed
  then show ?thesis by (simp add: db_le_def find_key_def map_update_where assms(1))
qed

lemma db_le_touch_keys:
  assumes "\<And>r. P r \<Longrightarrow> key_row_le r (f r)" "\<And>r. ik_key (f r) = ik_key r"
  shows "db_le db (db\<lparr>ingress_keys := update_where P f (ingress_keys db)\<rparr>)"
  using assms by (simp add: db_le_def find_key_def find_update_where)

lemma db_le_decommission_impl [simp]: "db_le db (snd (decommission_ingest_invocation_impl now iid db))"
  unfolding decommission_ingest_invocation_impl_def
  by (rule db_le_trans [OF db_le_touch_invocation db_le_insert_user_event]) (simp_all add: ii_static_def)

lemma db_le_update_last_active [simp]: "db_le db (snd (update_last_active_at_impl now iid db))"
  unfolding update_last_active_at_impl_def snd_conv
  by (rule db_le_touch_invocation) (simp_all add: ii_static_def)

lemma db_le_new_ingest_invocation_tx: "db_le db (snd (new_ingest_invocation_tx now prev k egress start db))"
  unfolding new_ingest_invocation_tx_def
  by (intro db_le_bind_db) (auto simp: decommission_prev_def split: option.splits)

lemma db_le_add_block_data_tx: "db_le db (snd (add_block_data_tx enc now iid block ts txs db))"
  unfolding add_block_data_tx_def by (auto split: option.splits intro!: db_le_bind_db)

lemma db_le_mark_lost: "db_le db (mark_lost k db)"
  unfolding mark_lost_def by (rule db_le_touch_keys) (simp_all add: key_row_le_def)

lemma db_le_raise_key_expiry: "db_le db (raise_key_expiry k e db)"
  unfolding raise_key_expiry_def by (rule db_le_touch_keys) (simp_all add: key_row_le_def)

lemma db_le_report_lost_tx: "db_inv db \<Longrightarrow> db_le db (snd (report_lost_ingress_key_tx k db))"
  by (auto simp: report_lost_tx_eq db_le_mark_lost split: option.splits
      intro: db_le_trans [OF db_le_mark_lost db_le_insert_user_event])

lemma db_le_set_report_tx: "db_inv db \<Longrightarrow> db_le db (snd (set_report_tx enc_report k rid data db))"
  by (auto simp: set_report_tx_eq db_le_raise_key_expiry split: option.splits
      intro!: db_le_bind_db db_le_trans [OF db_le_raise_key_expiry db_le_upsert_report])

lemma db_le_new_ingress_key: "db_le db (snd (new_ingress_key k start db))"
  by (cases "pool_up db") (auto simp: new_ingress_key_def db_le_def find_key_def find_append split: option.splits)

lemma db_le_retire: "db_le db (snd (retire_ingress_key k b db))"
proof -
  have "db_le db (db\<lparr>ingress_keys := update_where (\<lambda>r. ik_key r = k) (\<lambda>r. r\<lparr>ik_retired := b\<rparr>) (ingress_keys db)\<rparr>)"
    by (rule db_le_touch_keys) (simp_all add: key_row_le_def)
  then show ?thesis by (cases "pool_up db") (simp_all add: retire_ingress_key_def)
qed

lemma db_step_le: "db_step enc enc_report db db' \<Longrightarrow> db_inv db \<Longrightarrow> db_le db db'"
proof (induction rule: db_step.induct)
  case (step_pool db b)
  show ?case by (rule db_le_same_tables) simp_all
next
  case (step_remove_report db rid)
  show ?case by (cases "pool_up db"; intro db_le_same_tables) (simp_all add: remove_report_def)
next
  case (step_last_active db now iid)
  show ?case by (cases "pool_up db") (simp_all add: update_last_active_at_def)
qed (simp_all add: db_le_new_ingress_key db_le_retire snd_add_block_data new_ingest_invocation_def
      decommission_ingest_invocation_def report_lost_ingress_key_def set_report_def
      db_le_transaction_op db_le_new_ingest_invocation_tx db_le_add_block_data_tx
      db_le_report_lost_tx db_le_set_report_tx)

lemma db_steps_le: "db_steps enc enc_report db db' \<Longrightarrow> db_inv db \<Longrightarrow> db_le db db'"
  unfolding db_steps_def
proof (induction rule: rtranclp_induct)
  case (step y z)
  then have "db_inv y" using db_steps_inv [of enc enc_report db y] by (simp add: db_steps_def)
  with step show ?case by (blast intro: db_le_trans db_step_le)
qed simp

end
