(* ===== verification/Recovery_Props.thy ===== *)
theory Recovery_Props
  imports Recovery_Mono
begin

text \<open>
  The properties of the recovery database that its clients rely on: block data is written once
  per ingress key and block and never changes, every block that was promised for a lost key is
  either covered or reported as missed, the expiry of a key only grows and no report is published
  for a retired key, and a client that polls the user events with the returned cursor sees each of
  them exactly once.
\<close>

section \<open>Block data\<close>

lemma blocks_of_unique:
  assumes "db_inv db"
  shows "length (blocks_of db k b) \<le> 1"
proof -
  have "distinct (map (\<lambda>r. (ib_key r, ib_block_number r)) (ingested_blocks db))"
    using assms by (simp add: db_inv_def blocks_inv_def)
  from filter_key_find [OF this, of "(k, as_i64 b)"]
  have "blocks_of db k b =
          (case find (\<lambda>r. (ib_key r, ib_block_number r) = (k, as_i64 b)) (ingested_blocks db) of
             None \<Rightarrow> [] | Some r \<Rightarrow> [r])"
    by (simp add: blocks_of_def)
  then show ?thesis by (simp split: option.splits)
qed

lemma blocks_of_le:
  assumes "db_le db db'" "db_inv db'" "blocks_of db k b \<noteq> []"
  shows "blocks_of db' k b = blocks_of db k b"
proof -
  obtain more where "ingested_blocks db' = ingested_blocks db @ more"
    using assms(1) by (auto simp: db_le_def prefix_def)
  then have "blocks_of db' k b = blocks_of db k b @ filter (\<lambda>r. ib_key r = k \<and> ib_block_number r = as_i64 b) more"
    by (simp add: blocks_of_def)
  moreover have "length (blocks_of db' k b) \<le> 1" using assms(2) by (rule blocks_of_unique)
  ultimately show ?thesis using assms(3) by (cases "blocks_of db k b") auto
qed

lemma get_tx_outs_by_block_and_key_eq:
  assumes "db_inv db" "pool_up db"
  shows "get_tx_outs_by_block_and_key dec k b db =
     (case blocks_of db k b of
        [] \<Rightarrow> Ok None
      | r # _ \<Rightarrow> (case dec (ib_data r) of None \<Rightarrow> Err Decode | Some recs \<Rightarrow> Ok (Some recs)), db)"
  using blocks_of_unique [OF assms(1), of k b] assms(2)
  by (cases "blocks_of db k b") (auto simp: get_tx_outs_by_block_and_key_def)

lemma get_tx_outs_stable:
  assumes "db_le db db'" "db_inv db" "db_inv db'" "pool_up db" "pool_up db'"
    and "fst (get_tx_outs_by_block_and_key dec k b db) = Ok (Some txs)"
  shows "fst (get_tx_outs_by_block_and_key dec k b db') = Ok (Some txs)"
proof -
  have "blocks_of db k b \<noteq> []"
    using assms(2,4,6) by (auto simp: get_tx_outs_by_block_and_key_eq)
  then show ?thesis
    using assms blocks_of_le [OF assms(1,3)] by (simp add: get_tx_outs_by_block_and_key_eq)
qed

lemma unique_iff_key:
  assumes "db_inv db" "r \<in> set (ingest_invocations db)" "ii_id r = iid"
  shows "(\<exists>b \<in> set (ingested_blocks db). ib_block_number b = as_i64 n \<and> (ib_iid b = iid \<or> ib_key b = ii_ingress_key r))
           \<longleftrightarrow> blocks_of db (ii_ingress_key r) n \<noteq> []"
proof -
  have "ib_key b = ii_ingress_key r" if b: "b \<in> set (ingested_blocks db)" "ib_iid b = iid" for b
  proof -
    have "(ib_iid b, ib_key b) \<in> set (map (\<lambda>r. (ii_id r, ii_ingress_key r)) (ingest_invocations db))"
      using assms(1) b by (auto simp: db_inv_def blocks_inv_def)
    then obtain r' where r': "r' \<in> set (ingest_invocations db)" "ii_id r' = ii_id r" "ii_ingress_key r' = ib_key b"
      using b assms(3) by auto
    have "distinct (map ii_id (ingest_invocations db))"
      using assms(1) by (simp add: db_inv_def invocations_inv_def strict_sorted_iff)
    then have "r' = r" using r' assms(2) by (simp add: distinct_map inj_on_def)
    then show ?thesis using r' by simp
  qed
  then show ?thesis by (auto simp: blocks_of_def filter_empty_conv)
qed

lemma find_invocation:
  assumes "db_inv db" "r \<in> set (ingest_invocations db)" "ii_id r = iid"
  shows "find (\<lambda>r. ii_id r = iid) (ingest_invocations db) = Some r"
  using assms by (intro find_key_Some) (simp_all add: db_inv_def invocations_inv_def strict_sorted_iff)

lemma add_block_data_outcome:
  assumes inv: "db_inv db" and up: "pool_up db" and r: "r \<in> set (ingest_invocations db)" "ii_id r = iid"
    and seq: "seq_ib db \<le> i64_max"
  shows "fst (add_block_data enc now iid block ts txs db) =
           Ok \<lparr>block_already_scanned_with_this_key = (blocks_of db (ii_ingress_key r) (bk_index block) \<noteq> [])\<rparr>"
    and "ingested_blocks (snd (add_block_data enc now iid block ts txs db)) =
           (if blocks_of db (ii_ingress_key r) (bk_index block) \<noteq> [] then ingested_blocks db
            else ingested_blocks db @
              [\<lparr>ib_id = seq_ib db, ib_iid = iid, ib_key = ii_ingress_key r,
                ib_block_number = as_i64 (bk_index block),
                ib_cumulative_txo_count = as_i64 (bk_cumulative_txo_count block),
                ib_timestamp = as_i64 ts, ib_data = enc txs\<rparr>])"
    and "pool_up (snd (add_block_data enc now iid block ts txs db))"
proof -
  have keys: "known_iid db (Some iid)" "ii_ingress_key r \<in> set (map ik_key (ingress_keys db))"
    using inv r by (auto simp: db_inv_def invocations_inv_def known_iid_def)
  note simps = add_block_data_def transaction_def add_block_data_tx_def find_invocation [OF inv r]
    insert_ingested_block_def Let_def unique_iff_key [OF inv r] bind_db_def update_last_active_at_impl_def
  show "fst (add_block_data enc now iid block ts txs db) =
      Ok \<lparr>block_already_scanned_with_this_key = (blocks_of db (ii_ingress_key r) (bk_index block) \<noteq> [])\<rparr>"
    using up seq keys by (auto simp: simps)
  show "ingested_blocks (snd (add_block_data enc now iid block ts txs db)) =
           (if blocks_of db (ii_ingress_key r) (bk_index block) \<noteq> [] then ingested_blocks db
            else ingested_blocks db @
              [\<lparr>ib_id = seq_ib db, ib_iid = iid, ib_key = ii_ingress_key r,
                ib_block_number = as_i64 (bk_index block),
                ib_cumulative_txo_count = as_i64 (bk_cumulative_txo_count block),
                ib_timestamp = as_i64 ts, ib_data = enc txs\<rparr>])"
    using up seq keys by (auto simp: simps)
  show "pool_up (snd (add_block_data enc now iid block ts txs db))"
    using up seq keys by (auto simp: simps)
qed

section \<open>Lost keys\<close>

definition record_of :: "recovery_db \<Rightarrow> ingress_key_row \<Rightarrow> IngressPublicKeyRecord" where
  "record_of db r =
     \<lparr>key = ik_key r, status = status_of_row r,
      last_scanned_block = map_option as_u64 (last_scanned db (ik_key r))\<rparr>"

lemma get_ingress_key_records_eq:
  assumes "db_inv db" "pool_up db" "permutes scan"
  shows "get_ingress_key_records scan n db =
     (Ok (map (record_of db) (scan (filter (\<lambda>r. ik_start_block r \<ge> as_i64 n) (ingress_keys db)))), db)"
proof -
  have "collect (map load_ingress_key (scan (filter (\<lambda>r. ik_start_block r \<ge> as_i64 n) (ingress_keys db)))) =
          Ok (scan (filter (\<lambda>r. ik_start_block r \<ge> as_i64 n) (ingress_keys db)))"
    using assms by (intro load_ingress_keys_Ok) (auto simp: db_inv_def keys_inv_len)
  then show ?thesis using assms(2) by (simp add: get_ingress_key_records_def record_of_def)
qed

lemma max_block_append_le:
  assumes "max_block xs = Some m"
  shows "\<exists>m'. max_block (xs @ ys) = Some m' \<and> m \<le> m'"
proof -
  have "xs \<noteq> []" "m = Max (set (map ib_block_number xs))"
    using assms by (auto simp: max_block_def split: if_splits)
  then show ?thesis by (auto simp: max_block_def image_Un intro!: Max_mono)
qed

lemma last_scanned_mono:
  assumes "db_le db db'" "last_scanned db k = Some m"
  shows "\<exists>m'. last_scanned db' k = Some m' \<and> m \<le> m'"
  using assms max_block_append_le by (auto simp: db_le_def prefix_def last_scanned_def)

lemma last_scanned_in:
  assumes "last_scanned db k = Some m"
  shows "\<exists>b \<in> set (ingested_blocks db). ib_block_number b = m"
proof -
  let ?bs = "filter (\<lambda>b. ib_key b = k) (ingested_blocks db)"
  have "?bs \<noteq> []" and m: "m = Max (set (map ib_block_number ?bs))"
    using assms unfolding last_scanned_def max_block_def by (auto split: if_splits)
  then have "m \<in> set (map ib_block_number ?bs)" 
    unfolding m by (intro Max_in) (simp_all only: set_empty map_is_Nil_conv finite_set not_False_eq_True)
  then show ?thesis by auto
qed

lemma last_scanned_nonneg:
  assumes "last_scanned db k = Some m" "db_le db1 db'" "ingested_blocks db1 = ingested_blocks db"
    and "\<forall>row \<in> set (ingested_blocks db'). 0 \<le> ib_block_number row"
  shows "0 \<le> m"
proof -
  obtain b where "b \<in> set (ingested_blocks db)" "ib_block_number b = m"
    using last_scanned_in [OF assms(1)] by blast
  then show ?thesis using assms(2-4) by (auto simp: db_le_def prefix_def)
qed

lemma missed_ranges_eq:
  assumes "db_inv db" "(i, e) \<in> set (user_events db)" "missing_blocks_event r = Some e"
  shows "\<exists>rs. get_missed_block_ranges_impl db = Ok rs \<and> r \<in> set rs"
proof -
  define rows where "rows = sort_key fst (filter (\<lambda>(i, e). ue_type e = UE_MissingBlocks) (user_events db))"
  have "\<exists>rr. missed_range_of_row u = Ok rr" if "u \<in> set rows" for u
  proof -
    have "event_shape (snd u)" "ue_type (snd u) = UE_MissingBlocks"
      using that assms(1) by (auto simp: rows_def db_inv_def events_inv_def)
    then show ?thesis
      by (cases u) (auto simp: event_shape_def event_kind_defs missing_blocks_event_def
          missed_range_of_row_def split: if_splits)
  qed
  then obtain g where g: "\<And>u. u \<in> set rows \<Longrightarrow> missed_range_of_row u = Ok (g u)" by metis
  then have "get_missed_block_ranges_impl db = Ok (map g rows)"
    unfolding get_missed_block_ranges_impl_def rows_def [symmetric] by (rule collect_map_Ok)
  moreover have u: "(i, e) \<in> set rows" and "missed_range_of_row (i, e) = Ok r"
    using assms(2,3)
    by (auto simp: rows_def missing_blocks_event_def missed_range_of_row_def BlockRange_new_def split: if_splits)
  then have "g (i, e) = r" using g [OF u] by simp
  ultimately show ?thesis using u by force
qed

lemma report_lost_outcome:
  assumes "db_inv db" "find_key db k = Some r" "fst (report_lost_ingress_key k db) = Ok ()"
  defines "db1 \<equiv> snd (report_lost_ingress_key k db)"
  shows "db_inv db1" "find_key db1 k = Some (r\<lparr>ik_lost := True\<rparr>)" "ingested_blocks db1 = ingested_blocks db"
    and "BlockRange_is_valid (missed_range db r) \<Longrightarrow>
           \<exists>i e. (i, e) \<in> set (user_events db1) \<and> missing_blocks_event (missed_range db r) = Some e"
proof -
  have up: "pool_up db" using assms(3) by (auto simp: report_lost_ingress_key_def with_conn_def split: if_splits)
  have tx: "fst (report_lost_ingress_key_tx k db) = Ok ()" and db1: "db1 = snd (report_lost_ingress_key_tx k db)"
    using assms(3) up
    by (auto simp: db1_def report_lost_ingress_key_def transaction_def split: prod.splits sum.splits)
  show "db_inv db1" unfolding db1_def using assms(1) by (rule report_lost_ingress_key_inv)
  have keys: "ingress_keys db1 = ingress_keys (mark_lost k db) \<and> ingested_blocks db1 = ingested_blocks db"
    using assms(1,2) by (auto simp: db1 report_lost_tx_eq mark_lost_def)
  then show "ingested_blocks db1 = ingested_blocks db" by simp
  show "find_key db1 k = Some (r\<lparr>ik_lost := True\<rparr>)"
    using keys find_key_mark_lost [of k db] assms(2) by (simp add: find_key_def)
  assume valid: "BlockRange_is_valid (missed_range db r)"
  then have "report_lost_ingress_key_tx k db =
      insert_user_event (the (missing_blocks_event (missed_range db r))) (mark_lost k db)"
    using assms(1,2) by (simp add: report_lost_tx_eq)
  then show "\<exists>i e. (i, e) \<in> set (user_events db1) \<and> missing_blocks_event (missed_range db r) = Some e"
    using insert_user_event_Ok(1) [of "the (missing_blocks_event (missed_range db r))" "mark_lost k db" "()"]
      tx missing_blocks_event_valid [OF valid] by (auto simp: db1)
qed

lemma missed_ranges_le:
  assumes "db_le db db'" "db_inv db'" "(i, e) \<in> set (user_events db)" "missing_blocks_event r = Some e"
  shows "\<exists>rs. get_missed_block_ranges_impl db' = Ok rs \<and> r \<in> set rs"
  using assms by (intro missed_ranges_eq) (auto simp: db_le_def prefix_def)

lemma covers_lost_record:
  assumes "ik_lost r'" "as_u64 (ik_start_block r') \<le> b"
    and "last_scanned db' (ik_key r') = Some m'" "b \<le> as_u64 m'"
  shows "covers_block_index (record_of db' r') b"
  using assms by (simp add: covers_block_index_def record_of_def status_of_row_def)

section \<open>User events\<close>

definition event_of :: "recovery_db \<Rightarrow> user_event_row \<Rightarrow> FogUserEvent" where
  "event_of db u = projr (event_of_row db
     (u, find (\<lambda>ii. Some (ii_id ii) = ue_new_iid (snd u)) (ingest_invocations db)))"

lemma search_loop_eq:
  assumes "\<And>row. row \<in> set rows \<Longrightarrow> event_of_row db row = Ok (ev row)"
  shows "search_loop db rows m events =
     Ok (events @ map (\<lambda>row. (fst (fst row), ev row)) rows, fold max (map (fst \<circ> fst) rows) m)"
  using assms by (induction rows arbitrary: m events) (auto simp: max.commute)

lemma join_invocation_eq:
  assumes "db_inv db"
  shows "join_invocation db u =
    [(u, find (\<lambda>ii. Some (ii_id ii) = ue_new_iid (snd u)) (ingest_invocations db))]"
proof -
  have "distinct (map (\<lambda>ii. Some (ii_id ii)) (ingest_invocations db))"
    using assms by (simp add: db_inv_def invocations_inv_def strict_sorted_iff distinct_map inj_on_def)
  from filter_key_find [OF this, of "ue_new_iid (snd u)"]
  show ?thesis by (auto simp: join_invocation_def Let_def eq_commute split: option.splits)
qed

lemma event_of_row_Ok:
  assumes "db_inv db" "u \<in> set (user_events db)"
  shows "event_of_row db (u, find (\<lambda>ii. Some (ii_id ii) = ue_new_iid (snd u)) (ingest_invocations db)) =
           Ok (event_of db u)"
proof -
  obtain i e where u: "u = (i, e)" by (cases u)
  have "\<forall>e \<in> set (map snd (user_events db)). event_shape e"
    using assms(1) unfolding db_inv_def events_inv_def by blast
  moreover have "e \<in> set (map snd (user_events db))"
    using assms(2) u by force
  ultimately have e: "event_shape e" "e \<in> set (map snd (user_events db))" by auto
  have "\<exists>ii. find (\<lambda>ii. Some (ii_id ii) = Some iid) (ingest_invocations db) = Some ii"
    if "e = new_ingest_invocation_event iid" for iid
  proof -
    have "iid \<in> set (map ii_id (ingest_invocations db))"
      using assms(1) e(2) that by (auto simp: db_inv_def events_inv_def)
    then have "find (\<lambda>ii. Some (ii_id ii) = Some iid) (ingest_invocations db) \<noteq> None"
      by (auto simp: find_None_iff)
    then show ?thesis by blast
  qed
  then have "\<exists>ev. event_of_row db (u, find (\<lambda>ii. Some (ii_id ii) = ue_new_iid (snd u)) (ingest_invocations db)) = Ok ev"
    using e(1) unfolding event_shape_def
    by (auto simp: u event_of_row_def event_kind_defs missing_blocks_event_def split: if_splits)
  then show ?thesis by (auto simp: event_of_def)
qed

lemma search_user_events_eq:
  assumes "db_inv db" "pool_up db" "permutes scan" "s \<noteq> i64_max"
  defines "us \<equiv> filter (\<lambda>u. fst u > s) (user_events db)"
  shows "search_user_events scan s db = (Ok (map (event_of db) us, fold max (map fst (scan us)) s), db)"
proof -
  define row where "row = (\<lambda>u :: user_event_row.
    (u, find (\<lambda>ii. Some (ii_id ii) = ue_new_iid (snd u)) (ingest_invocations db)))"
  have "search_loop db (map row (scan us)) s [] =
      Ok (map (\<lambda>u. (fst u, event_of db u)) (scan us), fold max (map fst (scan us)) s)"
    using assms event_of_row_Ok [OF assms(1)]
    by (subst search_loop_eq [where ev = "event_of db \<circ> fst"]) (auto simp: row_def us_def o_def)
  moreover have "concat (map (join_invocation db) (scan us)) = map row (scan us)"
  proof -
    have "join_invocation db = (\<lambda>u. [row u])"
      by (simp add: fun_eq_iff row_def join_invocation_eq [OF assms(1)])
    then show ?thesis by (simp add: concat_map_singleton)
  qed
  moreover have "sorted_wrt (<) (map fst us)"
    using assms(1) by (simp add: us_def db_inv_def events_inv_def sorted_wrt_map sorted_wrt_filter)
  then have "sort_key fst (scan us) = us"
    by (rule sort_key_permutes [OF assms(3)])
  then have "map snd (sort_key fst (map (\<lambda>u. (fst u, event_of db u)) (scan us))) = map (event_of db) us"
    by (simp add: sort_key_map)
  ultimately show ?thesis
    using assms(2,4) by (simp add: search_user_events_def us_def)
qed

definition cursor :: "recovery_db \<Rightarrow> i64 \<Rightarrow> i64" where
  "cursor db s = Max (insert s (fst ` set (filter (\<lambda>u. fst u > s) (user_events db))))"

lemma fold_max_cursor:
  assumes "permutes scan"
  shows "fold max (map fst (scan (filter (\<lambda>u. fst u > s) (user_events db)))) s = cursor db s"
proof -
  let ?us = "scan (filter (\<lambda>u. fst u > s) (user_events db))"
  have "fold max (map fst ?us) s = Max (set (s # map fst ?us))"
    by (rule Max.set_eq_fold [symmetric])
  then show ?thesis using assms by (simp add: cursor_def)
qed

lemma search_user_events_cursor:
  assumes "db_inv db" "pool_up db" "permutes scan"
  shows "fst (search_user_events scan s db) =
    (if s = i64_max then Ok ([], i64_max)
     else Ok (map (event_of db) (filter (\<lambda>u. fst u > s) (user_events db)), cursor db s))"
  using search_user_events_eq [OF assms] fold_max_cursor [OF assms(3)]
  by (auto simp: search_user_events_def)

lemma event_ids_bounded:
  assumes "db_inv db" "u \<in> set (user_events db)"
  shows "fst u \<le> i64_max"
  using assms by (force simp: db_inv_def events_inv_def)

lemma Max_Un_insert:
  "finite A \<Longrightarrow> A \<noteq> {} \<Longrightarrow> finite B \<Longrightarrow> Max (A \<union> B) = Max (insert (Max A) (B :: i64 set))"
  by (cases "B = {}") (simp_all add: Max_Un)

lemma cursor_ge:
  shows "s \<le> cursor db s" and "u \<in> set (user_events db) \<Longrightarrow> fst u \<le> cursor db s"
proof -
  have ge: "x \<le> cursor db s" if "x \<in> insert s (fst ` set (filter (\<lambda>u. fst u > s) (user_events db)))" for x
    unfolding cursor_def using that by (intro Max_ge) simp_all
  show s: "s \<le> cursor db s" by (rule ge) simp
  show "fst u \<le> cursor db s" if "u \<in> set (user_events db)"
    using that ge [of "fst u"] s by (cases "fst u > s") auto
qed

fun erase_progress :: "FogUserEvent \<Rightarrow> FogUserEvent" where
  "erase_progress (DecommissionIngestInvocation d) =
     DecommissionIngestInvocation (d\<lparr>di_last_ingested_block := 0\<rparr>)"
| "erase_progress ev = ev"

lemma find_static:
  assumes "prefix (map ii_static xs) (map ii_static ys)" "find (\<lambda>ii. Some (ii_id ii) = x) xs = Some ii"
  shows "\<exists>ii'. find (\<lambda>ii. Some (ii_id ii) = x) ys = Some ii' \<and> ii_static ii' = ii_static ii"
  using assms
proof (induction xs arbitrary: ys)
  case (Cons a xs)
  then obtain b zs where ys: "ys = b # zs" "ii_static b = ii_static a" "prefix (map ii_static xs) (map ii_static zs)"
    by (cases ys) auto
  then have "ii_id b = ii_id a" by (simp add: ii_static_def)
  then show ?case using Cons ys by (auto split: if_splits)
qed simp

lemma event_of_static:
  assumes "prefix (map ii_static (ingest_invocations db)) (map ii_static (ingest_invocations db'))"
    and "db_inv db" "db_inv db'" "u \<in> set (user_events db)" "u \<in> set (user_events db')"
  shows "erase_progress (event_of db' u) = erase_progress (event_of db u)"
proof -
  let ?find = "\<lambda>db. find (\<lambda>ii. Some (ii_id ii) = ue_new_iid (snd u)) (ingest_invocations db)"
  note ok = event_of_row_Ok [OF assms(2,4)] event_of_row_Ok [OF assms(3,5)]
  show ?thesis
  proof (cases "ue_type (snd u)")
    case UE_NewIngestInvocation
    then obtain ii where ii: "?find db = Some ii"
      using ok(1) by (cases u) (auto simp: event_of_row_def split: option.splits)
    then obtain ii' where "?find db' = Some ii'" "ii_static ii' = ii_static ii"
      using find_static [OF assms(1)] by blast
    then show ?thesis
      using ii UE_NewIngestInvocation by (cases u) (simp add: event_of_def event_of_row_def ii_static_def)
  qed (use ok in \<open>cases u; auto simp: event_of_def event_of_row_def split: option.splits\<close>)+
qed

lemma snd_update_reports:
  "snd ` set (update_where (\<lambda>(j, q). rp_report_id q = rid) (\<lambda>(j, q). (j, r)) rows) =
     (if rid \<in> set (map (rp_report_id \<circ> snd) rows) then {r} else {}) \<union>
     {q \<in> snd ` set rows. rp_report_id q \<noteq> rid}"
proof -
  have "map snd (update_where (\<lambda>(j, q). rp_report_id q = rid) (\<lambda>(j, q). (j, r)) rows) =
          map (\<lambda>q. if rp_report_id q = rid then r else q) (map snd rows)"
    by (auto simp: update_where_def)
  then have "snd ` set (update_where (\<lambda>(j, q). rp_report_id q = rid) (\<lambda>(j, q). (j, r)) rows) =
          (\<lambda>q. if rp_report_id q = rid then r else q) ` snd ` set rows"
    by (metis set_map)
  moreover have "(\<lambda>q. if P q then r else q) ` A = (if \<exists>q \<in> A. P q then {r} else {}) \<union> {q \<in> A. \<not> P q}" for P A
    by auto
  ultimately show ?thesis by (auto simp: image_iff)
qed

lemma decommission_prev_outcome:
  assumes "fst (decommission_prev now prev db) = Ok u"
  shows "user_events (snd (decommission_prev now prev db)) = user_events db @
           (case prev of None \<Rightarrow> [] | Some p \<Rightarrow> [(seq_ue db, decommission_ingest_invocation_event p)])"
    and "seq_ue (snd (decommission_prev now prev db)) = seq_ue db + (if prev = None then 0 else 1)"
    and "prev \<noteq> None \<Longrightarrow> seq_ue db \<le> i64_max"
    and "map ii_static (ingest_invocations (snd (decommission_prev now prev db))) = map ii_static (ingest_invocations db)"
    and "seq_ii (snd (decommission_prev now prev db)) = seq_ii db"
    and "ingested_blocks (snd (decommission_prev now prev db)) = ingested_blocks db"
proof -
  let ?f = "\<lambda>p. db\<lparr>ingest_invocations := update_where (\<lambda>r. ii_id r = p)
              (\<lambda>r. r\<lparr>ii_decommissioned := True, ii_last_active_at := now\<rparr>) (ingest_invocations db)\<rparr>"
  have *: "fst (insert_user_event (decommission_ingest_invocation_event p) (?f p)) = Ok u" if "prev = Some p" for p
    using assms that by (simp add: decommission_prev_def decommission_ingest_invocation_impl_def)
  note ins = insert_user_event_Ok(1,2) [OF *]
  show "user_events (snd (decommission_prev now prev db)) = user_events db @
           (case prev of None \<Rightarrow> [] | Some p \<Rightarrow> [(seq_ue db, decommission_ingest_invocation_event p)])"
    "seq_ue (snd (decommission_prev now prev db)) = seq_ue db + (if prev = None then 0 else 1)"
    "prev \<noteq> None \<Longrightarrow> seq_ue db \<le> i64_max"
    using ins by (auto simp: decommission_prev_def decommission_ingest_invocation_impl_def split: option.splits)
  show "map ii_static (ingest_invocations (snd (decommission_prev now prev db))) = map ii_static (ingest_invocations db)"
    "seq_ii (snd (decommission_prev now prev db)) = seq_ii db"
    "ingested_blocks (snd (decommission_prev now prev db)) = ingested_blocks db"
    by (auto simp: decommission_prev_def decommission_ingest_invocation_impl_def map_update_where ii_static_def
        split: option.splits)
qed

lemma new_ingest_invocation_outcome:
  assumes inv: "db_inv db" and ok: "fst (new_ingest_invocation now prev k egress start db) = Ok iid"
  defines "db' \<equiv> snd (new_ingest_invocation now prev k egress start db)"
  shows "pool_up db'" "db_le db db'" "iid = seq_ii db" "ingested_blocks db' = ingested_blocks db"
    and "\<exists>i. i \<ge> seq_ue db \<and> i \<le> i64_max \<and> user_events db' = user_events db @
           (case prev of None \<Rightarrow> [] | Some p \<Rightarrow> [(seq_ue db, decommission_ingest_invocation_event p)]) @
           [(i, new_ingest_invocation_event iid)]"
    and "\<exists>ii \<in> set (ingest_invocations db').
           ii_static ii = (iid, k, kp_public_key egress, as_i64 start, sint (kp_version egress))"
proof -
  have up: "pool_up db" using ok by (auto simp: new_ingest_invocation_def with_conn_def split: if_splits)
  have tx: "fst (new_ingest_invocation_tx now prev k egress start db) = Ok iid"
    and db': "db' = snd (new_ingest_invocation_tx now prev k egress start db)"
    using ok up by (auto simp: db'_def new_ingest_invocation_def transaction_def split: prod.splits sum.splits)
  show "db_le db db'" unfolding db' by (rule db_le_new_ingest_invocation_tx)
  obtain db1 db2 where 1: "fst (decommission_prev now prev db) = Ok ()" "db1 = snd (decommission_prev now prev db)"
    and 2: "insert_ingest_invocation k (kp_public_key egress) now (as_i64 start) (sint (kp_version egress)) db1 =
           (Ok iid, db2)"
    and 3: "fst (insert_user_event (new_ingest_invocation_event iid) db2) = Ok ()"
    and 4: "db' = snd (insert_user_event (new_ingest_invocation_event iid) db2)"
    using new_ingest_invocation_tx_OkE [OF tx] unfolding db' by metis
  note d = decommission_prev_outcome [OF 1(1), folded 1(2)]
  note i = insert_ingest_invocation_Ok [of k "kp_public_key egress" now "as_i64 start" "sint (kp_version egress)" db1 iid,
      unfolded 2 fst_conv snd_conv, OF refl]
  note u = insert_user_event_Ok [OF 3]
  show "iid = seq_ii db" "ingested_blocks db' = ingested_blocks db" using i d u by (simp_all add: 4)
  show "pool_up db'" using up i(1) u(1)
    by (simp add: 4 1(2) decommission_prev_def decommission_ingest_invocation_impl_def split: option.splits)
  show "\<exists>i. i \<ge> seq_ue db \<and> i \<le> i64_max \<and> user_events db' = user_events db @
           (case prev of None \<Rightarrow> [] | Some p \<Rightarrow> [(seq_ue db, decommission_ingest_invocation_event p)]) @
           [(i, new_ingest_invocation_event iid)]"
    using i(1) u(1,2) d(1,2) by (intro exI [of _ "seq_ue db2"]) (simp add: 4)
  show "\<exists>ii \<in> set (ingest_invocations db').
           ii_static ii = (iid, k, kp_public_key egress, as_i64 start, sint (kp_version egress))"
    using i(1,2) by (simp add: 4 ii_static_def)
qed

lemma event_of_new_invocation:
  assumes "db_inv db" "ii \<in> set (ingest_invocations db)"
    and "ii_static ii = (iid, k, kp_public_key egress, as_i64 start, sint (kp_version egress))"
  shows "event_of db (i, new_ingest_invocation_event iid) =
     NewRngRecord \<lparr>rr_ingest_invocation_id = iid, rr_pubkey = egress, rr_start_block = start\<rparr>"
proof -
  have "find (\<lambda>ii. Some (ii_id ii) = Some iid) (ingest_invocations db) = Some ii"
    using find_invocation [OF assms(1,2)] assms(3) by (simp add: ii_static_def)
  then show ?thesis
    using assms(3) by (simp add: event_of_def event_of_row_def new_ingest_invocation_event_def ii_static_def)
qed

section \<open>A sample run\<close>

text \<open>
  A key registered at block 5, an invocation scanning with it, a report published up to block 20,
  and block 5 ingested. The witnesses below evaluate the properties on this run.
\<close>

definition sample_key :: bytes where
  "sample_key = replicate 32 3"

definition sample_egress :: KexRngPubkey where
  "sample_egress = \<lparr>kp_public_key = [1, 2], kp_version = 0\<rparr>"

definition sample_txs :: "ETxOutRecord list" where
  "sample_txs = [\<lparr>search_key = replicate 16 7, payload = [1, 2, 3]\<rparr>]"

definition sample_enc :: "ETxOutRecord list \<Rightarrow> bytes" where
  "sample_enc txs = concat (map (\<lambda>t. search_key t @ payload t) txs)"

definition sample_dec :: "bytes \<Rightarrow> ETxOutRecord list option" where
  "sample_dec bs = (if bs = [] then Some [] else Some [\<lparr>search_key = take 16 bs, payload = drop 16 bs\<rparr>])"

definition sample_enc_report :: "bytes \<Rightarrow> bytes" where
  "sample_enc_report r = r"

definition sample_report :: "bytes ReportData" where
  "sample_report = \<lparr>rd_ingest_invocation_id = Some 1, rd_report = [9], rd_pubkey_expiry = 20\<rparr>"

definition sample_db0 :: recovery_db where
  "sample_db0 = snd (new_ingress_key sample_key 5 empty_db)"

definition sample_db1 :: recovery_db where
  "sample_db1 = snd (new_ingest_invocation 0 None sample_key sample_egress 5 sample_db0)"

definition sample_db2 :: recovery_db where
  "sample_db2 = snd (set_report sample_enc_report sample_key ''a'' sample_report sample_db1)"

definition sample_db3 :: recovery_db where
  "sample_db3 = snd (add_block_data sample_enc 0 1 \<lparr>bk_index = 5, bk_cumulative_txo_count = 40\<rparr> 100
                      sample_txs sample_db2)"

lemma sample_steps:
  "db_steps sample_enc sample_enc_report empty_db sample_db0"
  "db_steps sample_enc sample_enc_report sample_db0 sample_db1"
  "db_steps sample_enc sample_enc_report sample_db1 sample_db2"
  "db_steps sample_enc sample_enc_report sample_db2 sample_db3"
  unfolding db_steps_def sample_db0_def sample_db1_def sample_db2_def sample_db3_def
  by (intro r_into_rtranclp db_step.intros; simp add: sample_key_def)+

lemma sample_inv: "db_inv sample_db0" "db_inv sample_db1" "db_inv sample_db2" "db_inv sample_db3"
  using sample_steps [THEN db_steps_inv] empty_db_inv by simp_all

lemma as_i64_numerals [simp]: "as_i64 0 = 0" "as_i64 5 = 5" "as_i64 20 = 20" "as_i64 40 = 40" "as_i64 100 = 100"
  by (simp_all add: as_i64_def)

lemma sample_db1_eq: "sample_db1 =
  \<lparr>pool_up = True,
   ingress_keys = [\<lparr>ik_key = sample_key, ik_start_block = 5, ik_pubkey_expiry = 0, ik_retired = False, ik_lost = False\<rparr>],
   ingest_invocations = [\<lparr>ii_id = 1, ii_ingress_key = sample_key, ii_egress_key = [1, 2], ii_last_active_at = 0,
                          ii_start_block = 5, ii_decommissioned = False, ii_rng_version = 0\<rparr>],
   ingested_blocks = [], user_events = [(1, new_ingest_invocation_event 1)], reports = [],
   seq_ii = 2, seq_ib = 1, seq_ue = 2, seq_rp = 1\<rparr>"
  unfolding sample_db1_def sample_db0_def
  by (simp add: empty_db_def new_ingress_key_def new_ingest_invocation_def new_ingest_invocation_tx_def
      transaction_def bind_db_def decommission_prev_def insert_ingest_invocation_def i64_max_def
      from_sql_key_def sample_key_def sample_egress_def insert_user_event_def known_iid_def
      new_ingest_invocation_event_def)

lemma sample_db2_eq: "sample_db2 =
  sample_db1\<lparr>ingress_keys := [\<lparr>ik_key = sample_key, ik_start_block = 5, ik_pubkey_expiry = 20, ik_retired = False, ik_lost = False\<rparr>],
   reports := [(1, \<lparr>rp_key = sample_key, rp_iid = Some 1, rp_report_id = ''a'', rp_report = [9], rp_pubkey_expiry = 20\<rparr>)],
   seq_rp := 2\<rparr>"
  unfolding sample_db2_def set_report_def
  by (simp add: sample_db1_eq transaction_def set_report_tx_def sample_report_def update_where_def
      load_ingress_key_def from_sql_key_def sample_key_def status_of_row_def bind_db_def upsert_report_def
      known_iid_def i64_max_def sample_enc_report_def)

lemma sample_db3_eq: "sample_db3 =
  sample_db2\<lparr>ingested_blocks := [\<lparr>ib_id = 1, ib_iid = 1, ib_key = sample_key, ib_block_number = 5,
     ib_cumulative_txo_count = 40, ib_timestamp = 100, ib_data = sample_enc sample_txs\<rparr>], seq_ib := 2\<rparr>"
  unfolding sample_db3_def
  by (simp add: sample_db2_eq sample_db1_eq add_block_data_def transaction_def add_block_data_tx_def
      insert_ingested_block_def known_iid_def i64_max_def bind_db_def update_last_active_at_impl_def update_where_def)

lemmas sample_eqs = sample_db1_eq sample_db2_eq sample_db3_eq

lemma sample_find_key:
  "find_key sample_db3 sample_key =
     Some \<lparr>ik_key = sample_key, ik_start_block = 5, ik_pubkey_expiry = 20, ik_retired = False, ik_lost = False\<rparr>"
  by (simp add: sample_eqs find_key_def)

section \<open>Properties\<close>

text \<open>
  C1: every state the recovery database can reach from the empty schema, by any sequence of calls
  with any arguments and with the connection lost and regained in between, satisfies the
  well-formedness invariant \<open>db_inv\<close>: keys, constraints and references hold, every invocation
  is announced once and decommissioned exactly when an event says so, and every report stays within
  the recorded expiry of its key.
\<close>

theorem reachable_db_inv:
  assumes "db_steps enc enc_report empty_db db"
  shows "db_inv db"
  using assms empty_db_inv by (rule db_steps_inv)

theorem reachable_db_inv_witness: "db_inv sample_db3"
  by (rule reachable_db_inv [where enc = sample_enc and enc_report = sample_enc_report])
    (use sample_steps in \<open>auto simp: db_steps_def\<close>)

text \<open>
  C2: \<^verbatim>\<open>add_block_data\<close> for a known invocation writes the records of a block once per ingress
  key. It reports the block as already scanned exactly when \<^verbatim>\<open>get_tx_outs_by_block_and_key\<close>
  gave something before. After the call the block reads back as the given records if it was new,
  and every other key and block, and a block that was already there, read back as before.
\<close>

theorem add_block_data_once:
  assumes "db_inv db" "pool_up db" "r \<in> set (ingest_invocations db)" "ii_id r = iid"
    and "seq_ib db \<le> i64_max" "dec (enc txs) = Some txs"
  shows "fst (add_block_data enc now iid block ts txs db) =
           Ok \<lparr>block_already_scanned_with_this_key =
                (fst (get_tx_outs_by_block_and_key dec (ii_ingress_key r) (bk_index block) db) \<noteq> Ok None)\<rparr> \<and>
         (\<forall>k b. fst (get_tx_outs_by_block_and_key dec k b (snd (add_block_data enc now iid block ts txs db))) =
            (if k = ii_ingress_key r \<and> b = bk_index block \<and>
                fst (get_tx_outs_by_block_and_key dec k b db) = Ok None
             then Ok (Some txs) else fst (get_tx_outs_by_block_and_key dec k b db)))"
proof -
  let ?db' = "snd (add_block_data enc now iid block ts txs db)"
  note out = add_block_data_outcome [OF assms(1-5), of enc now block ts txs]
  note get = get_tx_outs_by_block_and_key_eq [OF assms(1,2)]
    get_tx_outs_by_block_and_key_eq [OF add_block_data_inv [OF assms(1)] out(3)]
  have none: "fst (get_tx_outs_by_block_and_key dec k b db) = Ok None \<longleftrightarrow> blocks_of db k b = []" for k b
    by (auto simp: get split: list.splits option.splits)
  have "blocks_of ?db' k b =
     (if k = ii_ingress_key r \<and> b = bk_index block \<and> blocks_of db k b = []
      then [\<lparr>ib_id = seq_ib db, ib_iid = iid, ib_key = k, ib_block_number = as_i64 b,
             ib_cumulative_txo_count = as_i64 (bk_cumulative_txo_count block),
             ib_timestamp = as_i64 ts, ib_data = enc txs\<rparr>]
      else blocks_of db k b)" for k b
    using out(2) by (auto simp: blocks_of_def)
  then show ?thesis using out(1) assms(6) by (auto simp: none) (auto simp: get)
qed

theorem add_block_data_once_witness:
  "fst (add_block_data sample_enc 0 1 \<lparr>bk_index = 5, bk_cumulative_txo_count = 40\<rparr> 100 sample_txs sample_db2) =
     Ok \<lparr>block_already_scanned_with_this_key =
          (fst (get_tx_outs_by_block_and_key sample_dec sample_key 5 sample_db2) \<noteq> Ok None)\<rparr> \<and>
   (\<forall>k b. fst (get_tx_outs_by_block_and_key sample_dec k b
           (snd (add_block_data sample_enc 0 1 \<lparr>bk_index = 5, bk_cumulative_txo_count = 40\<rparr> 100 sample_txs sample_db2))) =
      (if k = sample_key \<and> b = 5 \<and> fst (get_tx_outs_by_block_and_key sample_dec k b sample_db2) = Ok None
       then Ok (Some sample_txs) else fst (get_tx_outs_by_block_and_key sample_dec k b sample_db2)))"
proof -
  let ?r = "\<lparr>ii_id = 1, ii_ingress_key = sample_key, ii_egress_key = [1, 2], ii_last_active_at = 0,
             ii_start_block = 5, ii_decommissioned = False, ii_rng_version = 0\<rparr>"
  have "pool_up sample_db2" "?r \<in> set (ingest_invocations sample_db2)" "seq_ib sample_db2 \<le> i64_max"
    by (simp_all add: sample_eqs i64_max_def)
  moreover have "sample_dec (sample_enc sample_txs) = Some sample_txs"
    by (simp add: sample_dec_def sample_enc_def sample_txs_def)
  ultimately show ?thesis
    using add_block_data_once [of sample_db2 ?r 1 sample_dec sample_enc sample_txs 0
        "\<lparr>bk_index = 5, bk_cumulative_txo_count = 40\<rparr>" 100] sample_inv by simp
qed

text \<open>
  C3: the records of a block never change once they are visible: whatever the servers do
  afterwards, \<^verbatim>\<open>get_tx_outs_by_block_and_key\<close> keeps returning the same records.
\<close>

theorem block_data_immutable:
  assumes "db_inv db" "pool_up db" "fst (get_tx_outs_by_block_and_key dec k b db) = Ok (Some txs)"
    and "db_steps enc enc_report db db'" "pool_up db'"
  shows "fst (get_tx_outs_by_block_and_key dec k b db') = Ok (Some txs)"
  using get_tx_outs_stable [OF db_steps_le [OF assms(4,1)] assms(1) db_steps_inv [OF assms(4,1)]] assms
  by blast

theorem block_data_immutable_witness:
  "fst (get_tx_outs_by_block_and_key sample_dec sample_key 5
     (snd (decommission_ingest_invocation 3 1 sample_db3))) = Ok (Some sample_txs)"
proof (rule block_data_immutable [OF sample_inv(4)])
  show "pool_up sample_db3" by (simp add: sample_eqs)
  show "fst (get_tx_outs_by_block_and_key sample_dec sample_key 5 sample_db3) = Ok (Some sample_txs)"
    by (simp add: sample_eqs get_tx_outs_by_block_and_key_def blocks_of_def sample_dec_def sample_enc_def
        sample_txs_def)
  show "db_steps sample_enc sample_enc_report sample_db3 (snd (decommission_ingest_invocation 3 1 sample_db3))"
    unfolding db_steps_def by (intro r_into_rtranclp step_decommission)
  show "pool_up (snd (decommission_ingest_invocation 3 1 sample_db3))"
    by (simp add: sample_eqs decommission_ingest_invocation_def transaction_def insert_user_event_def
        decommission_ingest_invocation_impl_def Let_def rollback_def split: prod.splits sum.splits if_splits)
qed

text \<open>
  C6: no block is lost silently. When \<^verbatim>\<open>report_lost_ingress_key\<close> succeeds, then in every later
  state each block that was promised for the key, from its start block up to the expiry published
  so far, is either covered by the key's record (the view server waits for its data) or contained
  in a missed block range (the users are told to download it). Block numbers are below
  \<open>2^63\<close>, the range of the column.
\<close>

theorem lost_key_blocks_accounted:
  assumes "db_inv db" "find_key db k = Some r" "fst (report_lost_ingress_key k db) = Ok ()"
    and steps: "db_steps enc enc_report (snd (report_lost_ingress_key k db)) db'" and "pool_up db'"
    and nonneg: "\<forall>row \<in> set (ingested_blocks db'). 0 \<le> ib_block_number row"
    and b: "as_u64 (ik_start_block r) \<le> b" "b < as_u64 (ik_pubkey_expiry r)"
    and "permutes scan" "as_i64 n \<le> ik_start_block r"
  shows "(\<exists>recs rec. fst (get_ingress_key_records scan n db') = Ok recs \<and> rec \<in> set recs \<and> key rec = k \<and>
            st_lost (status rec) \<and> covers_block_index rec b) \<or>
         (\<exists>rs m. fst (get_missed_block_ranges db') = Ok rs \<and> m \<in> set rs \<and> BlockRange_contains m b)"
proof (cases "br_start_block (missed_range db r) \<le> b")
  note out = report_lost_outcome [OF assms(1-3)]
  have le: "db_le (snd (report_lost_ingress_key k db)) db'" and inv': "db_inv db'"
    using db_steps_le [OF steps] db_steps_inv [OF steps] out(1) by auto
  case True
  then have contains: "BlockRange_contains (missed_range db r) b"
    using b(2) by (simp add: BlockRange_contains_def missed_range_def Let_def)
  then have "BlockRange_is_valid (missed_range db r)" by (auto simp: BlockRange_is_valid_iff_contains)
  then obtain rs where "get_missed_block_ranges_impl db' = Ok rs" "missed_range db r \<in> set rs"
    using out(4) missed_ranges_le [OF le inv'] by blast
  then show ?thesis using contains assms(5) by (auto simp: get_missed_block_ranges_def)
next
  note out = report_lost_outcome [OF assms(1-3)]
  have le: "db_le (snd (report_lost_ingress_key k db)) db'" and inv': "db_inv db'"
    using db_steps_le [OF steps] db_steps_inv [OF steps] out(1) by auto
  have k: "ik_key r = k" using assms(2) by (auto simp: find_key_def find_Some_iff)
  case False
  then obtain m where m: "last_scanned db k = Some m" "b \<le> as_u64 m"
    using b(1) k by (auto simp: missed_range_def Let_def not_le less_max_iff_disj less_inc_imp_less_eq
        split: option.splits)
  then have "last_scanned (snd (report_lost_ingress_key k db)) k = Some m"
    by (simp add: last_scanned_def out(3))
  then obtain m' where m': "last_scanned db' k = Some m'" "m \<le> m'"
    using last_scanned_mono [OF le] by blast
  obtain r' where r': "find_key db' k = Some r'" "key_row_le (r\<lparr>ik_lost := True\<rparr>) r'"
    using le out(2) unfolding db_le_def by blast
  have "as_u64 m \<le> as_u64 m'"
    using m' last_scanned_nonneg [OF m(1) le out(3) nonneg] last_scanned_in [OF m'(1)] inv'
    by (intro as_u64_mono) (auto simp: db_inv_def blocks_inv_def)
  then have "covers_block_index (record_of db' r') b"
    using r' m m' b(1) k by (intro covers_lost_record [of _ _ _ m']) (auto simp: key_row_le_def)
  moreover have "r' \<in> set (ingress_keys db')" using r'(1) by (auto simp: find_key_def find_Some_iff)
  ultimately show ?thesis
    using r' assms(5,9,10) k
    by (intro disjI1) (auto simp: get_ingress_key_records_eq [OF inv'] key_row_le_def record_of_def
        status_of_row_def intro!: bexI [of _ r'] image_eqI [of _ _ r'])
qed

theorem lost_key_blocks_accounted_witness:
  "(\<exists>recs rec. fst (get_ingress_key_records (\<lambda>xs. xs) 0 (snd (report_lost_ingress_key sample_key sample_db3))) = Ok recs \<and>
      rec \<in> set recs \<and> key rec = sample_key \<and> st_lost (status rec) \<and> covers_block_index rec 10) \<or>
   (\<exists>rs m. fst (get_missed_block_ranges (snd (report_lost_ingress_key sample_key sample_db3))) = Ok rs \<and>
      m \<in> set rs \<and> BlockRange_contains m 10)"
proof (rule lost_key_blocks_accounted [OF sample_inv(4) sample_find_key,
    where enc = sample_enc and enc_report = sample_enc_report])
  have lost: "report_lost_ingress_key sample_key sample_db3 =
    (Ok (), sample_db3\<lparr>ingress_keys := [\<lparr>ik_key = sample_key, ik_start_block = 5, ik_pubkey_expiry = 20,
                                       ik_retired = False, ik_lost = True\<rparr>],
       user_events := [(1, new_ingest_invocation_event 1),
                       (2, the (missing_blocks_event (BlockRange_new 6 20)))], seq_ue := 3\<rparr>)"
    by (simp add: report_lost_ingress_key_def sample_eqs transaction_def report_lost_ingress_key_tx_def
        update_where_def load_ingress_key_def from_sql_key_def sample_key_def last_scanned_def max_block_def
        as_u64_def BlockRange_new_def BlockRange_is_valid_def missing_blocks_event_def insert_user_event_def
        i64_max_def known_iid_def user_event_conflict_def new_ingest_invocation_event_def Let_def)
  show "fst (report_lost_ingress_key sample_key sample_db3) = Ok ()" by (simp add: lost)
  show "pool_up (snd (report_lost_ingress_key sample_key sample_db3))"
    "\<forall>row \<in> set (ingested_blocks (snd (report_lost_ingress_key sample_key sample_db3))). 0 \<le> ib_block_number row"
    unfolding lost by (simp_all add: sample_eqs)
qed (simp_all add: db_steps_def as_u64_def)

text \<open>
  C22: \<^verbatim>\<open>set_report\<close> on an existing key. A retired key is left alone: no report is published,
  the expiry stays. Otherwise the recorded expiry becomes the maximum of the old one and the
  published one, and the report is stored under its id, replacing what was there. In both cases
  the returned status is the one recorded after the call, and the reports under other ids do not
  change.
\<close>

theorem set_report_spec:
  assumes "db_inv db" "find_key db k = Some r" "fst (set_report enc_report k rid data db) = Ok st"
  defines "db' \<equiv> snd (set_report enc_report k rid data db)"
  shows "\<exists>r'. find_key db' k = Some r' \<and> st = status_of_row r' \<and>
     (if ik_retired r then r' = r \<and> reports db' = reports db
      else ik_pubkey_expiry r' = max (ik_pubkey_expiry r) (as_i64 (rd_pubkey_expiry data)) \<and>
           {q \<in> set (map snd (reports db')). rp_report_id q = rid} =
             {\<lparr>rp_key = k, rp_iid = rd_ingest_invocation_id data, rp_report_id = rid,
               rp_report = enc_report (rd_report data), rp_pubkey_expiry = as_i64 (rd_pubkey_expiry data)\<rparr>}) \<and>
     {q \<in> set (map snd (reports db')). rp_report_id q \<noteq> rid} = {q \<in> set (map snd (reports db)). rp_report_id q \<noteq> rid}"
proof -
  let ?e = "as_i64 (rd_pubkey_expiry data)"
  let ?q = "\<lparr>rp_key = k, rp_iid = rd_ingest_invocation_id data, rp_report_id = rid,
             rp_report = enc_report (rd_report data), rp_pubkey_expiry = ?e\<rparr>"
  have up: "pool_up db" using assms(3) by (auto simp: set_report_def with_conn_def split: if_splits)
  have tx: "fst (set_report_tx enc_report k rid data db) = Ok st" "db' = snd (set_report_tx enc_report k rid data db)"
    using assms(3) up by (auto simp: db'_def set_report_def transaction_def split: prod.splits sum.splits)
  show ?thesis
  proof (cases "ik_retired r")
    case True
    then have "db' = raise_key_expiry k ?e db" "st = status_of_row r"
      using tx by (simp_all add: set_report_tx_eq [OF assms(1)] assms(2))
    then show ?thesis
      using True assms(2) find_key_raise [of k ?e db] by (auto simp: raise_expiry_def raise_key_expiry_def)
  next
    case False
    then have ok: "fst (upsert_report ?q (raise_key_expiry k ?e db)) = Ok ()"
      and db': "db' = snd (upsert_report ?q (raise_key_expiry k ?e db))"
      and st: "st = status_of_row (raise_expiry ?e r)"
      using tx by (auto simp: set_report_tx_eq [OF assms(1)] assms(2) bind_db_def split: prod.splits sum.splits)
    have keys: "find_key db' k = Some (raise_expiry ?e r)"
      using find_key_raise [of k ?e db] assms(2) upsert_report_Ok(3) [OF ok] by (simp add: db' find_key_def)
    have "snd ` set (reports db') =
        insert ?q {q \<in> snd ` set (reports db). rp_report_id q \<noteq> rid}"
      unfolding db' upsert_report_Ok(3) [OF ok]
      by (auto simp: raise_key_expiry_def snd_update_reports)
    then show ?thesis using False keys st by auto
  qed
qed

theorem set_report_spec_witness:
  "\<exists>r'. find_key (snd (set_report sample_enc_report sample_key ''a'' sample_report sample_db1)) sample_key = Some r' \<and>
     ik_pubkey_expiry r' = 20 \<and>
     {q \<in> set (map snd (reports (snd (set_report sample_enc_report sample_key ''a'' sample_report sample_db1)))).
        rp_report_id q = ''a''} =
       {\<lparr>rp_key = sample_key, rp_iid = Some 1, rp_report_id = ''a'', rp_report = [9], rp_pubkey_expiry = 20\<rparr>}"
proof -
  let ?r = "\<lparr>ik_key = sample_key, ik_start_block = 5, ik_pubkey_expiry = 0, ik_retired = False, ik_lost = False\<rparr>"
  have "fst (set_report sample_enc_report sample_key ''a'' sample_report sample_db1) =
      Ok (status_of_row (?r\<lparr>ik_pubkey_expiry := 20\<rparr>))"
    unfolding set_report_def
    by (simp add: sample_db1_eq transaction_def set_report_tx_def sample_report_def update_where_def
      load_ingress_key_def from_sql_key_def sample_key_def status_of_row_def bind_db_def upsert_report_def
      known_iid_def i64_max_def sample_enc_report_def)
  from set_report_spec [OF sample_inv(2) _ this, of ?r]
  show ?thesis by (auto simp: sample_db1_eq find_key_def sample_report_def sample_enc_report_def)
qed

text \<open>
  C21: a successful \<^verbatim>\<open>new_ingest_invocation\<close> returns an id no invocation had, and a client whose
  cursor \<open>s\<close> is within the events issued so far learns of it at its next search: the search
  returns, after the events it had not seen before, the decommissioning of the previous
  invocation (if one was given) with the highest block it ingested, and the record of the new
  random number generator with the egress key, version and start block of the call.
\<close>

theorem new_invocation_announced:
  assumes "db_inv db" "fst (new_ingest_invocation now prev k egress start db) = Ok iid"
    and "s < seq_ue db" "permutes scan" "fst (search_user_events scan s db) = Ok (evs, c)"
  shows "iid \<notin> set (map ii_id (ingest_invocations db)) \<and>
    (\<exists>c'. fst (search_user_events scan c (snd (new_ingest_invocation now prev k egress start db))) =
       Ok ((case prev of None \<Rightarrow> []
            | Some p \<Rightarrow> [DecommissionIngestInvocation \<lparr>di_ingest_invocation_id = p,
                di_last_ingested_block =
                  as_u64 (decommission_max_block db (decommission_ingest_invocation_event p))\<rparr>]) @
           [NewRngRecord \<lparr>rr_ingest_invocation_id = iid, rr_pubkey = egress, rr_start_block = start\<rparr>], c'))"
proof -
  define db' where "db' = snd (new_ingest_invocation now prev k egress start db)"
  note out = new_ingest_invocation_outcome [OF assms(1,2), folded db'_def]
  have inv': "db_inv db'" unfolding db'_def using assms(1) by (rule new_ingest_invocation_inv)
  have up: "pool_up db" using assms(2) by (auto simp: new_ingest_invocation_def with_conn_def split: if_splits)
  obtain i where i: "i \<ge> seq_ue db" "i \<le> i64_max" and ue: "user_events db' = user_events db @
      (case prev of None \<Rightarrow> [] | Some p \<Rightarrow> [(seq_ue db, decommission_ingest_invocation_event p)]) @
      [(i, new_ingest_invocation_event iid)]"
    using out(5) by blast
  have c: "c = cursor db s" using assms(3,5) i by (simp add: search_user_events_cursor [OF assms(1) up assms(4)])
  have "\<forall>u \<in> set (user_events db). fst u < seq_ue db" using assms(1) by (simp add: db_inv_def events_inv_def)
  then have lt: "cursor db s < seq_ue db" using assms(3) by (simp add: cursor_def)
  have none: "filter (\<lambda>u. fst u > cursor db s) (user_events db) = []"
    using cursor_ge(2) [of _ db s] by (auto simp: filter_empty_conv not_less)
  have new: "event_of db' (i, new_ingest_invocation_event iid) =
      NewRngRecord \<lparr>rr_ingest_invocation_id = iid, rr_pubkey = egress, rr_start_block = start\<rparr>"
    using out(6) event_of_new_invocation [OF inv'] by blast
  have dec: "event_of db' (j, decommission_ingest_invocation_event p) =
      DecommissionIngestInvocation \<lparr>di_ingest_invocation_id = p, di_last_ingested_block =
        as_u64 (decommission_max_block db (decommission_ingest_invocation_event p))\<rparr>" for j p
    by (simp add: event_of_def event_of_row_def decommission_ingest_invocation_event_def
        decommission_max_block_def out(4))
  have "fst (search_user_events scan c db') =
      Ok (map (event_of db') (filter (\<lambda>u. fst u > c) (user_events db')), cursor db' c)"
    using lt i by (simp add: search_user_events_cursor [OF inv' out(1) assms(4)] c)
  moreover have "iid \<notin> set (map ii_id (ingest_invocations db))"
    using assms(1) out(3) by (auto simp: db_inv_def invocations_inv_def)
  ultimately show ?thesis
    unfolding db'_def [symmetric] using lt i by (auto simp: ue c none new dec split: option.splits)
qed

theorem new_invocation_announced_witness:
  "\<exists>c'. fst (search_user_events rev 1 (snd (new_ingest_invocation 3 (Some 1) sample_key
        \<lparr>kp_public_key = [8], kp_version = 0\<rparr> 6 sample_db3))) =
     Ok ([DecommissionIngestInvocation \<lparr>di_ingest_invocation_id = 1, di_last_ingested_block = 5\<rparr>,
          NewRngRecord \<lparr>rr_ingest_invocation_id = 2,
                        rr_pubkey = \<lparr>kp_public_key = [8], kp_version = 0\<rparr>, rr_start_block = 6\<rparr>], c')"
proof -
  have "fst (new_ingest_invocation 3 (Some 1) sample_key \<lparr>kp_public_key = [8], kp_version = 0\<rparr> 6 sample_db3) = Ok 2"
    by (simp add: sample_eqs new_ingest_invocation_def new_ingest_invocation_tx_def transaction_def bind_db_def
        decommission_prev_def decommission_ingest_invocation_impl_def insert_user_event_def i64_max_def
        user_event_conflict_def event_kind_defs known_iid_def update_where_def insert_ingest_invocation_def
        from_sql_key_def sample_key_def)
  moreover have "fst (search_user_events rev 0 sample_db3) =
      Ok ([NewRngRecord \<lparr>rr_ingest_invocation_id = 1, rr_pubkey = sample_egress, rr_start_block = 5\<rparr>], 1)"
    by (simp add: sample_eqs search_user_events_def i64_max_def join_invocation_def event_of_row_def
        new_ingest_invocation_event_def sample_egress_def as_u64_def)
  moreover have "decommission_max_block sample_db3 (decommission_ingest_invocation_event 1) = 5"
    by (simp add: sample_eqs decommission_max_block_def max_block_def decommission_ingest_invocation_event_def)
  moreover have "0 < seq_ue sample_db3" by (simp add: sample_eqs)
  ultimately show ?thesis
    using new_invocation_announced [OF sample_inv(4), where s = 0 and scan = rev] by (fastforce simp: as_u64_def)
qed

lemma as_u64_negative:
  assumes "i64_range i" "i < 0"
  shows "2 ^ 63 \<le> as_u64 i"
proof -
  have "i mod 2 ^ 64 = (i + 2 ^ 64) mod 2 ^ 64" by simp
  also have "\<dots> = i + 2 ^ 64" using assms by (intro mod_pos_pos_trivial) (simp_all add: i64_range_def i64_max_def)
  finally show ?thesis using assms by (simp add: as_u64_def word_le_def uint_word_of_int i64_range_def i64_max_def)
qed

text \<open>What \<^verbatim>\<open>set_report\<close> leaves for a key that is not retired.\<close>

lemma set_report_live:
  assumes "db_inv db" "find_key db k = Some r" "\<not> ik_retired r" "set_report enc_report k rid data db = (Ok st, db')"
  defines "e \<equiv> as_i64 (rd_pubkey_expiry data)"
  shows "st = status_of_row (raise_expiry e r)" "find_key db' k = Some (raise_expiry e r)"
    and "ingested_blocks db' = ingested_blocks db" "user_events db' = user_events db"
    and "\<exists>i. (i, \<lparr>rp_key = k, rp_iid = rd_ingest_invocation_id data, rp_report_id = rid,
                 rp_report = enc_report (rd_report data), rp_pubkey_expiry = e\<rparr>) \<in> set (reports db')"
proof -
  let ?q = "\<lparr>rp_key = k, rp_iid = rd_ingest_invocation_id data, rp_report_id = rid,
             rp_report = enc_report (rd_report data), rp_pubkey_expiry = e\<rparr>"
  have "pool_up db" using assms(4) by (auto simp: set_report_def with_conn_def split: if_splits)
  then have "set_report_tx enc_report k rid data db = (Ok st, db')"
    using assms(4) by (auto simp: set_report_def transaction_def split: prod.splits sum.splits)
  then have ok: "fst (upsert_report ?q (raise_key_expiry k e db)) = Ok ()"
    and db': "db' = snd (upsert_report ?q (raise_key_expiry k e db))"
    and st: "st = status_of_row (raise_expiry e r)"
    using assms(3) by (auto simp: e_def set_report_tx_eq [OF assms(1)] assms(2) bind_db_def split: prod.splits sum.splits)
  show "st = status_of_row (raise_expiry e r)" by (rule st)
  show "find_key db' k = Some (raise_expiry e r)"
    using find_key_raise [of k e db] assms(2) upsert_report_Ok(3) [OF ok] by (simp add: db' find_key_def)
  show "ingested_blocks db' = ingested_blocks db" "user_events db' = user_events db"
    unfolding db' upsert_report_Ok(3) [OF ok] by (simp_all add: raise_key_expiry_def)
  have "?q \<in> snd ` set (reports db')"
    unfolding db' upsert_report_Ok(3) [OF ok] by (auto simp: raise_key_expiry_def snd_update_reports)
  then show "\<exists>i. (i, ?q) \<in> set (reports db')" by auto
qed

lemma get_all_reports_served:
  assumes "get_all_reports dec_report db = (Ok served, db1)"
  shows "set served = {(rp_report_id q, \<lparr>rd_ingest_invocation_id = rp_iid q, rd_report = the (dec_report (rp_report q)),
                          rd_pubkey_expiry = as_u64 (rp_pubkey_expiry q)\<rparr>) | i q. (i, q) \<in> set (reports db)}"
proof -
  let ?f = "\<lambda>(i, r). case dec_report (rp_report r) of None \<Rightarrow> Err Decode
    | Some report \<Rightarrow> Ok (rp_report_id r, \<lparr>rd_ingest_invocation_id = rp_iid r, rd_report = report,
        rd_pubkey_expiry = as_u64 (rp_pubkey_expiry r)\<rparr>)"
  let ?g = "\<lambda>(i, q). (rp_report_id q, \<lparr>rd_ingest_invocation_id = rp_iid q, rd_report = the (dec_report (rp_report q)),
                          rd_pubkey_expiry = as_u64 (rp_pubkey_expiry q)\<rparr>)"
  have "collect (map ?f (sort_key fst (reports db))) = Ok served"
    using assms by (auto simp: get_all_reports_def with_conn_def split: if_splits)
  then have eq: "map ?f (sort_key fst (reports db)) = map Ok served" by (simp add: collect_Ok_iff)
  have "?f x = Ok (?g x)" if "x \<in> set (reports db)" for x
  proof -
    have "?f x \<in> set (map Ok served)" using that unfolding eq [symmetric] by auto
    then show ?thesis by (cases x) (auto split: option.splits)
  qed
  then have "map ?f (sort_key fst (reports db)) = map Ok (map ?g (sort_key fst (reports db)))"
    unfolding map_map by (intro map_cong) auto
  with eq have "map Ok served = (map Ok (map ?g (sort_key fst (reports db))) :: (db_error, _) result list)" by metis
  then have "served = map ?g (sort_key fst (reports db))" by (rule map_injective) (simp add: inj_def)
  then show ?thesis by auto
qed

text \<open>
  C23: the expiry that the database tells for an ingress key bounds every expiry it has served for it: a
  report that \<^verbatim>\<open>get_all_reports\<close> returned at some point, with an expiry below \<open>2 ^ 63\<close>, has an expiry
  no larger than the one \<^verbatim>\<open>get_ingress_key_status\<close> returns for its key at any later point, even if the
  report has since been replaced or removed.
\<close>

theorem published_expiry_recorded:
  assumes "db_inv db" "get_all_reports dec_report db = (Ok served, db1)" "(rid, data) \<in> set served"
    and "rd_pubkey_expiry data < 2 ^ 63" "db_steps enc enc_report db db'" "pool_up db'"
  shows "\<exists>i q st. (i, q) \<in> set (reports db) \<and> rp_report_id q = rid \<and>
           fst (get_ingress_key_status (rp_key q) db') = Ok (Some st) \<and> rd_pubkey_expiry data \<le> st_pubkey_expiry st"
proof -
  obtain i q where q: "(i, q) \<in> set (reports db)" "rp_report_id q = rid" "rd_pubkey_expiry data = as_u64 (rp_pubkey_expiry q)"
    using assms(3) unfolding get_all_reports_served [OF assms(2)] by auto
  have "report_ok db q" using assms(1) q(1) by (force simp: db_inv_def reports_inv_def)
  then obtain r where r: "r \<in> set (ingress_keys db)" "ik_key r = rp_key q" "rp_pubkey_expiry q \<le> ik_pubkey_expiry r"
    and rng: "i64_range (rp_pubkey_expiry q)"
    by (auto simp: report_ok_def)
  then have "find_key db (rp_key q) = Some r"
    using assms(1) by (simp add: find_key_Some_iff db_inv_def)
  then obtain r' where r': "find_key db' (rp_key q) = Some r'" "key_row_le r r'"
    using db_steps_le [OF assms(5,1)] unfolding db_le_def by blast
  have inv': "db_inv db'" using assms(1,5) db_steps_inv by blast
  then have "i64_range (ik_pubkey_expiry r')" using r'(1) find_key_Some_iff [of db'] by (auto simp: db_inv_def keys_inv_def)
  moreover have "rp_pubkey_expiry q \<le> ik_pubkey_expiry r'" using r(3) r'(2) by (auto simp: key_row_le_def)
  moreover have "0 \<le> rp_pubkey_expiry q"
    using as_u64_negative [OF rng] assms(4) q(3) by (metis leD not_le)
  ultimately have "as_u64 (rp_pubkey_expiry q) \<le> as_u64 (ik_pubkey_expiry r')" by (intro as_u64_mono)
  moreover have "fst (get_ingress_key_status (rp_key q) db') = Ok (Some (status_of_row r'))"
    using inv' assms(6) r'(1) by (simp add: get_ingress_key_status_def get_ingress_key_status_impl_eq db_inv_def)
  ultimately show ?thesis
    using q by (intro exI [of _ i] exI [of _ q] exI [of _ "status_of_row r'"]) (simp add: status_of_row_def)
qed

theorem published_expiry_recorded_witness:
  "\<exists>st. fst (get_ingress_key_status sample_key (snd (remove_report ''a'' sample_db3))) = Ok (Some st) \<and> 20 \<le> st_pubkey_expiry st"
proof -
  let ?data = "\<lparr>rd_ingest_invocation_id = Some 1, rd_report = (), rd_pubkey_expiry = 20\<rparr>"
  have "get_all_reports (\<lambda>_. Some ()) sample_db3 = (Ok [(''a'', ?data)], sample_db3)"
    by (simp add: get_all_reports_def sample_eqs as_u64_def)
  moreover have "db_steps sample_enc sample_enc_report sample_db3 (snd (remove_report ''a'' sample_db3))"
    unfolding db_steps_def by (intro r_into_rtranclp step_remove_report)
  moreover have "pool_up (snd (remove_report ''a'' sample_db3))" by (simp add: remove_report_def sample_eqs)
  moreover have "(20 :: u64) < 2 ^ 63" by simp
  ultimately have "\<exists>i q st. (i, q) \<in> set (reports sample_db3) \<and> rp_report_id q = ''a'' \<and>
      fst (get_ingress_key_status (rp_key q) (snd (remove_report ''a'' sample_db3))) = Ok (Some st) \<and> 20 \<le> st_pubkey_expiry st"
    using published_expiry_recorded [OF sample_inv(4), of "\<lambda>_. Some ()" "[(''a'', ?data)]" sample_db3 "''a''" ?data] by simp
  then show ?thesis by (auto simp: sample_eqs)
qed

text \<open>
  C24: from \<open>2 ^ 63\<close> on the expiry of a report wraps: \<^verbatim>\<open>set_report\<close> on a key that is not retired stores
  and serves the report with the expiry it was given, and the expiry of the key, which the status
  returns and which says for how long the key has to be scanned, stays where it was, below it.
\<close>

theorem set_report_wraps_expiry:
  assumes "db_inv db" "find_key db k = Some r" "\<not> ik_retired r" "set_report enc_report k rid data db = (Ok st, db')"
    and "2 ^ 63 \<le> rd_pubkey_expiry data" "get_all_reports dec_report db' = (Ok served, db1)"
  shows "(\<exists>data'. (rid, data') \<in> set served \<and> rd_pubkey_expiry data' = rd_pubkey_expiry data) \<and>
     st_pubkey_expiry st = as_u64 (ik_pubkey_expiry r) \<and> st_pubkey_expiry st < rd_pubkey_expiry data"
proof -
  let ?e = "as_i64 (rd_pubkey_expiry data)"
  note live = set_report_live [OF assms(1-4)]
  have r: "0 \<le> ik_pubkey_expiry r" "i64_range (ik_pubkey_expiry r)"
    using assms(1,2) find_key_Some_iff [of db k r] by (auto simp: db_inv_def keys_inv_def)
  have "?e < 0"
  proof (rule ccontr)
    assume "\<not> ?e < 0"
    moreover have "?e \<le> 2 ^ 63 - 1" using as_i64_range [of "rd_pubkey_expiry data"] by (simp add: i64_range_def i64_max_def)
    ultimately have "as_u64 ?e \<le> as_u64 (2 ^ 63 - 1)" by (intro as_u64_mono) (simp_all add: i64_range_def i64_max_def)
    moreover have "as_u64 (2 ^ 63 - 1) = 2 ^ 63 - 1" by (simp add: as_u64_def)
    ultimately have "rd_pubkey_expiry data \<le> 2 ^ 63 - 1" by (metis as_u64_as_i64)
    with assms(5) have "2 ^ 63 \<le> (2 ^ 63 - 1 :: u64)" by (rule order_trans)
    then show False unfolding word_le_def by simp
  qed
  with r(1) have raised: "raise_expiry ?e r = r" by (simp add: raise_expiry_def)
  have "as_u64 (ik_pubkey_expiry r) \<le> as_u64 (2 ^ 63 - 1)"
    using r by (intro as_u64_mono) (simp_all add: i64_range_def i64_max_def)
  moreover have "as_u64 (2 ^ 63 - 1) < 2 ^ 63" by (simp add: as_u64_def word_less_def)
  ultimately have "as_u64 (ik_pubkey_expiry r) < rd_pubkey_expiry data" using assms(5) by order
  moreover obtain i where "(i, \<lparr>rp_key = k, rp_iid = rd_ingest_invocation_id data, rp_report_id = rid,
      rp_report = enc_report (rd_report data), rp_pubkey_expiry = ?e\<rparr>) \<in> set (reports db')" using live(5) by blast
  then have "\<exists>data'. (rid, data') \<in> set served \<and> rd_pubkey_expiry data' = rd_pubkey_expiry data"
    unfolding get_all_reports_served [OF assms(6)] by force
  ultimately show ?thesis using live(1) by (simp add: raised status_of_row_def)
qed

theorem set_report_wraps_expiry_witness:
  "\<exists>st db' served. set_report sample_enc_report sample_key ''a'' (sample_report\<lparr>rd_pubkey_expiry := 2 ^ 63\<rparr>) sample_db1 = (Ok st, db') \<and>
     st_pubkey_expiry st = 0 \<and> get_all_reports (\<lambda>_. Some ()) db' = (Ok served, db') \<and>
     (\<exists>data'. (''a'', data') \<in> set served \<and> rd_pubkey_expiry data' = 2 ^ 63)"
proof -
  let ?r = "\<lparr>ik_key = sample_key, ik_start_block = 5, ik_pubkey_expiry = 0, ik_retired = False, ik_lost = False\<rparr>"
  let ?set = "set_report sample_enc_report sample_key ''a'' (sample_report\<lparr>rd_pubkey_expiry := 2 ^ 63\<rparr>) sample_db1"
  have e: "as_i64 (2 ^ 63) < 0" by (simp add: as_i64_def)
  obtain st db' where set: "?set = (Ok st, db')" and rest: "pool_up db'" "map snd (reports db') =
      [\<lparr>rp_key = sample_key, rp_iid = Some 1, rp_report_id = ''a'', rp_report = [9], rp_pubkey_expiry = as_i64 (2 ^ 63)\<rparr>]"
    unfolding set_report_def using e
    by (simp add: sample_db1_eq transaction_def set_report_tx_def sample_report_def update_where_def
      load_ingress_key_def from_sql_key_def sample_key_def status_of_row_def bind_db_def upsert_report_def
      known_iid_def i64_max_def sample_enc_report_def get_ingress_key_status_impl_def)
  obtain i q where "reports db' = [(i, q)]" using rest(2) by (cases "reports db'") auto
  then obtain served where "get_all_reports (\<lambda>_. Some ()) db' = (Ok served, db')"
    using rest(1) by (simp add: get_all_reports_def)
  with set_report_wraps_expiry [OF sample_inv(2) _ _ set, of ?r "\<lambda>_. Some ()" served db'] set show ?thesis
    by (auto simp: sample_db1_eq find_key_def as_u64_def)
qed



end
