(* ===== verification/Recovery_Overlap.thy ===== *)
theory Recovery_Overlap
  imports Recovery_Props
begin

text \<open>
  Transactions of the recovery database that overlap. The ids of user events come from a sequence that
  is not part of the transaction: a transaction draws its ids when it inserts its rows, and the rows
  become visible when it commits, so that an event can become visible after one with a larger id.

  A state is the committed database with the ids that transactions in flight have drawn. A transaction
  that overlaps with others takes effect when it commits, with its events under the ids it has drawn;
  one that does not is a \<open>db_step\<close>.
\<close>

section \<open>Commits with ids drawn before\<close>

definition late_commit :: "i64 list \<Rightarrow> 'a db_result \<Rightarrow> recovery_db \<Rightarrow> recovery_db option" where
  "late_commit ids result db =
     (case result of
        (Inl e, db1) \<Rightarrow> None
      | (Inr x, db1) \<Rightarrow>
          let rows = drop (length (user_events db)) (user_events db1)
          in if length rows = length ids
             then Some (db1\<lparr>seq_ue := seq_ue db, user_events := sort_key fst (user_events db @ zip ids (map snd rows))\<rparr>)
             else None)"

inductive overlap_step ::
  "(ETxOutRecord list \<Rightarrow> bytes) \<Rightarrow> ('rep \<Rightarrow> bytes) \<Rightarrow> recovery_db \<times> i64 list \<Rightarrow> recovery_db \<times> i64 list \<Rightarrow> bool"
  for enc enc_report
where
  overlap_whole: "db_step enc enc_report db db' \<Longrightarrow> overlap_step enc enc_report (db, drawn) (db', drawn)"
| overlap_draw:
    "seq_ue db \<le> i64_max \<Longrightarrow> overlap_step enc enc_report (db, drawn) (db\<lparr>seq_ue := seq_ue db + 1\<rparr>, drawn @ [seq_ue db])"
| overlap_rollback: "overlap_step enc enc_report (db, drawn) (db, filter (\<lambda>i. i \<notin> set ids) drawn)"
| overlap_report_lost:
    "set ids \<subseteq> set drawn \<Longrightarrow> distinct ids \<Longrightarrow> late_commit ids (report_lost_ingress_key k db) db = Some db' \<Longrightarrow>
       overlap_step enc enc_report (db, drawn) (db', filter (\<lambda>i. i \<notin> set ids) drawn)"
| overlap_decommission:
    "set ids \<subseteq> set drawn \<Longrightarrow> distinct ids \<Longrightarrow> late_commit ids (decommission_ingest_invocation now iid db) db = Some db' \<Longrightarrow>
       overlap_step enc enc_report (db, drawn) (db', filter (\<lambda>i. i \<notin> set ids) drawn)"
| overlap_new_invocation:
    "set ids \<subseteq> set drawn \<Longrightarrow> distinct ids \<Longrightarrow> length k = 32 \<Longrightarrow>
       late_commit ids (new_ingest_invocation now prev k egress start db) db = Some db' \<Longrightarrow>
       overlap_step enc enc_report (db, drawn) (db', filter (\<lambda>i. i \<notin> set ids) drawn)"

definition overlap_steps ::
  "(ETxOutRecord list \<Rightarrow> bytes) \<Rightarrow> ('rep \<Rightarrow> bytes) \<Rightarrow> recovery_db \<times> i64 list \<Rightarrow> recovery_db \<times> i64 list \<Rightarrow> bool"
where
  "overlap_steps enc enc_report = (overlap_step enc enc_report)\<^sup>*\<^sup>*"

section \<open>New events have new ids\<close>

definition ids_after :: "recovery_db \<Rightarrow> recovery_db \<Rightarrow> bool" where
  "ids_after db db' \<longleftrightarrow>
     (\<forall>u \<in> set (user_events db'). u \<in> set (user_events db) \<or> seq_ue db \<le> fst u) \<and> seq_ue db \<le> seq_ue db'"

lemma ids_after_refl [simp]: "ids_after db db"
  by (simp add: ids_after_def)

lemma ids_after_trans: "ids_after a b \<Longrightarrow> ids_after b c \<Longrightarrow> ids_after a c"
  unfolding ids_after_def by (meson order_trans)

lemma ids_after_same: "user_events db' = user_events db \<Longrightarrow> seq_ue db' = seq_ue db \<Longrightarrow> ids_after db db'"
  by (simp add: ids_after_def)

lemma ids_after_bind_db:
  assumes "ids_after db (snd m)" "\<And>a. ids_after (snd m) (snd (k a (snd m)))"
  shows "ids_after db (snd (bind_db m k))"
  using assms by (cases m; cases "fst m") (auto simp: bind_db_def intro: ids_after_trans)

lemma ids_after_transaction_op:
  assumes "ids_after db (snd (f db))"
  shows "ids_after db (snd (with_conn (transaction f) db))"
proof -
  have "ids_after db (snd (transaction f db))"
    using assms by (auto simp: transaction_def ids_after_def rollback_def split: prod.splits sum.splits)
  then show ?thesis by (cases "pool_up db") simp_all
qed

lemma ids_after_insert_user_event [simp]: "ids_after db (snd (insert_user_event ev db))"
  by (auto simp: insert_user_event_def Let_def ids_after_def)

lemma ids_after_simple [simp]:
  "ids_after db (snd (insert_ingest_invocation k e now s v db))"
  "ids_after db (snd (insert_ingested_block k iid n c t d db))"
  "ids_after db (snd (upsert_report r db))"
  "ids_after db (snd (update_last_active_at_impl now iid db))"
  by (auto simp: insert_ingest_invocation_def insert_ingested_block_def upsert_report_def update_last_active_at_impl_def Let_def
      split: sum.splits intro!: ids_after_same)

lemma ids_after_decommission_impl [simp]: "ids_after db (snd (decommission_ingest_invocation_impl now iid db))"
  unfolding decommission_ingest_invocation_impl_def
  by (rule ids_after_trans [OF ids_after_same ids_after_insert_user_event]) simp_all

lemma ids_after_tx [simp]:
  "ids_after db (snd (new_ingest_invocation_tx now prev k egress start db))"
  "ids_after db (snd (add_block_data_tx enc now iid block ts txs db))"
  unfolding new_ingest_invocation_tx_def add_block_data_tx_def
  by (intro ids_after_bind_db) (auto simp: decommission_prev_def split: option.splits intro!: ids_after_bind_db)

lemma ids_after_inv_tx:
  assumes "db_inv db"
  shows "ids_after db (snd (report_lost_ingress_key_tx k db))" "ids_after db (snd (set_report_tx er k rid data db))"
proof -
  have "ids_after db (mark_lost k db)" "ids_after db (raise_key_expiry k e db)" for e
    by (auto simp: mark_lost_def raise_key_expiry_def intro: ids_after_same)
  then show "ids_after db (snd (report_lost_ingress_key_tx k db))" "ids_after db (snd (set_report_tx er k rid data db))"
    by (auto simp: report_lost_tx_eq [OF assms] set_report_tx_eq [OF assms] split: option.splits
        intro!: ids_after_bind_db ids_after_trans [OF _ ids_after_insert_user_event] ids_after_trans [OF _ ids_after_simple(3)])
qed

lemma db_step_ids_after: "db_step enc enc_report db db' \<Longrightarrow> db_inv db \<Longrightarrow> ids_after db db'"
proof (induction rule: db_step.induct)
  case (step_pool db b)
  show ?case by (rule ids_after_same) simp_all
next
  case (step_remove_report db rid)
  show ?case by (cases "pool_up db"; intro ids_after_same) (simp_all add: remove_report_def)
next
  case (step_last_active db now iid)
  show ?case by (cases "pool_up db") (simp_all add: update_last_active_at_def)
next
  case (step_new_key k db start)
  show ?case by (cases "pool_up db"; intro ids_after_same) (simp_all add: new_ingress_key_def)
next
  case (step_retire db k b)
  show ?case by (cases "pool_up db"; intro ids_after_same) (simp_all add: retire_ingress_key_def)
qed (simp_all add: snd_add_block_data new_ingest_invocation_def decommission_ingest_invocation_def report_lost_ingress_key_def
      set_report_def ids_after_transaction_op ids_after_inv_tx)

section \<open>What overlapping transactions keep\<close>

definition overlap_inv :: "recovery_db \<times> i64 list \<Rightarrow> bool" where
  "overlap_inv = (\<lambda>(db, drawn).
     db_inv db \<and> (\<forall>i \<in> set drawn. 1 \<le> i \<and> i < seq_ue db) \<and> set drawn \<inter> fst ` set (user_events db) = {})"

text \<open>Later states: the tables have grown, with events under ids that were drawn then or have been drawn since.\<close>

definition overlap_le :: "recovery_db \<times> i64 list \<Rightarrow> recovery_db \<times> i64 list \<Rightarrow> bool" where
  "overlap_le = (\<lambda>(db, drawn) (db', drawn').
     prefix (map ii_static (ingest_invocations db)) (map ii_static (ingest_invocations db')) \<and>
     set (user_events db) \<subseteq> set (user_events db') \<and>
     (\<forall>u \<in> set (user_events db'). u \<in> set (user_events db) \<or> fst u \<in> set drawn \<or> seq_ue db \<le> fst u) \<and>
     (\<forall>i \<in> set drawn'. i \<in> set drawn \<or> seq_ue db \<le> i) \<and> seq_ue db \<le> seq_ue db')"

lemma overlap_le_refl: "overlap_le x x"
  by (auto simp: overlap_le_def)

lemma overlap_le_trans: "overlap_le x y \<Longrightarrow> overlap_le y z \<Longrightarrow> overlap_le x z"
  by (cases x; cases y; cases z) (fastforce simp: overlap_le_def intro: prefix_order.trans order_trans)

lemma user_event_conflict_sym: "user_event_conflict e f \<longleftrightarrow> user_event_conflict f e"
  by (auto simp: user_event_conflict_def)

lemma sorted_wrt_mset:
  assumes "\<And>x y. P x y \<Longrightarrow> P y x" "mset xs = mset ys" "sorted_wrt P xs"
  shows "sorted_wrt P ys"
  using assms(2,3)
proof (induction xs arbitrary: ys)
  case (Cons x xs)
  then obtain as bs where ys: "ys = as @ x # bs"
    by (metis list.set_intros(1) set_mset_mset split_list mset_eq_setD)
  with Cons.prems(1) have m: "mset xs = mset (as @ bs)" by simp
  with Cons have "sorted_wrt P (as @ bs)" "\<forall>y \<in> set (as @ bs). P x y"
    by (metis sorted_wrt.simps(2), metis mset_eq_setD sorted_wrt.simps(2))
  with ys assms(1) show ?case by (auto simp: sorted_wrt_append)
qed simp

lemma distinct_mset: "mset xs = mset ys \<Longrightarrow> distinct xs = distinct ys"
  by (metis distinct_count_atmost_1 mset_eq_setD)

lemma late_commit_inv:
  assumes "overlap_inv (db, drawn)" "set ids \<subseteq> set drawn" "distinct ids" "late_commit ids (op db) db = Some db'"
    and "db_inv (snd (op db))" "db_le db (snd (op db))"
  shows "overlap_inv (db', filter (\<lambda>i. i \<notin> set ids) drawn) \<and> overlap_le (db, drawn) (db', filter (\<lambda>i. i \<notin> set ids) drawn)"
proof -
  have inv: "db_inv db" "\<forall>i \<in> set drawn. 1 \<le> i \<and> i < seq_ue db" "set drawn \<inter> fst ` set (user_events db) = {}"
    using assms(1) by (simp_all add: overlap_inv_def)
  obtain x db1 where op: "op db = (Ok x, db1)"
    using assms(4) by (cases "op db"; cases "fst (op db)") (auto simp: late_commit_def)
  obtain rows where rows: "user_events db1 = user_events db @ rows" using assms(6) op by (auto simp: db_le_def prefix_def)
  let ?new = "zip ids (map snd rows)"
  have len: "length rows = length ids" and db': "db' = db1\<lparr>seq_ue := seq_ue db, user_events := sort_key fst (user_events db @ ?new)\<rparr>"
    using assms(4) by (auto simp: late_commit_def op rows Let_def split: if_splits)
  have new: "map fst ?new = ids" "map snd ?new = map snd rows" using len by simp_all
  have ue: "set (user_events db') = set (user_events db) \<union> set ?new" by (simp add: db')
  have old: "events_inv db" "events_inv db1" using inv(1) assms(5) op by (simp_all add: db_inv_def)
  have "image_mset snd (mset ?new) = image_mset snd (mset rows)" using new(2) by (metis mset_map)
  then have snds: "mset (map snd (user_events db')) = mset (map snd (user_events db1))"
    by (simp add: db' rows)
  have "sorted_wrt (<) (map fst (user_events db'))"
  proof -
    have "distinct (map fst (user_events db @ ?new))"
      unfolding map_append new(1) using old(1) assms(2,3) inv(3) by (auto simp: events_inv_def strict_sorted_iff)
    then have "distinct (map fst (user_events db'))"
      by (rule distinct_mset [THEN iffD1, rotated]) (simp add: db')
    then show ?thesis by (simp add: db' strict_sorted_iff)
  qed
  moreover have "\<forall>i \<in> set (map fst (user_events db')). 1 \<le> i \<and> i < seq_ue db'"
  proof -
    have "set (map fst (user_events db')) = set (map fst (user_events db)) \<union> set ids"
      by (simp add: ue image_Un) (metis new(1) list.set_map)
    then show ?thesis using old(1) inv(2) assms(2) by (auto simp: events_inv_def db')
  qed
  moreover have "sorted_wrt (\<lambda>e f. \<not> user_event_conflict f e) (map snd (user_events db'))"
    by (rule sorted_wrt_mset [OF _ snds [symmetric]]) (use old(2) in \<open>simp_all add: events_inv_def user_event_conflict_sym\<close>)
  moreover have "set (map snd (user_events db')) = set (map snd (user_events db1))" using snds by (rule mset_eq_setD)
  ultimately have "events_inv db'"
    using old by (simp add: events_inv_def db' del: set_map map_map)
  then have "db_inv db'"
    using assms(5) op by (simp add: db' db_inv_def keys_inv_def invocations_inv_def blocks_inv_def reports_inv_def report_ok_def known_iid_def)
  moreover have "seq_ue db' = seq_ue db" by (simp add: db')
  moreover have "set (filter (\<lambda>i. i \<notin> set ids) drawn) \<inter> fst ` set (user_events db') = {}"
    using inv(3) new(1) by (auto simp: ue dest: set_zip_leftD)
  moreover have "prefix (map ii_static (ingest_invocations db)) (map ii_static (ingest_invocations db'))"
    using assms(6) op by (simp add: db_le_def db')
  ultimately show ?thesis
    using inv(2) assms(2) by (auto simp: overlap_inv_def overlap_le_def ue dest: set_zip_leftD)
qed

lemma whole_step_inv:
  assumes "overlap_inv (db, drawn)" "db_inv db'" "db_le db db'" "ids_after db db'"
  shows "overlap_inv (db', drawn)" "overlap_le (db, drawn) (db', drawn)"
proof -
  have inv: "\<And>i. i \<in> set drawn \<Longrightarrow> 1 \<le> i \<and> i < seq_ue db" "set drawn \<inter> fst ` set (user_events db) = {}"
    using assms(1) by (simp_all add: overlap_inv_def)
  have sub: "set (user_events db) \<subseteq> set (user_events db')"
    using assms(3) by (auto simp: db_le_def dest: set_mono_prefix)
  have new: "u \<in> set (user_events db) \<or> seq_ue db \<le> fst u" if "u \<in> set (user_events db')" for u
    using assms(4) that by (simp add: ids_after_def)
  have seq: "seq_ue db \<le> seq_ue db'" using assms(4) by (simp add: ids_after_def)
  have "set drawn \<inter> fst ` set (user_events db') = {}"
    using inv new by (fastforce simp: disjoint_iff)
  then show "overlap_inv (db', drawn)" using inv(1) seq assms(2) by (force simp: overlap_inv_def)
  show "overlap_le (db, drawn) (db', drawn)"
    using sub new seq assms(3) by (auto simp: overlap_le_def db_le_def)
qed

lemma overlap_step_inv:
  assumes "overlap_step enc enc_report x y" "overlap_inv x"
  shows "overlap_inv y \<and> overlap_le x y"
  using assms
proof (induction rule: overlap_step.induct)
  case (overlap_whole db db' drawn)
  then have inv: "db_inv db" "db_inv db'" "db_le db db'" "ids_after db db'"
    using db_step_inv db_step_le db_step_ids_after by (auto simp: overlap_inv_def)
  then show ?case using whole_step_inv [OF overlap_whole.prems] by blast
next
  case (overlap_draw db drawn)
  then have "db_inv db" "seq_ue db \<notin> fst ` set (user_events db)"
    by (auto simp: overlap_inv_def db_inv_def events_inv_def)
  with overlap_draw show ?case
    by (auto simp: overlap_inv_def overlap_le_def db_inv_defs known_iid_def)
next
  case (overlap_rollback db drawn ids)
  then show ?case by (auto simp: overlap_inv_def overlap_le_def)
next
  case (overlap_report_lost ids drawn k db db')
  then show ?case
    by (intro late_commit_inv [where op = "report_lost_ingress_key k"])
       (auto simp: overlap_inv_def intro: db_step_inv [OF step_report_lost] db_step_le [OF step_report_lost])
next
  case (overlap_decommission ids drawn now iid db db')
  then show ?case
    by (intro late_commit_inv [where op = "decommission_ingest_invocation now iid"])
       (auto simp: overlap_inv_def intro: db_step_inv [OF step_decommission] db_step_le [OF step_decommission])
next
  case (overlap_new_invocation ids drawn k now prev egress start db db')
  then show ?case
    by (intro late_commit_inv [where op = "new_ingest_invocation now prev k egress start"])
       (auto simp: overlap_inv_def intro: db_step_inv [OF step_new_invocation] db_step_le [OF step_new_invocation])
qed

lemma overlap_steps_inv:
  assumes "overlap_steps enc enc_report x y" "overlap_inv x"
  shows "overlap_inv y \<and> overlap_le x y"
  using assms(1) unfolding overlap_steps_def
proof (induction rule: rtranclp_induct)
  case (step y z)
  with overlap_step_inv [OF step.hyps(2)] show ?case by (blast intro: overlap_le_trans)
qed (simp add: assms(2) overlap_le_refl)

lemma overlap_inv_empty: "overlap_inv (empty_db, [])"
  by (simp add: overlap_inv_def empty_db_inv)

section \<open>Polling the user events\<close>

lemma sorted_events_unique:
  assumes "sorted_wrt (<) (map fst xs)" "sorted_wrt (<) (map fst ys)" "set xs = set ys"
  shows "xs = (ys :: user_event_row list)"
proof -
  have "map fst xs = map fst ys" using assms by (intro strict_sorted_equal) simp_all
  moreover have "inj_on fst (set xs \<union> set ys)"
    using assms(1,3) by (simp add: strict_sorted_iff distinct_map)
  ultimately show ?thesis by (simp add: map_inj_on)
qed

lemma sorted_events_filter: "sorted_wrt (<) (map fst xs) \<Longrightarrow> sorted_wrt (<) (map fst (filter P (xs :: user_event_row list)))"
  by (simp add: sorted_wrt_map sorted_wrt_filter)

lemma new_events_above_cursor:
  assumes "overlap_le (db, drawn) (db', drawn')" "db_inv db" "\<forall>i \<in> set drawn. cursor db s < i"
    and "u \<in> set (user_events db')" "s < fst u"
  shows "u \<in> set (user_events db) \<or> cursor db s < fst u"
proof -
  have "cursor db s \<in> insert s (fst ` set (filter (\<lambda>u. fst u > s) (user_events db)))"
    unfolding cursor_def by (rule Max_in) simp_all
  then have "cursor db s = s \<or> cursor db s < seq_ue db"
    using assms(2) by (auto simp: db_inv_def events_inv_def)
  moreover have "u \<in> set (user_events db) \<or> fst u \<in> set drawn \<or> seq_ue db \<le> fst u"
    using assms(1,4) by (simp add: overlap_le_def)
  ultimately show ?thesis using assms(3,5) by auto
qed

lemma cursor_split:
  assumes "overlap_le (db, drawn) (db', drawn')" "db_inv db" "db_inv db'" "\<forall>i \<in> set drawn. cursor db s < i"
  shows "filter (\<lambda>u. fst u > s) (user_events db') =
           filter (\<lambda>u. fst u > s) (user_events db) @ filter (\<lambda>u. fst u > cursor db s) (user_events db')"
    and "cursor db' s = cursor db' (cursor db s)"
proof -
  let ?old = "filter (\<lambda>u. fst u > s) (user_events db)" and ?new = "filter (\<lambda>u. fst u > cursor db s) (user_events db')"
  have sorted: "sorted_wrt (<) (map fst (user_events db))" "sorted_wrt (<) (map fst (user_events db'))"
    using assms(2,3) by (simp_all add: db_inv_def events_inv_def)
  have sub: "set (user_events db) \<subseteq> set (user_events db')" using assms(1) by (simp add: overlap_le_def)
  show split: "filter (\<lambda>u. fst u > s) (user_events db') = ?old @ ?new"
  proof (rule sorted_events_unique)
    show "sorted_wrt (<) (map fst (?old @ ?new))"
      unfolding map_append sorted_wrt_append
      by (intro conjI sorted_events_filter sorted) (use cursor_ge(2) [of _ db s] in fastforce)
    show "set (filter (\<lambda>u. fst u > s) (user_events db')) = set (?old @ ?new)"
      using sub new_events_above_cursor [OF assms(1,2,4)] cursor_ge(1) [of s db] by fastforce
  qed (rule sorted_events_filter [OF sorted(2)])
  have "cursor db' s = Max ((insert s (fst ` set ?old)) \<union> fst ` set ?new)"
    unfolding cursor_def [of db' s] split by (simp add: image_Un)
  also have "\<dots> = Max (insert (Max (insert s (fst ` set ?old))) (fst ` set ?new))"
    by (rule Max_Un_insert) simp_all
  finally show "cursor db' s = cursor db' (cursor db s)"
    unfolding cursor_def [of db' "cursor db s"] by (simp only: cursor_def [of db s, symmetric])
qed

text \<open>
  C7: a client that polls the user events with the cursor it was given last loses none and
  sees none twice, provided that no transaction was in flight with an id at or below that cursor. If a
  search from \<open>s\<close> returned \<open>evs\<close> and the cursor \<open>c\<close>, then in any
  later state the search from \<open>c\<close> returns exactly the events that the search from \<open>s\<close> would
  return after \<open>evs\<close>, with the same new cursor. The events already seen are the same, except that
  the last ingested block of a decommissioned invocation may have advanced. Transactions may overlap:
  an id is drawn when a transaction inserts, and its event is visible when the transaction commits.
\<close>

theorem user_events_incremental:
  assumes "overlap_inv (db, drawn)" "pool_up db" "overlap_steps enc enc_report (db, drawn) (db', drawn')" "pool_up db'"
    and "permutes scan" "permutes scan'"
    and "fst (search_user_events scan s db) = Ok (evs, c)" and in_flight: "\<forall>i \<in> set drawn. c < i"
  shows "\<exists>old new c'. fst (search_user_events scan' c db') = Ok (new, c') \<and>
           fst (search_user_events scan' s db') = Ok (old @ new, c') \<and>
           map erase_progress old = map erase_progress evs"
proof -
  have le: "overlap_le (db, drawn) (db', drawn')" and "overlap_inv (db', drawn')"
    using overlap_steps_inv assms(1,3) by blast+
  then have inv: "db_inv db" "db_inv db'" using assms(1) by (simp_all add: overlap_inv_def)
  note search = search_user_events_cursor [OF inv(1) assms(2,5)] search_user_events_cursor [OF inv(2) assms(4,6)]
  show ?thesis
  proof (cases "s = i64_max")
    case True
    then show ?thesis using assms(7) by (simp add: search)
  next
    case False
    then have evs: "evs = map (event_of db) (filter (\<lambda>u. fst u > s) (user_events db))" and c: "c = cursor db s"
      using assms(7) by (simp_all add: search)
    define old where "old = map (event_of db') (filter (\<lambda>u. fst u > s) (user_events db))"
    define new where "new = map (event_of db') (filter (\<lambda>u. fst u > c) (user_events db'))"
    have "erase_progress (event_of db' u) = erase_progress (event_of db u)" if "u \<in> set (user_events db)" for u
      using le inv that by (intro event_of_static) (auto simp: overlap_le_def)
    then have "map erase_progress old = map erase_progress evs" unfolding old_def evs by simp
    moreover have "fst (search_user_events scan' s db') = Ok (old @ new, cursor db' c)"
      using False in_flight by (simp add: search old_def new_def c cursor_split [OF le inv, of s])
    moreover have "fst (search_user_events scan' c db') = Ok (new, cursor db' c)"
    proof (cases "c = i64_max")
      case True
      have "new = []"
        using event_ids_bounded [OF inv(2)] True by (force simp: new_def filter_empty_conv not_less)
      moreover have "cursor db' c = i64_max"
        using \<open>new = []\<close> True by (simp add: cursor_def new_def)
      ultimately show ?thesis using True by (simp add: search)
    qed (simp add: search new_def)
    ultimately show ?thesis by blast
  qed
qed

text \<open>An id is drawn in \<open>sample_db3\<close>; another transaction decommissions invocation 1 under the next id.\<close>

definition sample_drawn :: recovery_db where
  "sample_drawn = sample_db3\<lparr>seq_ue := 3\<rparr>"

definition sample_overtaken :: recovery_db where
  "sample_overtaken = snd (decommission_ingest_invocation 3 1 sample_drawn)"

lemma sample_overtaken_eq:
  "sample_overtaken = sample_drawn\<lparr>seq_ue := 4,
     ingest_invocations := [\<lparr>ii_id = 1, ii_ingress_key = sample_key, ii_egress_key = [1, 2], ii_last_active_at = 3,
                             ii_start_block = 5, ii_decommissioned = True, ii_rng_version = 0\<rparr>],
     user_events := [(1, new_ingest_invocation_event 1), (3, decommission_ingest_invocation_event 1)]\<rparr>"
  "fst (decommission_ingest_invocation 3 1 sample_drawn) = Ok ()"
  by (simp_all add: sample_overtaken_def sample_drawn_def sample_eqs decommission_ingest_invocation_def transaction_def
      insert_user_event_def decommission_ingest_invocation_impl_def Let_def update_where_def i64_max_def known_iid_def
      user_event_conflict_def new_ingest_invocation_event_def decommission_ingest_invocation_event_def)

lemma sample_draw:
  "overlap_step sample_enc sample_enc_report (sample_db3, []) (sample_drawn, [2])"
  "overlap_step sample_enc sample_enc_report (sample_drawn, drawn) (sample_overtaken, drawn)"
proof -
  have "seq_ue sample_db3 = 2" by (simp add: sample_eqs)
  then show "overlap_step sample_enc sample_enc_report (sample_db3, []) (sample_drawn, [2])"
    using overlap_draw [of sample_db3 sample_enc sample_enc_report "[]"] by (simp add: sample_drawn_def i64_max_def)
  show "overlap_step sample_enc sample_enc_report (sample_drawn, drawn) (sample_overtaken, drawn)"
    unfolding sample_overtaken_def by (intro overlap_whole step_decommission)
qed

lemma sample_drawn_inv: "overlap_inv (sample_drawn, [2])" "overlap_inv (sample_overtaken, [2])"
proof -
  have "overlap_inv (sample_db3, [])" using sample_inv(4) by (simp add: overlap_inv_def)
  then show "overlap_inv (sample_drawn, [2])" using overlap_step_inv [OF sample_draw(1)] by blast
  then show "overlap_inv (sample_overtaken, [2])" using overlap_step_inv [OF sample_draw(2)] by blast
qed

lemma sample_searches:
  "fst (search_user_events (\<lambda>xs. xs) 0 sample_drawn) =
     Ok ([NewRngRecord \<lparr>rr_ingest_invocation_id = 1, rr_pubkey = sample_egress, rr_start_block = 5\<rparr>], 1)"
  "fst (search_user_events (\<lambda>xs. xs) 0 sample_overtaken) =
     Ok ([NewRngRecord \<lparr>rr_ingest_invocation_id = 1, rr_pubkey = sample_egress, rr_start_block = 5\<rparr>,
          DecommissionIngestInvocation \<lparr>di_ingest_invocation_id = 1, di_last_ingested_block = 5\<rparr>], 3)"
  by (simp_all add: sample_overtaken_eq sample_drawn_def sample_eqs search_user_events_def i64_max_def join_invocation_def event_of_row_def
        new_ingest_invocation_event_def decommission_ingest_invocation_event_def decommission_max_block_def max_block_def
        sample_egress_def as_u64_def)

theorem user_events_incremental_witness:
  "\<exists>old new c'. fst (search_user_events rev 1 sample_overtaken) = Ok (new, c') \<and>
     fst (search_user_events rev 0 sample_overtaken) = Ok (old @ new, c') \<and>
     map erase_progress old = map erase_progress
       [NewRngRecord \<lparr>rr_ingest_invocation_id = 1, rr_pubkey = sample_egress, rr_start_block = 5\<rparr>]"
proof (rule user_events_incremental [OF sample_drawn_inv(1) _ _ _ _ _ sample_searches(1)])
  show "overlap_steps sample_enc sample_enc_report (sample_drawn, [2]) (sample_overtaken, [2])"
    unfolding overlap_steps_def by (intro r_into_rtranclp sample_draw)
qed (simp_all add: sample_overtaken_eq sample_drawn_def sample_eqs)

section \<open>Events committed below the cursor\<close>

lemma missing_event_unique:
  assumes "db_inv db" "(i, ev) \<in> set (user_events db)" "missing_blocks_event r = Some ev"
    and "u \<in> set (user_events db)" "event_of db u = MissingBlocks r"
  shows "u = (i, ev)"
proof -
  have ok: "event_of_row db (u, find (\<lambda>ii. Some (ii_id ii) = ue_new_iid (snd u)) (ingest_invocations db)) = Ok (MissingBlocks r)"
    using event_of_row_Ok [OF assms(1,4)] assms(5) by simp
  have "event_shape (snd u)" using assms(1,4) by (auto simp: db_inv_def events_inv_def)
  then obtain q where "missing_blocks_event q = Some (snd u)"
    using ok by (cases u) (auto simp: event_shape_def event_of_row_def event_kind_defs split: option.splits)
  moreover from this have "q = r"
    using ok by (cases u; cases q) (auto simp: missing_blocks_event_def event_of_row_def BlockRange_new_def split: if_splits)
  ultimately have "snd u = ev" using assms(3) by simp
  moreover have "user_event_conflict ev ev"
    using assms(3) by (auto simp: missing_blocks_event_def user_event_conflict_def split: if_splits)
  moreover obtain m n where mn: "m < length (user_events db)" "user_events db ! m = (i, ev)"
      "n < length (user_events db)" "user_events db ! n = u"
    using assms(2,4) by (meson in_set_conv_nth)
  moreover have "sorted_wrt (\<lambda>e f. \<not> user_event_conflict f e) (map snd (user_events db))"
    using assms(1) by (simp add: db_inv_def events_inv_def)
  ultimately have "m = n"
    using sorted_wrt_nth_less [of _ "map snd (user_events db)" m n] sorted_wrt_nth_less [of _ "map snd (user_events db)" n m]
    by (cases m n rule: linorder_cases) auto
  then show ?thesis using mn by simp
qed

text \<open>
  C8: an event that commits under an id at or below the cursor a client already has is never
  delivered to that client. If a search returned the cursor \<open>c\<close> while a transaction in flight held the
  id \<open>i \<le> c\<close>, and that transaction then commits a missed block range under \<open>i\<close>, then in every later
  state the range is in \<^verbatim>\<open>get_missed_block_ranges\<close>, but it was not in what the client received and is
  not in what a search from \<open>c\<close> or a later cursor returns.
\<close>

theorem overtaken_event_lost:
  assumes "overlap_inv (db, drawn)" "pool_up db" "permutes scan" "s < i64_max"
    and "fst (search_user_events scan s db) = Ok (evs, c)" "i \<in> set drawn" "i \<le> c"
    and "overlap_steps enc enc_report (db, drawn) (db', drawn')" "pool_up db'"
    and "missing_blocks_event missed = Some ev" "(i, ev) \<in> set (user_events db')"
    and "permutes scan'" "c \<le> s'" "fst (search_user_events scan' s' db') = Ok (evs', c')"
  shows "MissingBlocks missed \<notin> set evs \<and> MissingBlocks missed \<notin> set evs' \<and>
         (\<exists>ranges. fst (get_missed_block_ranges db') = Ok ranges \<and> missed \<in> set ranges)"
proof -
  have le: "overlap_le (db, drawn) (db', drawn')" and "overlap_inv (db', drawn')"
    using overlap_steps_inv assms(1,8) by blast+
  then have inv: "db_inv db" "db_inv db'" using assms(1) by (simp_all add: overlap_inv_def)
  have fresh: "(i, ev) \<notin> set (user_events db)" using assms(1,6) by (force simp: overlap_inv_def)
  note unique = missing_event_unique [OF inv(2) assms(11,10)]
  have "event_of db u \<noteq> MissingBlocks missed" if u: "u \<in> set (user_events db)" for u
  proof
    have "u \<in> set (user_events db')" using le u by (auto simp: overlap_le_def)
    moreover from this have "erase_progress (event_of db' u) = erase_progress (event_of db u)"
      using le inv u by (intro event_of_static) (auto simp: overlap_le_def)
    moreover assume "event_of db u = MissingBlocks missed"
    ultimately have "u = (i, ev)" by (intro unique) (cases "event_of db' u"; simp)+
    then show False using u fresh by simp
  qed
  then have "MissingBlocks missed \<notin> set evs"
    using assms(4,5) by (force simp: search_user_events_cursor [OF inv(1) assms(2,3)])
  moreover have "MissingBlocks missed \<notin> set evs'"
    using unique assms(7,13,14) by (force simp: search_user_events_cursor [OF inv(2) assms(9,12)] split: if_splits)
  ultimately show ?thesis
    using missed_ranges_eq [OF inv(2) assms(11,10)] assms(9) by (auto simp: get_missed_block_ranges_def)
qed

definition sample_late :: recovery_db where
  "sample_late = sample_overtaken\<lparr>
     ingress_keys := [\<lparr>ik_key = sample_key, ik_start_block = 5, ik_pubkey_expiry = 20, ik_retired = False, ik_lost = True\<rparr>],
     user_events := [(1, new_ingest_invocation_event 1), (2, the (missing_blocks_event (BlockRange_new 6 20))),
                     (3, decommission_ingest_invocation_event 1)]\<rparr>"

lemma sample_late_commit: "overlap_step sample_enc sample_enc_report (sample_overtaken, [2]) (sample_late, [])"
proof -
  have "late_commit [2] (report_lost_ingress_key sample_key sample_overtaken) sample_overtaken = Some sample_late"
    by (simp add: late_commit_def sample_late_def report_lost_ingress_key_def sample_overtaken_eq sample_drawn_def sample_eqs
        transaction_def report_lost_ingress_key_tx_def
        update_where_def load_ingress_key_def from_sql_key_def sample_key_def last_scanned_def max_block_def
        as_u64_def BlockRange_new_def BlockRange_is_valid_def missing_blocks_event_def insert_user_event_def
        i64_max_def known_iid_def user_event_conflict_def new_ingest_invocation_event_def decommission_ingest_invocation_event_def Let_def)
  from overlap_report_lost [OF _ _ this, of "[2]"] show ?thesis by simp
qed

theorem overtaken_event_lost_witness:
  "\<exists>evs'. fst (search_user_events rev 3 sample_late) = Ok (evs', 3) \<and> MissingBlocks (BlockRange_new 6 20) \<notin> set evs' \<and>
     (\<exists>ranges. fst (get_missed_block_ranges sample_late) = Ok ranges \<and> BlockRange_new 6 20 \<in> set ranges)"
proof -
  have steps: "overlap_steps sample_enc sample_enc_report (sample_overtaken, [2]) (sample_late, [])"
    unfolding overlap_steps_def by (intro r_into_rtranclp sample_late_commit)
  have up: "pool_up sample_overtaken" "pool_up sample_late"
    by (simp_all add: sample_late_def sample_overtaken_eq sample_drawn_def sample_eqs)
  have ev: "missing_blocks_event (BlockRange_new 6 20) = Some (the (missing_blocks_event (BlockRange_new 6 20)))"
    "(2, the (missing_blocks_event (BlockRange_new 6 20))) \<in> set (user_events sample_late)"
    by (simp_all add: missing_blocks_event_def BlockRange_new_def BlockRange_is_valid_def sample_late_def)
  have "fst (search_user_events rev 3 sample_late) = Ok ([], 3)"
    by (simp add: sample_late_def sample_overtaken_eq sample_drawn_def sample_eqs search_user_events_def i64_max_def)
  with overtaken_event_lost [OF sample_drawn_inv(2) up(1) _ _ sample_searches(2) _ _ steps up(2) ev, of rev 3 "[]" 3]
  show ?thesis by (simp add: i64_max_def)
qed

end
