(* ===== verification/Oblivious_Map.thy ===== *)
theory Oblivious_Map
  imports Fog_Prelude
begin

text \<open>
  The interface of the oblivious hash map (\<^verbatim>\<open>ObliviousHashMap\<close> of \<^verbatim>\<open>mc_oblivious_traits\<close>) that
  both enclaves keep their tables in. The map is a crate outside this repository: its operations
  are the argument \<open>M\<close>, its state \<open>'m\<close> is abstract (it holds the random source of the map), and
  \<open>omap_laws\<close> states its documented behaviour in terms of the partial map \<open>content\<close> it stores.
  Keys and values have the fixed sizes \<open>ks\<close> and \<open>vs\<close>; the key of all zeroes is not supported;
  inserting may overflow, and after an overflow nothing is known of the content.
\<close>

text \<open>The result codes, which the crate declares as distinct integers.\<close>

datatype omap_code = OMAP_FOUND | OMAP_NOT_FOUND | OMAP_INVALID_KEY | OMAP_OVERFLOW | OMAP_OTHER u32

text \<open>
  \<open>om_read\<close> takes the buffer the value is written to. The callback of \<open>om_access_and_insert\<close>
  gets the code and the stored value (the default for a new key) and gives the bytes it computes
  for its caller and the value to store.
\<close>

record 'm omap_ops =
  om_create :: "u64 \<Rightarrow> 'm"
  om_read :: "bytes \<Rightarrow> bytes \<Rightarrow> 'm \<Rightarrow> (omap_code \<times> bytes) \<times> 'm"
  om_vartime_write :: "bytes \<Rightarrow> bytes \<Rightarrow> bool \<Rightarrow> 'm \<Rightarrow> omap_code \<times> 'm"
  om_access_and_insert ::
    "bytes \<Rightarrow> bytes \<Rightarrow> (omap_code \<Rightarrow> bytes \<Rightarrow> bytes \<times> bytes) \<Rightarrow> 'm \<Rightarrow> (omap_code \<times> bytes) \<times> 'm"
  om_len :: "'m \<Rightarrow> u64"
  om_capacity :: "'m \<Rightarrow> u64"

definition zero_key :: "bytes \<Rightarrow> bool" where
  "zero_key k \<longleftrightarrow> list_all (\<lambda>b. b = 0) k"

definition present_code :: "(bytes \<rightharpoonup> bytes) \<Rightarrow> bytes \<Rightarrow> omap_code" where
  "present_code c k = (case c k of None \<Rightarrow> OMAP_NOT_FOUND | Some _ \<Rightarrow> OMAP_FOUND)"

definition read_law :: "nat \<Rightarrow> nat \<Rightarrow> 'm omap_ops \<Rightarrow> ('m \<Rightarrow> bytes \<rightharpoonup> bytes) \<Rightarrow> bool" where
  "read_law ks vs M content \<longleftrightarrow>
     (\<forall>k v m. length k = ks \<and> length v = vs \<longrightarrow>
        content (snd (om_read M k v m)) = content m \<and>
        fst (om_read M k v m) =
          (if zero_key k then (OMAP_INVALID_KEY, v)
           else (present_code (content m) k, case content m k of None \<Rightarrow> v | Some w \<Rightarrow> w)))"

definition write_law :: "nat \<Rightarrow> nat \<Rightarrow> 'm omap_ops \<Rightarrow> ('m \<Rightarrow> bytes \<rightharpoonup> bytes) \<Rightarrow> bool" where
  "write_law ks vs M content \<longleftrightarrow>
     (\<forall>k v m c m'. length k = ks \<and> length v = vs \<and> om_vartime_write M k v True m = (c, m') \<longrightarrow>
        (if zero_key k then c = OMAP_INVALID_KEY \<and> content m' = content m
         else c = OMAP_OVERFLOW \<and> content m k = None \<or>
              c = present_code (content m) k \<and> content m' = (content m)(k \<mapsto> v)))"

definition access_law :: "nat \<Rightarrow> nat \<Rightarrow> 'm omap_ops \<Rightarrow> ('m \<Rightarrow> bytes \<rightharpoonup> bytes) \<Rightarrow> bool" where
  "access_law ks vs M content \<longleftrightarrow>
     (\<forall>k d f m c out m'. length k = ks \<and> length d = vs \<and> \<not> zero_key k \<and>
        om_access_and_insert M k d f m = ((c, out), m') \<longrightarrow>
        c = OMAP_OVERFLOW \<and> content m k = None \<or>
        c = present_code (content m) k \<and>
        (out, the (content m' k)) = f c (case content m k of None \<Rightarrow> d | Some w \<Rightarrow> w) \<and>
        content m' = (content m)(k \<mapsto> the (content m' k)))"

definition omap_laws :: "nat \<Rightarrow> nat \<Rightarrow> 'm omap_ops \<Rightarrow> ('m \<Rightarrow> bytes \<rightharpoonup> bytes) \<Rightarrow> bool" where
  "omap_laws ks vs M content \<longleftrightarrow>
     (\<forall>n. content (om_create M n) = Map.empty) \<and>
     read_law ks vs M content \<and> write_law ks vs M content \<and> access_law ks vs M content"

section \<open>Consequences\<close>

named_theorems omap_simps \<open>behaviour of the oblivious map under its laws\<close>

lemma omap_create [omap_simps]: "omap_laws ks vs M content \<Longrightarrow> content (om_create M n) = Map.empty"
  by (simp add: omap_laws_def)

lemma omap_read:
  assumes "omap_laws ks vs M content" "length k = ks" "length v = vs"
  shows "content (snd (om_read M k v m)) = content m"
    and "fst (om_read M k v m) =
           (if zero_key k then (OMAP_INVALID_KEY, v)
            else (present_code (content m) k, case content m k of None \<Rightarrow> v | Some w \<Rightarrow> w))"
  using assms by (simp_all add: omap_laws_def read_law_def)

lemma omap_write:
  assumes "omap_laws ks vs M content" "length k = ks" "length v = vs" "om_vartime_write M k v True m = (c, m')"
  obtains "zero_key k" "c = OMAP_INVALID_KEY" "content m' = content m"
  | "\<not> zero_key k" "c = OMAP_OVERFLOW" "content m k = None"
  | "\<not> zero_key k" "c = present_code (content m) k" "content m' = (content m)(k \<mapsto> v)"
proof -
  have "if zero_key k then c = OMAP_INVALID_KEY \<and> content m' = content m
        else c = OMAP_OVERFLOW \<and> content m k = None \<or>
             c = present_code (content m) k \<and> content m' = (content m)(k \<mapsto> v)"
    using assms unfolding omap_laws_def write_law_def by blast
  then show thesis using that by (cases "zero_key k") auto
qed

lemma omap_access:
  assumes "omap_laws ks vs M content" "length k = ks" "length d = vs" "\<not> zero_key k"
    and "om_access_and_insert M k d f m = ((c, out), m')"
  obtains "c = OMAP_OVERFLOW" "content m k = None"
  | v where "c = present_code (content m) k" "(out, v) = f c (case content m k of None \<Rightarrow> d | Some w \<Rightarrow> w)"
      "content m' = (content m)(k \<mapsto> v)"
proof -
  have "c = OMAP_OVERFLOW \<and> content m k = None \<or>
        c = present_code (content m) k \<and>
        (out, the (content m' k)) = f c (case content m k of None \<Rightarrow> d | Some w \<Rightarrow> w) \<and>
        content m' = (content m)(k \<mapsto> the (content m' k))"
    using assms unfolding omap_laws_def access_law_def by blast
  then show thesis using that by blast
qed

lemma present_code_neq [simp]:
  "present_code c k \<noteq> OMAP_OVERFLOW" "present_code c k \<noteq> OMAP_INVALID_KEY" "present_code c k \<noteq> OMAP_OTHER x"
  "OMAP_OVERFLOW \<noteq> present_code c k"
  by (simp_all add: present_code_def split: option.splits)

section \<open>A bounded table\<close>

text \<open>
  A table of bounded size that keeps the laws: the instance at which the theorems are applied to
  concrete inputs. Its state is its capacity and its entries.
\<close>

definition table_read :: "bytes \<Rightarrow> bytes \<Rightarrow> nat \<times> (bytes \<times> bytes) list \<Rightarrow> (omap_code \<times> bytes) \<times> nat \<times> (bytes \<times> bytes) list" where
  "table_read k v m =
     (if zero_key k then ((OMAP_INVALID_KEY, v), m)
      else case map_of (snd m) k of None \<Rightarrow> ((OMAP_NOT_FOUND, v), m) | Some w \<Rightarrow> ((OMAP_FOUND, w), m))"

definition table_write :: "bytes \<Rightarrow> bytes \<Rightarrow> bool \<Rightarrow> nat \<times> (bytes \<times> bytes) list \<Rightarrow> omap_code \<times> nat \<times> (bytes \<times> bytes) list" where
  "table_write k v overwrite m =
     (if zero_key k then (OMAP_INVALID_KEY, m)
      else case map_of (snd m) k of
             Some w \<Rightarrow> (OMAP_FOUND, if overwrite then (fst m, (k, v) # snd m) else m)
           | None \<Rightarrow> if length (remdups (map fst (snd m))) < fst m then (OMAP_NOT_FOUND, (fst m, (k, v) # snd m))
                     else (OMAP_OVERFLOW, m))"

definition table_access ::
  "bytes \<Rightarrow> bytes \<Rightarrow> (omap_code \<Rightarrow> bytes \<Rightarrow> bytes \<times> bytes) \<Rightarrow> nat \<times> (bytes \<times> bytes) list
     \<Rightarrow> (omap_code \<times> bytes) \<times> nat \<times> (bytes \<times> bytes) list"
where
  "table_access k d f m =
     (let v = (case map_of (snd m) k of None \<Rightarrow> d | Some w \<Rightarrow> w);
          c = (case map_of (snd m) k of None \<Rightarrow> OMAP_NOT_FOUND | Some w \<Rightarrow> OMAP_FOUND);
          (out, v') = f c v;
          (c', m') = table_write k v' True m
      in ((c', out), m'))"

definition table_ops :: "(nat \<times> (bytes \<times> bytes) list) omap_ops" where
  "table_ops =
     \<lparr>om_create = (\<lambda>n. (unat n, [])), om_read = table_read, om_vartime_write = table_write,
      om_access_and_insert = table_access,
      om_len = (\<lambda>m. of_nat (length (remdups (map fst (snd m))))), om_capacity = (\<lambda>m. of_nat (fst m))\<rparr>"

lemma table_laws: "omap_laws ks vs table_ops (\<lambda>m. map_of (snd m))"
proof -
  have "read_law ks vs table_ops (\<lambda>m. map_of (snd m))"
    by (simp add: read_law_def table_ops_def table_read_def present_code_def split: option.splits)
  moreover have "write_law ks vs table_ops (\<lambda>m. map_of (snd m))"
    unfolding write_law_def
    by (auto simp: table_ops_def table_write_def present_code_def split: option.splits if_splits)
  moreover have "access_law ks vs table_ops (\<lambda>m. map_of (snd m))"
    unfolding access_law_def
  proof (intro allI impI, elim conjE)
    fix k d f m c out m'
    assume *: "\<not> zero_key k" "om_access_and_insert table_ops k d f m = ((c, out), m')"
    show "c = OMAP_OVERFLOW \<and> map_of (snd m) k = None \<or>
          c = present_code (map_of (snd m)) k \<and>
          (out, the (map_of (snd m') k)) = f c (case map_of (snd m) k of None \<Rightarrow> d | Some w \<Rightarrow> w) \<and>
          map_of (snd m') = (map_of (snd m))(k \<mapsto> the (map_of (snd m') k))"
    proof (cases "map_of (snd m) k")
      case None
      with * show ?thesis
        by (cases "f OMAP_NOT_FOUND d")
           (auto simp: table_ops_def table_access_def table_write_def present_code_def split: if_splits)
    next
      case (Some w)
      with * show ?thesis
        by (cases "f OMAP_FOUND w")
           (auto simp: table_ops_def table_access_def table_write_def present_code_def)
    qed
  qed
  ultimately show ?thesis
    by (simp add: omap_laws_def) (simp add: table_ops_def)
qed

end
