(* ===== verification/Block_Tracker.thy ===== *)
theory Block_Tracker
  imports Fog_Types "HOL-Library.AList"
begin

text \<open>
  The block tracker of the view server, \<^verbatim>\<open>src/fog/view/server/src/block_tracker.rs\<close>. The hash
  map from ingress keys to the last processed block is an association list with distinct keys. The
  loop of \<^verbatim>\<open>highest_fully_processed_block_count\<close> is a \<open>partial_function\<close>, since with counts
  at the top of \<^verbatim>\<open>u64\<close> it need not stop; it is proved to stop below that. A failed
  \<^verbatim>\<open>assert!\<close> is the result \<open>None\<close>.
\<close>

record BlockTracker =
  processed_block_per_ingress_key :: "(bytes \<times> u64) list"
  last_highest_processed_block_count :: u64

definition BlockTracker_new :: BlockTracker where
  "BlockTracker_new = \<lparr>processed_block_per_ingress_key = [], last_highest_processed_block_count = 0\<rparr>"

definition processed :: "BlockTracker \<Rightarrow> bytes \<Rightarrow> u64 option" where
  "processed t k = map_of (processed_block_per_ingress_key t) k"

text \<open>The body of the loop of \<^verbatim>\<open>next_blocks\<close>: the block a record asks for next, if it covers it.\<close>

definition next_block_of :: "BlockTracker \<Rightarrow> IngressPublicKeyRecord \<Rightarrow> u64 option" where
  "next_block_of t rec =
     (case processed t (key rec) of
        Some last_processed_block \<Rightarrow>
          let next_block = last_processed_block + 1
          in if covers_block_index rec next_block then Some next_block else None
      | None \<Rightarrow>
          if covers_block_index rec (st_start_block (status rec))
          then Some (st_start_block (status rec)) else None)"

definition next_blocks :: "BlockTracker \<Rightarrow> IngressPublicKeyRecord list \<Rightarrow> (bytes \<times> u64) list" where
  "next_blocks t recs =
     fold (\<lambda>rec m. case next_block_of t rec of Some b \<Rightarrow> AList.update (key rec) b m | None \<Rightarrow> m) recs []"

definition block_processed :: "bytes \<Rightarrow> u64 \<Rightarrow> BlockTracker \<Rightarrow> BlockTracker option" where
  "block_processed k block_index t =
     (let t' = t\<lparr>processed_block_per_ingress_key :=
                  AList.update k block_index (processed_block_per_ingress_key t)\<rparr>
      in case processed t k of
           Some previous_block_index \<Rightarrow> if block_index = previous_block_index + 1 then Some t' else None
         | None \<Rightarrow> Some t')"

definition highest_known_block_count :: "BlockTracker \<Rightarrow> u64" where
  "highest_known_block_count t =
     (case map (\<lambda>(k, block_index). block_index + 1) (processed_block_per_ingress_key t) of
        [] \<Rightarrow> 0 | c # cs \<Rightarrow> fold max cs c)"

text \<open>The inner loop: the first record that must provide the block and has not.\<close>

fun blocking_key :: "BlockTracker \<Rightarrow> u64 \<Rightarrow> IngressPublicKeyRecord list \<Rightarrow> IngressPublicKeyRecord option" where
  "blocking_key t next_block_index [] = None"
| "blocking_key t next_block_index (rec # recs) =
     (if \<not> covers_block_index rec next_block_index then blocking_key t next_block_index recs
      else case processed t (key rec) of
             Some last_processed_block \<Rightarrow>
               if next_block_index > last_processed_block then Some rec
               else blocking_key t next_block_index recs
           | None \<Rightarrow> Some rec)"

partial_function (option) advance_loop ::
  "u64 \<Rightarrow> IngressPublicKeyRecord list \<Rightarrow> BlockTracker \<Rightarrow> (BlockTracker \<times> IngressPublicKeyRecord option) option"
where
  "advance_loop highest_known recs t =
     (let next_block_index = last_highest_processed_block_count t;
          next_block_count = last_highest_processed_block_count t + 1
      in if highest_known < next_block_count then Some (t, None)
         else case blocking_key t next_block_index recs of
                Some rec \<Rightarrow> Some (t, Some rec)
              | None \<Rightarrow> advance_loop highest_known recs
                          (t\<lparr>last_highest_processed_block_count := next_block_count\<rparr>))"

definition highest_fully_processed_block_count ::
  "IngressPublicKeyRecord list \<Rightarrow> BlockTracker
     \<Rightarrow> ((u64 \<times> IngressPublicKeyRecord option) \<times> BlockTracker) option"
where
  "highest_fully_processed_block_count recs t =
     (case advance_loop (highest_known_block_count t) recs t of
        None \<Rightarrow> None
      | Some (t', reason_we_stopped) \<Rightarrow>
          Some ((last_highest_processed_block_count t', reason_we_stopped), t'))"

section \<open>Lemmas\<close>

definition tracker_inv :: "BlockTracker \<Rightarrow> bool" where
  "tracker_inv t \<longleftrightarrow> distinct (map fst (processed_block_per_ingress_key t))"

lemma tracker_inv_new [simp]: "tracker_inv BlockTracker_new"
  by (simp add: tracker_inv_def BlockTracker_new_def)

lemma processed_new [simp]: "processed BlockTracker_new k = None"
  by (simp add: processed_def BlockTracker_new_def)

lemma block_processed_Some:
  assumes "block_processed k b t = Some t'"
  shows "processed t' = (processed t)(k \<mapsto> b)"
    and "last_highest_processed_block_count t' = last_highest_processed_block_count t"
    and "tracker_inv t \<Longrightarrow> tracker_inv t'"
  using assms
  by (auto simp: block_processed_def Let_def processed_def fun_eq_iff update_conv' tracker_inv_def
      distinct_update split: option.splits if_splits)

lemma block_processed_ok:
  "(\<And>p. processed t k = Some p \<Longrightarrow> b = p + 1) \<Longrightarrow> \<exists>t'. block_processed k b t = Some t'"
  by (auto simp: block_processed_def Let_def split: option.splits)

text \<open>The association list of the next blocks: one entry per key, from some record of that key.\<close>

lemma next_blocks_aux:
  assumes "distinct (map fst m)"
    and "\<forall>(k, b) \<in> set m. \<exists>rec \<in> R. key rec = k \<and> next_block_of t rec = Some b" "set recs \<subseteq> R"
  defines "m' \<equiv> fold (\<lambda>rec m. case next_block_of t rec of Some b \<Rightarrow> AList.update (key rec) b m | None \<Rightarrow> m) recs m"
  shows "distinct (map fst m') \<and> (\<forall>(k, b) \<in> set m'. \<exists>rec \<in> R. key rec = k \<and> next_block_of t rec = Some b)"
  using assms(1-3) unfolding m'_def
proof (induction recs arbitrary: m)
  case (Cons rec recs)
  show ?case
  proof (cases "next_block_of t rec")
    case None
    then show ?thesis using Cons by simp
  next
    case (Some b)
    have "set (AList.update (key rec) b m) \<subseteq> insert (key rec, b) (set m)"
      by (induction m) auto
    then show ?thesis
      using Cons.prems Some by (simp, intro Cons.IH) (auto simp: distinct_update)
  qed
qed simp

lemma next_blocks_sound:
  "distinct (map fst (next_blocks t recs))"
  "(k, b) \<in> set (next_blocks t recs) \<Longrightarrow> \<exists>rec \<in> set recs. key rec = k \<and> next_block_of t rec = Some b"
  using next_blocks_aux [of "[]" "set recs" t recs] by (auto simp: next_blocks_def)

lemma next_block_of_Some:
  "next_block_of t rec = Some b \<longleftrightarrow>
     covers_block_index rec b \<and>
     b = (case processed t (key rec) of Some p \<Rightarrow> p + 1 | None \<Rightarrow> st_start_block (status rec))"
  by (auto simp: next_block_of_def Let_def split: option.splits)

lemma highest_known_ge:
  assumes "processed t k = Some b"
  shows "b + 1 \<le> highest_known_block_count t"
proof -
  let ?cs = "map (\<lambda>(k, block_index). block_index + 1) (processed_block_per_ingress_key t)"
  have "(k, b) \<in> set (processed_block_per_ingress_key t)"
    using assms by (auto simp: processed_def dest: map_of_SomeD)
  then have "b + 1 \<in> set ?cs" by force
  then show ?thesis
    by (cases ?cs) (auto simp: highest_known_block_count_def simp flip: Max.set_eq_fold)
qed

lemma highest_known_attained:
  assumes "tracker_inv t"
  shows "highest_known_block_count t = 0 \<or> (\<exists>k b. processed t k = Some b \<and> highest_known_block_count t = b + 1)"
proof -
  let ?cs = "map (\<lambda>(k, block_index). block_index + 1) (processed_block_per_ingress_key t)"
  have "?cs = [] \<or> highest_known_block_count t \<in> set ?cs"
  proof (cases ?cs)
    case (Cons c cs)
    then have "highest_known_block_count t = Max (set ?cs)"
      by (simp add: highest_known_block_count_def Max.set_eq_fold del: set_map list.set)
    then show ?thesis using Cons by (metis List.finite_set Max_in set_empty)
  qed simp
  then show ?thesis
  proof
    assume "highest_known_block_count t \<in> set ?cs"
    then obtain k b where "(k, b) \<in> set (processed_block_per_ingress_key t)" "highest_known_block_count t = b + 1"
      by auto
    then show ?thesis using assms by (auto simp: processed_def tracker_inv_def)
  qed (simp add: highest_known_block_count_def)
qed

lemma blocking_key_None_iff:
  "blocking_key t b recs = None \<longleftrightarrow>
     (\<forall>rec \<in> set recs. covers_block_index rec b \<longrightarrow> (\<exists>p. processed t (key rec) = Some p \<and> b \<le> p))"
  by (induction recs) (auto split: option.splits simp: not_less)

lemma blocking_key_Some:
  "blocking_key t b recs = Some rec \<Longrightarrow>
     rec \<in> set recs \<and> covers_block_index rec b \<and> (\<forall>p. processed t (key rec) = Some p \<longrightarrow> p < b)"
  by (induction recs) (auto split: option.splits if_splits)

text \<open>
  What the loop establishes: it stops, never goes back, everything it passes is loaded for every
  record that covers it, and the reason it gives is a record that really blocks the next block.
\<close>

definition advance_post ::
  "u64 \<Rightarrow> IngressPublicKeyRecord list \<Rightarrow> BlockTracker \<Rightarrow> BlockTracker \<Rightarrow> IngressPublicKeyRecord option \<Rightarrow> bool"
where
  "advance_post highest_known recs t t' reason \<longleftrightarrow>
     (let h = last_highest_processed_block_count t; h' = last_highest_processed_block_count t' in
      t' = t\<lparr>last_highest_processed_block_count := h'\<rparr> \<and> h \<le> h' \<and> (h' \<le> highest_known \<or> h' = h) \<and>
      (\<forall>b. h \<le> b \<longrightarrow> b < h' \<longrightarrow> blocking_key t b recs = None) \<and>
      (case reason of
         None \<Rightarrow> highest_known \<le> h'
       | Some rec \<Rightarrow> h' < highest_known \<and> blocking_key t h' recs = Some rec))"

lemma blocking_key_cong [simp]:
  "blocking_key (t\<lparr>last_highest_processed_block_count := h\<rparr>) b recs = blocking_key t b recs"
  by (induction recs) (simp_all add: processed_def split: option.splits)

lemma u64_Suc_bounds:
  assumes "(h :: u64) \<noteq> -1"
  shows "h < h + 1" "\<And>b. h \<le> b \<Longrightarrow> b < h + 1 \<Longrightarrow> b = h" "\<And>b. h < b \<Longrightarrow> h + 1 \<le> b"
proof -
  show "h < h + 1" using unat_plus_one [OF assms] by (simp add: word_less_nat_alt)
  show "b = h" if "h \<le> b" "b < h + 1" for b
    using that less_inc_imp_less_eq [of b h] by simp
  show "h + 1 \<le> b" if "h < b" for b
    using that by (rule inc_le)
qed

lemma advance_loop_post:
  assumes "highest_known \<noteq> -1" "last_highest_processed_block_count t \<noteq> -1"
  shows "\<exists>t' reason. advance_loop highest_known recs t = Some (t', reason) \<and>
           advance_post highest_known recs t t' reason"
  using assms
proof (induction "unat highest_known - unat (last_highest_processed_block_count t)" arbitrary: t rule: less_induct)
  case less
  let ?h = "last_highest_processed_block_count t"
  note h1 = u64_Suc_bounds [OF less.prems(2)]
  show ?case
  proof (cases "highest_known < ?h + 1")
    case True
    then have "advance_loop highest_known recs t = Some (t, None)"
      by (simp add: advance_loop.simps)
    then show ?thesis
      using True less_inc_imp_less_eq [OF True] by (auto simp: advance_post_def Let_def)
  next
    case False
    then have lt: "?h < highest_known" using h1(1) by (meson leI order.strict_trans2)
    show ?thesis
    proof (cases "blocking_key t ?h recs")
      case (Some rec)
      then have "advance_loop highest_known recs t = Some (t, Some rec)"
        using False by (subst advance_loop.simps) (simp add: Let_def)
      then show ?thesis using Some lt by (auto simp: advance_post_def Let_def)
    next
      case None
      let ?t = "t\<lparr>last_highest_processed_block_count := ?h + 1\<rparr>"
      have step: "advance_loop highest_known recs t = advance_loop highest_known recs ?t"
        using False None by (subst advance_loop.simps) (simp add: Let_def)
      have "?h + 1 \<noteq> -1" using h1(3) [OF lt] less.prems(1)
        by (metis antisym word_order.extremum)
      moreover have "unat highest_known - unat (?h + 1) < unat highest_known - unat ?h"
        using lt unat_plus_one [OF less.prems(2)] by (simp add: word_less_nat_alt)
      ultimately obtain t' reason where IH: "advance_loop highest_known recs ?t = Some (t', reason)"
        "advance_post highest_known recs ?t t' reason"
        using less.hyps [of ?t] less.prems(1) by auto
      have "advance_post highest_known recs t t' reason"
        using IH(2) None h1(1,2) h1(3) [OF lt]
        unfolding advance_post_def Let_def
        by (auto split: option.splits) (metis h1(2,3) less_le order.strict_trans1)+
      then show ?thesis using IH(1) step by auto
    qed
  qed
qed

lemma highest_known_mono:
  assumes "block_processed k b t = Some t'" "tracker_inv t" "b \<noteq> -1"
  shows "highest_known_block_count t \<le> highest_known_block_count t'"
proof -
  note t' = block_processed_Some [OF assms(1)]
  consider "highest_known_block_count t = 0"
    | k' p where "processed t k' = Some p" "highest_known_block_count t = p + 1"
    using highest_known_attained [OF assms(2)] by blast
  then show ?thesis
  proof cases
    case 2
    show ?thesis
    proof (cases "k' = k")
      case True
      then have "b = p + 1"
        using assms(1) 2 by (auto simp: block_processed_def Let_def split: if_splits)
      then show ?thesis
        using 2 highest_known_ge [of t' k b] t'(1) u64_Suc_bounds(1) [OF assms(3)] by auto
    next
      case False
      then show ?thesis using 2 highest_known_ge [of t' k' p] t'(1) by simp
    qed
  qed simp
qed

lemma next_blocks_processable:
  assumes "(k, b) \<in> set (next_blocks t recs)"
  shows "\<exists>t'. block_processed k b t = Some t'"
  using next_blocks_sound(2) [OF assms] by (intro block_processed_ok) (auto simp: next_block_of_Some)

section \<open>Properties\<close>

text \<open>
  C27: below the top of \<^verbatim>\<open>u64\<close>, \<^verbatim>\<open>highest_fully_processed_block_count\<close> terminates. The count it
  returns never goes back and every block it passes has been processed for every ingress key
  that covers it. It stops either because it reached the highest known count, or at a block
  below it that the returned record covers and has not provided.
\<close>

theorem highest_fully_processed_spec:
  assumes "highest_known_block_count t \<noteq> -1" "last_highest_processed_block_count t \<noteq> -1"
  shows "\<exists>h reason t'. highest_fully_processed_block_count recs t = Some ((h, reason), t') \<and>
     last_highest_processed_block_count t \<le> h \<and> last_highest_processed_block_count t' = h \<and>
     (\<forall>b rec. last_highest_processed_block_count t \<le> b \<longrightarrow> b < h \<longrightarrow> rec \<in> set recs \<longrightarrow>
        covers_block_index rec b \<longrightarrow> (\<exists>p. processed t (key rec) = Some p \<and> b \<le> p)) \<and>
     (case reason of
        None \<Rightarrow> highest_known_block_count t \<le> h
      | Some rec \<Rightarrow> rec \<in> set recs \<and> h < highest_known_block_count t \<and> covers_block_index rec h \<and>
          (case processed t (key rec) of None \<Rightarrow> True | Some p \<Rightarrow> p < h))"
proof -
  obtain t' reason where loop: "advance_loop (highest_known_block_count t) recs t = Some (t', reason)"
    and post: "advance_post (highest_known_block_count t) recs t t' reason"
    using advance_loop_post [OF assms] by blast
  then have "highest_fully_processed_block_count recs t =
      Some ((last_highest_processed_block_count t', reason), t')"
    by (simp add: highest_fully_processed_block_count_def)
  moreover have "case reason of
        None \<Rightarrow> highest_known_block_count t \<le> last_highest_processed_block_count t'
      | Some rec \<Rightarrow> rec \<in> set recs \<and> last_highest_processed_block_count t' < highest_known_block_count t \<and>
          covers_block_index rec (last_highest_processed_block_count t') \<and>
          (case processed t (key rec) of None \<Rightarrow> True | Some p \<Rightarrow> p < last_highest_processed_block_count t')"
    using post by (auto simp: advance_post_def Let_def dest!: blocking_key_Some split: option.splits)
  ultimately show ?thesis
    using post by (auto simp: advance_post_def Let_def blocking_key_None_iff)
qed

definition sample_record :: IngressPublicKeyRecord where
  "sample_record = \<lparr>key = replicate 32 1,
     status = \<lparr>st_start_block = 0, st_pubkey_expiry = 9, st_retired = False, st_lost = False\<rparr>,
     last_scanned_block = Some 1\<rparr>"

definition sample_tracker :: BlockTracker where
  "sample_tracker = \<lparr>processed_block_per_ingress_key = [(replicate 32 1, 1), (replicate 32 2, 4)],
                     last_highest_processed_block_count = 0\<rparr>"

theorem highest_fully_processed_spec_witness:
  "\<exists>h reason t'. highest_fully_processed_block_count [sample_record] sample_tracker = Some ((h, reason), t') \<and>
     h = 2 \<and> reason = Some sample_record"
proof -
  have known: "highest_known_block_count sample_tracker = 5"
    by (simp add: highest_known_block_count_def sample_tracker_def)
  have p: "processed sample_tracker (key sample_record) = Some 1"
    by (simp add: processed_def sample_tracker_def sample_record_def)
  have cov: "covers_block_index sample_record b" for b
    by (simp add: covers_block_index_def sample_record_def)
  have le2: "h \<le> 2" if "\<forall>b < h. b \<le> (1 :: u64)" for h
  proof (rule ccontr)
    assume "\<not> h \<le> 2"
    then have "(2 :: u64) \<le> 1" using that by (simp add: not_le)
    then show False by (simp add: word_le_nat_alt)
  qed
  have "h = 2" if "\<forall>b < h. b \<le> (1 :: u64)" "1 < h" for h
    using le2 [OF that(1)] inc_le [OF that(2)] by simp
  moreover have False if "\<forall>b < h. b \<le> (1 :: u64)" "5 \<le> h" for h
    using le2 [OF that(1)] that(2) by (simp add: word_le_nat_alt)
  ultimately show ?thesis
    using highest_fully_processed_spec [of sample_tracker "[sample_record]"] known p cov
    by (auto simp: sample_tracker_def split: option.splits)
qed

end
