(* ===== verification/View_Server.thy ===== *)
theory View_Server
  imports Block_Tracker Recovery_Mono
begin

text \<open>
  The two background threads of the view server: the database fetcher
  (\<^verbatim>\<open>src/fog/view/server/src/db_fetcher.rs\<close>) that reads blocks ahead of the enclave, and the
  poll worker (\<^verbatim>\<open>DbPollThreadWorker\<close> of \<^verbatim>\<open>src/fog/view/server/src/server.rs\<close>) that feeds them to
  the enclave and publishes the highest processed block count.

  The threads run concurrently with each other and with the writers of the database. A step of
  \<open>view_step\<close> is one critical section: a database query with the update of the thread's own
  state, one access to the mutex-protected queue, one access to the limiter, one call of the
  enclave. The queries of clients (\<open>query\<close>) come in between and change the enclave too. The database is reached through the operations of \<open>store_ops\<close>; the locale
  \<open>block_store\<close> states what the view server relies on of them, and it is interpreted on the
  model of the SQL database. \<open>v_log\<close> is the sequence of the blocks whose records the enclave
  has accepted, in order (the code logs exactly these).
\<close>

section \<open>State\<close>

record FetchedRecords =
  fr_ingress_key :: bytes
  fr_block_index :: u64
  fr_records :: "ETxOutRecord list"

record DbFetcherSharedState =
  fs_ingress_keys :: "IngressPublicKeyRecord list"
  fs_fetched_records :: "FetchedRecords list"

record DbPollSharedState =
  ps_highest_processed_block_count :: u64
  ps_highest_processed_block_signature_timestamp :: u64
  ps_last_known_block_count :: u64
  ps_last_known_block_cumulative_txo_count :: u64

definition MAX_QUEUED_RECORDS :: nat where
  "MAX_QUEUED_RECORDS = (128 * 1024 * 1024) div 256"

text \<open>Where the poll worker is in its \<^verbatim>\<open>tick\<close>.\<close>

datatype worker_pc = W_Tick | W_Reset | W_Adding | W_Joining | W_Stopped

text \<open>
  Where the fetcher is in its \<^verbatim>\<open>run\<close>: at the check of its stop flag, before \<^verbatim>\<open>load_ingress_keys\<close>, before
  a call of \<^verbatim>\<open>load_block_data\<close>, inside of it (with \<^verbatim>\<open>has_more_work\<close>), or finished.
\<close>

datatype fetcher_pc = F_Top | F_Keys | F_Load | F_Round bool | F_Done

record ('db, 'e) view_sys =
  v_db :: 'db
  v_fetcher :: DbFetcherSharedState
  v_num_queued :: nat
  v_fetch_tracker :: BlockTracker
  v_fetch_todo :: "(bytes \<times> u64) list"
  v_fetch_wait :: "nat option"
  v_fetch_pc :: fetcher_pc
  v_fetch_stop :: bool
  v_fetch_panicked :: bool
  v_enclave :: 'e
  v_enclave_tracker :: BlockTracker
  v_worker_todo :: "FetchedRecords list"
  v_worker_pc :: worker_pc
  v_worker_stuck :: bool
  v_worker_panicked :: bool
  v_poll :: DbPollSharedState
  v_stop_requested :: bool
  v_log :: "FetchedRecords list"

text \<open>The database operations the view server calls, and the enclave's \<^verbatim>\<open>add_records\<close>.\<close>

record 'db store_ops =
  so_ingress_key_records :: "'db \<Rightarrow> (db_error, IngressPublicKeyRecord list) result"
  so_tx_outs :: "bytes \<Rightarrow> u64 \<Rightarrow> 'db \<Rightarrow> (db_error, ETxOutRecord list option) result"
  so_timestamp :: "u64 \<Rightarrow> 'db \<Rightarrow> (db_error, u64 option) result"
  so_txo_count :: "u64 \<Rightarrow> 'db \<Rightarrow> (db_error, u64 option) result"

definition view_init :: "'db \<Rightarrow> 'e \<Rightarrow> ('db, 'e) view_sys" where
  "view_init db e =
     \<lparr>v_db = db, v_fetcher = \<lparr>fs_ingress_keys = [], fs_fetched_records = []\<rparr>, v_num_queued = 0,
      v_fetch_tracker = BlockTracker_new, v_fetch_todo = [], v_fetch_wait = None, v_fetch_pc = F_Top, v_fetch_stop = False,
      v_fetch_panicked = False,
      v_enclave = e, v_enclave_tracker = BlockTracker_new, v_worker_todo = [], v_worker_pc = W_Tick,
      v_worker_stuck = False, v_worker_panicked = False,
      v_poll = \<lparr>ps_highest_processed_block_count = 0, ps_highest_processed_block_signature_timestamp = 0,
                ps_last_known_block_count = 0, ps_last_known_block_cumulative_txo_count = 0\<rparr>,
      v_stop_requested = False, v_log = []\<rparr>"

section \<open>The fetcher thread (\<^verbatim>\<open>db_fetcher.rs\<close>)\<close>

definition load_ingress_keys :: "'db store_ops \<Rightarrow> ('db, 'e) view_sys \<Rightarrow> ('db, 'e) view_sys" where
  "load_ingress_keys S s =
     (case so_ingress_key_records S (v_db s) of
        Inr records \<Rightarrow> s\<lparr>v_fetcher := (v_fetcher s)\<lparr>fs_ingress_keys := records\<rparr>\<rparr>
      | Inl err \<Rightarrow> s)"

text \<open>
  \<^verbatim>\<open>load_block_data\<close> starts by computing the next blocks and then iterates over that hash map, in
  the order \<open>order\<close>.
\<close>

definition begin_load_block_data ::
  "((bytes \<times> u64) list \<Rightarrow> (bytes \<times> u64) list) \<Rightarrow> ('db, 'e) view_sys \<Rightarrow> ('db, 'e) view_sys"
where
  "begin_load_block_data order s =
     s\<lparr>v_fetch_todo := order (next_blocks (v_fetch_tracker s) (fs_ingress_keys (v_fetcher s)))\<rparr>"

text \<open>
  One iteration up to the wait on the limiter: \<open>v_fetch_wait = Some n\<close> is the thread at
  \<^verbatim>\<open>condvar.wait_while\<close>, about to add \<open>n\<close>.
\<close>

definition fetch_block :: "'db store_ops \<Rightarrow> bytes \<Rightarrow> u64 \<Rightarrow> ('db, 'e) view_sys \<Rightarrow> ('db, 'e) view_sys" where
  "fetch_block S ingress_key block_index s =
     (case so_tx_outs S ingress_key block_index (v_db s) of
        Inr (Some tx_outs) \<Rightarrow>
          (case block_processed ingress_key block_index (v_fetch_tracker s) of
             None \<Rightarrow> s\<lparr>v_fetch_panicked := True\<rparr>
           | Some t \<Rightarrow>
               s\<lparr>v_fetch_tracker := t,
                 v_fetcher := (v_fetcher s)\<lparr>fs_fetched_records := fs_fetched_records (v_fetcher s) @
                   [\<lparr>fr_ingress_key = ingress_key, fr_block_index = block_index, fr_records = tx_outs\<rparr>]\<rparr>,
                 v_fetch_wait := Some (length tx_outs)\<rparr>)
      | Inr None \<Rightarrow> s
      | Inl err \<Rightarrow> s)"

definition limiter_pass :: "('db, 'e) view_sys \<Rightarrow> ('db, 'e) view_sys" where
  "limiter_pass s =
     (case v_fetch_wait s of
        Some n \<Rightarrow> if v_num_queued s > MAX_QUEUED_RECORDS then s
                  else s\<lparr>v_num_queued := v_num_queued s + n, v_fetch_wait := None\<rparr>
      | None \<Rightarrow> s)"

text \<open>
  \<^verbatim>\<open>load_block_data\<close> run with nothing in between: the loop over the given entries, with the result
  whether any of them had data.
\<close>

fun load_block_data ::
  "'db store_ops \<Rightarrow> (bytes \<times> u64) list \<Rightarrow> ('db, 'e) view_sys \<Rightarrow> bool \<times> ('db, 'e) view_sys"
where
  "load_block_data S [] s = (False, s)"
| "load_block_data S ((k, b) # todo) s =
     (let more = (case so_tx_outs S k b (v_db s) of Inr (Some _) \<Rightarrow> True | _ \<Rightarrow> False);
          (more', s') = load_block_data S todo (limiter_pass (fetch_block S k b s))
      in (more \<or> more', s'))"

section \<open>The poll worker (\<^verbatim>\<open>server.rs\<close>)\<close>

text \<open>\<^verbatim>\<open>get_pending_fetched_records\<close>: first the queue is taken, then the limiter is reset.\<close>

definition take_fetched_records :: "('db, 'e) view_sys \<Rightarrow> ('db, 'e) view_sys" where
  "take_fetched_records s =
     s\<lparr>v_worker_todo := fs_fetched_records (v_fetcher s),
       v_fetcher := (v_fetcher s)\<lparr>fs_fetched_records := []\<rparr>, v_worker_pc := W_Reset\<rparr>"

definition reset_limiter :: "('db, 'e) view_sys \<Rightarrow> ('db, 'e) view_sys" where
  "reset_limiter s = s\<lparr>v_num_queued := 0, v_worker_pc := W_Adding\<rparr>"

text \<open>A failure of the enclave leaves the thread logging forever: \<open>v_worker_stuck\<close>.\<close>

definition add_records_to_enclave ::
  "(ETxOutRecord list \<Rightarrow> 'e \<Rightarrow> ('err, unit) result \<times> 'e) \<Rightarrow> FetchedRecords \<Rightarrow> ('db, 'e) view_sys \<Rightarrow> ('db, 'e) view_sys"
where
  "add_records_to_enclave add_records r s =
     (case add_records (fr_records r) (v_enclave s) of
        (Inl err, e) \<Rightarrow> s\<lparr>v_enclave := e, v_worker_stuck := True\<rparr>
      | (Inr _, e) \<Rightarrow>
          (case block_processed (fr_ingress_key r) (fr_block_index r) (v_enclave_tracker s) of
             None \<Rightarrow> s\<lparr>v_enclave := e, v_worker_panicked := True\<rparr>
           | Some t \<Rightarrow> s\<lparr>v_enclave := e, v_enclave_tracker := t, v_log := v_log s @ [r]\<rparr>))"

text \<open>
  \<^verbatim>\<open>DbFetcher::stop\<close>, which \<^verbatim>\<open>tick\<close> calls when a stop was requested: the fetcher's flag is set and its
  thread is joined. The join returns when that thread has finished or panicked.
\<close>

definition fetcher_stop :: "('db, 'e) view_sys \<Rightarrow> ('db, 'e) view_sys" where
  "fetcher_stop s = s\<lparr>v_fetch_stop := True, v_worker_pc := W_Joining\<rparr>"

definition get_block_signature_timestamp_for_block_count :: "'db store_ops \<Rightarrow> u64 \<Rightarrow> 'db \<Rightarrow> u64 option" where
  "get_block_signature_timestamp_for_block_count S block_count db =
     (if block_count \<le> 1 then None
      else case so_timestamp S (block_count - 1) db of
             Inr (Some timestamp) \<Rightarrow> Some timestamp
           | Inr None \<Rightarrow> None
           | Inl err \<Rightarrow> None)"

text \<open>
  The rest of \<^verbatim>\<open>tick\<close> after the records were added, for the counts the block tracker gives. The
  boolean is whether the assertion that the known block count only moves forward holds.
\<close>

definition publish_counts :: "'db store_ops \<Rightarrow> u64 \<Rightarrow> u64 \<Rightarrow> 'db \<Rightarrow> DbPollSharedState \<Rightarrow> bool \<times> DbPollSharedState" where
  "publish_counts S h cur db p =
     (let p1 = (if ps_highest_processed_block_count p \<noteq> h then p\<lparr>ps_highest_processed_block_count := h\<rparr> else p);
          p2 = (case get_block_signature_timestamp_for_block_count S h db of
                  Some timestamp \<Rightarrow> p1\<lparr>ps_highest_processed_block_signature_timestamp := timestamp\<rparr>
                | None \<Rightarrow> p1)
      in if ps_last_known_block_count p2 = cur then (True, p2)
         else if \<not> cur > ps_last_known_block_count p2 then (False, p2)
         else case so_txo_count S (cur - 1) db of
                Inr (Some cumulative_txo_count) \<Rightarrow>
                  (True, p2\<lparr>ps_last_known_block_count := cur,
                            ps_last_known_block_cumulative_txo_count := cumulative_txo_count\<rparr>)
              | Inr None \<Rightarrow> (True, p2)
              | Inl err \<Rightarrow> (True, p2))"

definition finish_tick :: "'db store_ops \<Rightarrow> ('db, 'e) view_sys \<Rightarrow> ('db, 'e) view_sys option" where
  "finish_tick S s =
     (case highest_fully_processed_block_count (fs_ingress_keys (v_fetcher s)) (v_enclave_tracker s) of
        None \<Rightarrow> None
      | Some ((h, reason), t) \<Rightarrow>
          (case publish_counts S h (highest_known_block_count t) (v_db s) (v_poll s) of
             (ok, p) \<Rightarrow> Some (s\<lparr>v_enclave_tracker := t, v_poll := p, v_worker_pc := W_Tick,
                               v_worker_panicked := \<not> ok\<rparr>)))"

section \<open>Interleaved steps\<close>

inductive view_step ::
  "'db store_ops \<Rightarrow> ('db \<Rightarrow> 'db \<Rightarrow> bool) \<Rightarrow> (ETxOutRecord list \<Rightarrow> 'e \<Rightarrow> ('err, unit) result \<times> 'e)
     \<Rightarrow> ('e \<Rightarrow> 'e \<Rightarrow> bool) \<Rightarrow> ('db, 'e) view_sys \<Rightarrow> ('db, 'e) view_sys \<Rightarrow> bool"
  for S dbstep add_records query
where
  vs_db: "dbstep (v_db s) db' \<Longrightarrow> view_step S dbstep add_records query s (s\<lparr>v_db := db'\<rparr>)"
| vs_query: "query (v_enclave s) e \<Longrightarrow> view_step S dbstep add_records query s (s\<lparr>v_enclave := e\<rparr>)"
| vs_stop: "view_step S dbstep add_records query s (s\<lparr>v_stop_requested := True\<rparr>)"
| vs_fetch_top:
    "\<lbrakk>\<not> v_fetch_panicked s; v_fetch_pc s = F_Top\<rbrakk> \<Longrightarrow>
       view_step S dbstep add_records query s (s\<lparr>v_fetch_pc := if v_fetch_stop s then F_Done else F_Keys\<rparr>)"
| vs_load_keys:
    "\<lbrakk>\<not> v_fetch_panicked s; v_fetch_pc s = F_Keys\<rbrakk> \<Longrightarrow>
       view_step S dbstep add_records query s ((load_ingress_keys S s)\<lparr>v_fetch_pc := F_Load\<rparr>)"
| vs_begin_load:
    "\<lbrakk>\<not> v_fetch_panicked s; v_fetch_pc s = F_Load; permutes order\<rbrakk> \<Longrightarrow>
       view_step S dbstep add_records query s ((begin_load_block_data order s)\<lparr>v_fetch_pc := F_Round False\<rparr>)"
| vs_fetch:
    "\<lbrakk>\<not> v_fetch_panicked s; v_fetch_pc s = F_Round more_work; v_fetch_wait s = None; v_fetch_todo s = (k, b) # todo;
      s1 = (fetch_block S k b s)\<lparr>v_fetch_todo := todo\<rparr>\<rbrakk> \<Longrightarrow>
       view_step S dbstep add_records query s (s1\<lparr>v_fetch_pc := F_Round (more_work \<or> v_fetch_wait s1 \<noteq> None)\<rparr>)"
| vs_limiter:
    "\<lbrakk>\<not> v_fetch_panicked s; v_fetch_wait s = Some n\<rbrakk> \<Longrightarrow>
       view_step S dbstep add_records query s (limiter_pass s)"
| vs_round_end:
    "\<lbrakk>\<not> v_fetch_panicked s; v_fetch_pc s = F_Round more_work; v_fetch_wait s = None; v_fetch_todo s = []\<rbrakk> \<Longrightarrow>
       view_step S dbstep add_records query s (s\<lparr>v_fetch_pc := if more_work \<and> \<not> v_fetch_stop s then F_Load else F_Top\<rparr>)"
| vs_take:
    "\<lbrakk>\<not> v_worker_panicked s; \<not> v_worker_stuck s; v_worker_pc s = W_Tick; \<not> v_stop_requested s\<rbrakk> \<Longrightarrow>
       view_step S dbstep add_records query s (take_fetched_records s)"
| vs_stopped:
    "\<lbrakk>\<not> v_worker_panicked s; \<not> v_worker_stuck s; v_worker_pc s = W_Tick; v_stop_requested s\<rbrakk> \<Longrightarrow>
       view_step S dbstep add_records query s (fetcher_stop s)"
| vs_joined:
    "\<lbrakk>v_worker_pc s = W_Joining; v_fetch_pc s = F_Done \<or> v_fetch_panicked s\<rbrakk> \<Longrightarrow>
       view_step S dbstep add_records query s (s\<lparr>v_worker_pc := W_Stopped\<rparr>)"
| vs_reset:
    "\<lbrakk>\<not> v_worker_panicked s; \<not> v_worker_stuck s; v_worker_pc s = W_Reset\<rbrakk> \<Longrightarrow>
       view_step S dbstep add_records query s (reset_limiter s)"
| vs_add:
    "\<lbrakk>\<not> v_worker_panicked s; \<not> v_worker_stuck s; v_worker_pc s = W_Adding; \<not> v_stop_requested s;
      v_worker_todo s = r # todo\<rbrakk> \<Longrightarrow>
       view_step S dbstep add_records query s
         (let s1 = add_records_to_enclave add_records r s
          in if v_worker_stuck s1 then s1 else s1\<lparr>v_worker_todo := todo\<rparr>)"
| vs_finish:
    "\<lbrakk>\<not> v_worker_panicked s; \<not> v_worker_stuck s; v_worker_pc s = W_Adding;
      v_worker_todo s = [] \<or> v_stop_requested s; finish_tick S s = Some s'\<rbrakk> \<Longrightarrow>
       view_step S dbstep add_records query s s'"

text \<open>\<^verbatim>\<open>DbPollThread::stop\<close> returns once the worker's thread has finished or panicked.\<close>

definition poll_thread_ended :: "('db, 'e) view_sys \<Rightarrow> bool" where
  "poll_thread_ended s \<longleftrightarrow> v_worker_pc s = W_Stopped \<or> v_worker_panicked s"

definition view_reachable ::
  "'db store_ops \<Rightarrow> ('db \<Rightarrow> 'db \<Rightarrow> bool) \<Rightarrow> (ETxOutRecord list \<Rightarrow> 'e \<Rightarrow> ('err, unit) result \<times> 'e)
     \<Rightarrow> ('e \<Rightarrow> 'e \<Rightarrow> bool) \<Rightarrow> 'db \<Rightarrow> 'e \<Rightarrow> ('db, 'e) view_sys \<Rightarrow> bool"
where
  "view_reachable S dbstep add_records query db e =
     (view_step S dbstep add_records query)\<^sup>*\<^sup>* (view_init db e)"

end
