(* ===== verification/View_Enclave.thy ===== *)
theory View_Enclave
  imports Oblivious_Map View_Server
begin

text \<open>
  The view enclave, \<^verbatim>\<open>src/fog/view/enclave/impl\<close>: the store of encrypted records in an oblivious
  map (\<^verbatim>\<open>e_tx_out_store.rs\<close>), the calls of the enclave (\<^verbatim>\<open>lib.rs\<close>), and the query handler of the
  server that forwards to it (\<^verbatim>\<open>src/fog/view/server/src/fog_view_service.rs\<close>).

  The oblivious map is the argument \<open>M\<close>. The attested channel (\<^verbatim>\<open>mc_crypto_ake_enclave\<close>) is the
  argument \<open>A\<close>; \<open>dec\<close> and \<open>enc\<close> stand for \<^verbatim>\<open>mc_util_serial\<close>. A panic is the result \<open>None\<close>.
  The poisoning of a mutex, which needs an earlier panic, is not modelled.
\<close>

section \<open>The record store (\<^verbatim>\<open>e_tx_out_store.rs\<close>)\<close>

definition KeySize :: nat where
  "KeySize = 16"

definition ValueSize :: nat where
  "ValueSize = 240"

datatype AddRecordsError = KeyWrongSize | KeyRejected | ValueTooLarge | ValueWrongSize | MapOverflow u64 u64

record 'm ETxOutStore =
  es_omap :: 'm
  last_ciphertext_size_byte :: u8

definition ETxOutStore_new :: "'m omap_ops \<Rightarrow> u64 \<Rightarrow> 'm ETxOutStore" where
  "ETxOutStore_new M desired_capacity =
     \<lparr>es_omap = om_create M desired_capacity, last_ciphertext_size_byte = 0\<rparr>"

text \<open>
  The value written to the map: the size byte, the ciphertext, and the zeroes the buffer is
  initialised with. Since \<^verbatim>\<open>value[0]\<close> is a byte, \<open>data_end\<close> is computed from it as the code does.
\<close>

definition encode_value :: "bytes \<Rightarrow> bytes" where
  "encode_value ciphertext =
     (let size_byte = of_nat (ValueSize - 1 - length ciphertext) :: u8;
          data_end = ValueSize - unat size_byte
      in size_byte # ciphertext @ replicate (ValueSize - data_end) 0)"

definition add_record ::
  "'m omap_ops \<Rightarrow> bytes \<Rightarrow> bytes \<Rightarrow> 'm ETxOutStore \<Rightarrow> (AddRecordsError, unit) result option \<times> 'm ETxOutStore"
where
  "add_record M skey ciphertext self =
     (if length skey \<noteq> KeySize then (Some (Err KeyWrongSize), self)
      else if length ciphertext > ValueSize - 1 then (Some (Err ValueTooLarge), self)
      else if length ciphertext < ValueSize - 256 then (Some (Err ValueWrongSize), self)
      else let value = encode_value ciphertext;
               (code, m) = om_vartime_write M skey value True (es_omap self);
               self' = \<lparr>es_omap = m, last_ciphertext_size_byte = hd value\<rparr>
           in if code = OMAP_INVALID_KEY then (Some (Err KeyRejected), self')
              else if code = OMAP_OVERFLOW then (Some (Err (MapOverflow (om_len M m) (om_capacity M m))), self')
              else if code = OMAP_FOUND then (Some (Ok ()), self')
              else if code \<noteq> OMAP_NOT_FOUND then (None, self')
              else (Some (Ok ()), self'))"

text \<open>
  \<^verbatim>\<open>find_record\<close> allocates \<^verbatim>\<open>ValueSize - 1 - size_byte\<close> bytes, which does not succeed when the
  subtraction wraps.
\<close>

definition find_record ::
  "'m omap_ops \<Rightarrow> bytes \<Rightarrow> 'm ETxOutStore \<Rightarrow> TxOutSearchResult option \<times> 'm ETxOutStore"
where
  "find_record M skey self =
     (if unat (last_ciphertext_size_byte self) > ValueSize - 1 then (None, self)
      else if length skey \<noteq> KeySize
      then (Some \<lparr>sr_search_key = skey, sr_result_code = code_as_u32 BadSearchKey,
                  sr_ciphertext = replicate (ValueSize - 1 - unat (last_ciphertext_size_byte self)) 0\<rparr>, self)
      else let ((code, value), m) =
                 om_read M skey (last_ciphertext_size_byte self # replicate (ValueSize - 1) 0) (es_omap self);
               result_code = (if code = OMAP_FOUND then code_as_u32 Found
                              else if code = OMAP_NOT_FOUND then code_as_u32 NotFound
                              else if code = OMAP_INVALID_KEY then code_as_u32 BadSearchKey
                              else code_as_u32 InternalError);
               self' = self\<lparr>es_omap := m\<rparr>
           in if unat (hd value) > ValueSize - 1 then (None, self')
              else (Some \<lparr>sr_search_key = skey, sr_result_code = result_code,
                          sr_ciphertext = take (ValueSize - 1 - unat (hd value)) (tl value)\<rparr>, self'))"

section \<open>The calls of the enclave (\<^verbatim>\<open>lib.rs\<close>)\<close>

datatype 'ae view_error =
    VE_ProstDecode
  | VE_AttestEnclave 'ae
  | VE_AddRecords AddRecordsError
  | VE_EnclaveNotInitialized
  | VE_Sgx

text \<open>The attested channel: an opaque state and the calls the enclave makes on it.\<close>

record ('a, 'id, 'msg, 'ch, 'ae) ake_ops =
  ake_init :: "'id \<Rightarrow> 'a \<Rightarrow> ('ae, unit) result \<times> 'a"
  client_accept :: "bytes \<Rightarrow> 'a \<Rightarrow> ('ae, bytes \<times> 'ch) result \<times> 'a"
  client_close :: "'ch \<Rightarrow> 'a \<Rightarrow> ('ae, unit) result \<times> 'a"
  channel_id :: "'msg \<Rightarrow> 'ch"
  client_decrypt :: "'msg \<Rightarrow> 'a \<Rightarrow> ('ae, bytes) result \<times> 'a"
  client_encrypt :: "'ch \<Rightarrow> bytes \<Rightarrow> bytes \<Rightarrow> 'a \<Rightarrow> ('ae, bytes) result \<times> 'a"

record ('m, 'a) ViewEnclave =
  e_tx_out_store :: "'m ETxOutStore option"
  ve_ake :: 'a

record UntrustedQueryResponse =
  uq_user_events :: "FogUserEvent list"
  uq_next_start_from_user_event_id :: i64
  uq_highest_processed_block_count :: u64
  uq_highest_processed_block_signature_timestamp :: u64
  uq_last_known_block_count :: u64
  uq_last_known_block_cumulative_txo_count :: u64

definition ViewEnclave_new :: "'a \<Rightarrow> ('m, 'a) ViewEnclave" where
  "ViewEnclave_new a = \<lparr>e_tx_out_store = None, ve_ake = a\<rparr>"

definition ViewEnclave_init ::
  "'m omap_ops \<Rightarrow> ('a, 'id, 'msg, 'ch, 'ae) ake_ops \<Rightarrow> 'id \<Rightarrow> u64 \<Rightarrow> ('m, 'a) ViewEnclave
     \<Rightarrow> ('ae view_error, unit) result \<times> ('m, 'a) ViewEnclave"
where
  "ViewEnclave_init M A self_client_id desired_capacity self =
     (case ake_init A self_client_id (ve_ake self) of
        (Inl e, a) \<Rightarrow> (Err (VE_AttestEnclave e), self\<lparr>ve_ake := a\<rparr>)
      | (Inr _, a) \<Rightarrow>
          (Ok (), self\<lparr>ve_ake := a, e_tx_out_store := Some (ETxOutStore_new M desired_capacity)\<rparr>))"

definition ViewEnclave_client_accept ::
  "('a, 'id, 'msg, 'ch, 'ae) ake_ops \<Rightarrow> bytes \<Rightarrow> ('m, 'a) ViewEnclave
     \<Rightarrow> ('ae view_error, bytes \<times> 'ch) result \<times> ('m, 'a) ViewEnclave"
where
  "ViewEnclave_client_accept A req self =
     (case client_accept A req (ve_ake self) of
        (r, a) \<Rightarrow> (case_sum (\<lambda>e. Err (VE_AttestEnclave e)) Ok r, self\<lparr>ve_ake := a\<rparr>))"

definition ViewEnclave_client_close ::
  "('a, 'id, 'msg, 'ch, 'ae) ake_ops \<Rightarrow> 'ch \<Rightarrow> ('m, 'a) ViewEnclave
     \<Rightarrow> ('ae view_error, unit) result \<times> ('m, 'a) ViewEnclave"
where
  "ViewEnclave_client_close A channel self =
     (case client_close A channel (ve_ake self) of
        (r, a) \<Rightarrow> (case_sum (\<lambda>e. Err (VE_AttestEnclave e)) Ok r, self\<lparr>ve_ake := a\<rparr>))"

text \<open>The loop of \<^verbatim>\<open>add_records\<close>: it stops at the first record that fails.\<close>

fun add_each ::
  "'m omap_ops \<Rightarrow> ETxOutRecord list \<Rightarrow> 'm ETxOutStore \<Rightarrow> (AddRecordsError, unit) result option \<times> 'm ETxOutStore"
where
  "add_each M [] store = (Some (Ok ()), store)"
| "add_each M (rec # recs) store =
     (case add_record M (search_key rec) (payload rec) store of
        (Some (Inr _), store') \<Rightarrow> add_each M recs store'
      | (r, store') \<Rightarrow> (r, store'))"

definition add_records ::
  "'m omap_ops \<Rightarrow> ETxOutRecord list \<Rightarrow> ('m, 'a) ViewEnclave
     \<Rightarrow> ('ae view_error, unit) result option \<times> ('m, 'a) ViewEnclave"
where
  "add_records M records self =
     (case e_tx_out_store self of
        None \<Rightarrow> (Some (Err VE_EnclaveNotInitialized), self)
      | Some store \<Rightarrow>
          (case add_each M records store of
             (r, store') \<Rightarrow>
               (map_option (case_sum (\<lambda>e. Err (VE_AddRecords e)) Ok) r, self\<lparr>e_tx_out_store := Some store'\<rparr>)))"

text \<open>The call as the server sees it: an enclave that panicked answers with an SGX error.\<close>

definition ecall_add_records ::
  "'m omap_ops \<Rightarrow> ETxOutRecord list \<Rightarrow> ('m, 'a) ViewEnclave
     \<Rightarrow> ('ae view_error, unit) result \<times> ('m, 'a) ViewEnclave"
where
  "ecall_add_records M records self =
     (case add_records M records self of (None, self') \<Rightarrow> (Err VE_Sgx, self') | (Some r, self') \<Rightarrow> (r, self'))"

text \<open>The loop over the search keys of a request.\<close>

fun find_each ::
  "'m omap_ops \<Rightarrow> bytes list \<Rightarrow> 'm ETxOutStore \<Rightarrow> TxOutSearchResult list option \<times> 'm ETxOutStore"
where
  "find_each M [] store = (Some [], store)"
| "find_each M (k # ks) store =
     (case find_record M k store of
        (None, store') \<Rightarrow> (None, store')
      | (Some r, store') \<Rightarrow>
          (case find_each M ks store' of
             (None, store'') \<Rightarrow> (None, store'')
           | (Some rs, store'') \<Rightarrow> (Some (r # rs), store'')))"

text \<open>The loop of \<^verbatim>\<open>query\<close> that sorts the user events by kind.\<close>

fun sort_events ::
  "FogUserEvent list \<Rightarrow> BlockRange list \<times> RngRecord list \<times> DecommissionedIngestInvocation list
     \<Rightarrow> BlockRange list \<times> RngRecord list \<times> DecommissionedIngestInvocation list"
where
  "sort_events [] (missed, rngs, decs) = (missed, rngs, decs)"
| "sort_events (NewRngRecord r # es) (missed, rngs, decs) = sort_events es (missed, rngs @ [r], decs)"
| "sort_events (DecommissionIngestInvocation d # es) (missed, rngs, decs) = sort_events es (missed, rngs, decs @ [d])"
| "sort_events (MissingBlocks b # es) (missed, rngs, decs) = sort_events es (missed @ [b], rngs, decs)"

definition response_of :: "UntrustedQueryResponse \<Rightarrow> TxOutSearchResult list \<Rightarrow> QueryResponse" where
  "response_of u results =
     (case sort_events (uq_user_events u) ([], [], []) of
        (missed, rngs, decs) \<Rightarrow>
          \<lparr>highest_processed_block_count = uq_highest_processed_block_count u,
           highest_processed_block_signature_timestamp = uq_highest_processed_block_signature_timestamp u,
           next_start_from_user_event_id = uq_next_start_from_user_event_id u,
           missed_block_ranges = missed, rng_records = rngs, decommissioned_ingest_invocations = decs,
           tx_out_search_results = results,
           last_known_block_count = uq_last_known_block_count u,
           last_known_block_cumulative_txo_count = uq_last_known_block_cumulative_txo_count u\<rparr>)"

definition enclave_query ::
  "'m omap_ops \<Rightarrow> ('a, 'id, 'msg, 'ch, 'ae) ake_ops \<Rightarrow> (bytes \<Rightarrow> QueryRequest option) \<Rightarrow> (QueryResponse \<Rightarrow> bytes)
     \<Rightarrow> 'msg \<Rightarrow> UntrustedQueryResponse \<Rightarrow> ('m, 'a) ViewEnclave
     \<Rightarrow> ('ae view_error, bytes) result option \<times> ('m, 'a) ViewEnclave"
where
  "enclave_query M A dec enc msg u self =
     (case client_decrypt A msg (ve_ake self) of
        (Inl e, a) \<Rightarrow> (Some (Err (VE_AttestEnclave e)), self\<lparr>ve_ake := a\<rparr>)
      | (Inr user_plaintext, a) \<Rightarrow>
          (case dec user_plaintext of
             None \<Rightarrow> (Some (Err VE_ProstDecode), self\<lparr>ve_ake := a\<rparr>)
           | Some req \<Rightarrow>
               (case e_tx_out_store self of
                  None \<Rightarrow> (Some (Err VE_EnclaveNotInitialized), self\<lparr>ve_ake := a\<rparr>)
                | Some store \<Rightarrow>
                    (case find_each M (get_txos req) store of
                       (None, store') \<Rightarrow> (None, self\<lparr>ve_ake := a, e_tx_out_store := Some store'\<rparr>)
                     | (Some results, store') \<Rightarrow>
                         (case client_encrypt A (channel_id A msg) [] (enc (response_of u results)) a of
                            (r, a') \<Rightarrow>
                              (Some (case_sum (\<lambda>e. Err (VE_AttestEnclave e)) Ok r),
                               self\<lparr>ve_ake := a', e_tx_out_store := Some store'\<rparr>))))))"

section \<open>The query handler of the server (\<^verbatim>\<open>fog_view_service.rs\<close>)\<close>

datatype rpc_status = RPC_INVALID_ARGUMENT | RPC_INTERNAL | RPC_PERMISSION_DENIED | RPC_UNAUTHENTICATED

definition enclave_err_to_rpc_status :: "'ae view_error \<Rightarrow> rpc_status" where
  "enclave_err_to_rpc_status src = (case src of VE_ProstDecode \<Rightarrow> RPC_INVALID_ARGUMENT | _ \<Rightarrow> RPC_INTERNAL)"

definition untrusted_response :: "FogUserEvent list \<Rightarrow> i64 \<Rightarrow> DbPollSharedState \<Rightarrow> UntrustedQueryResponse" where
  "untrusted_response events next_id p =
     \<lparr>uq_user_events = events, uq_next_start_from_user_event_id = next_id,
      uq_highest_processed_block_count = ps_highest_processed_block_count p,
      uq_highest_processed_block_signature_timestamp = ps_highest_processed_block_signature_timestamp p,
      uq_last_known_block_count = ps_last_known_block_count p,
      uq_last_known_block_cumulative_txo_count = ps_last_known_block_cumulative_txo_count p\<rparr>"

text \<open>
  \<^verbatim>\<open>query_impl\<close> reads the user events from the database, then the published counts, and then calls
  the enclave; \<open>aad\<close> is the plaintext part of the message.
\<close>

definition query_impl ::
  "'m omap_ops \<Rightarrow> ('a, 'id, 'msg, 'ch, 'ae) ake_ops \<Rightarrow> (bytes \<Rightarrow> QueryRequestAAD option)
     \<Rightarrow> (bytes \<Rightarrow> QueryRequest option) \<Rightarrow> (QueryResponse \<Rightarrow> bytes)
     \<Rightarrow> (user_event_row list \<Rightarrow> user_event_row list) \<Rightarrow> bytes \<Rightarrow> 'msg \<Rightarrow> DbPollSharedState
     \<Rightarrow> recovery_db \<Rightarrow> ('m, 'a) ViewEnclave
     \<Rightarrow> (rpc_status, bytes) result option \<times> recovery_db \<times> ('m, 'a) ViewEnclave"
where
  "query_impl M A dec_aad dec enc scan aad msg poll db enclave =
     (case dec_aad aad of
        None \<Rightarrow> (Some (Err RPC_INVALID_ARGUMENT), db, enclave)
      | Some a \<Rightarrow>
          (case search_user_events scan (start_from_user_event_id a) db of
             (Inl e, db') \<Rightarrow> (Some (Err RPC_INTERNAL), db', enclave)
           | (Inr (events, next_id), db') \<Rightarrow>
               (case enclave_query M A dec enc msg (untrusted_response events next_id poll) enclave of
                  (r, enclave') \<Rightarrow>
                    (map_option (case_sum (\<lambda>e. Err (enclave_err_to_rpc_status e)) Ok) r, db', enclave'))))"

section \<open>The store refines a partial map\<close>

definition decode_value :: "bytes \<Rightarrow> bytes" where
  "decode_value v = take (ValueSize - 1 - unat (hd v)) (tl v)"

definition store_abs :: "('m \<Rightarrow> bytes \<rightharpoonup> bytes) \<Rightarrow> 'm ETxOutStore \<Rightarrow> bytes \<rightharpoonup> bytes" where
  "store_abs content st k = map_option decode_value (content (es_omap st) k)"

definition value_ok :: "bytes \<Rightarrow> bool" where
  "value_ok v \<longleftrightarrow> length v = ValueSize \<and> unat (hd v) \<le> ValueSize - 1"

definition store_inv :: "('m \<Rightarrow> bytes \<rightharpoonup> bytes) \<Rightarrow> 'm ETxOutStore \<Rightarrow> bool" where
  "store_inv content st \<longleftrightarrow>
     unat (last_ciphertext_size_byte st) \<le> ValueSize - 1 \<and>
     (\<forall>k v. content (es_omap st) k = Some v \<longrightarrow> value_ok v)"

text \<open>
  What the store answers: the stored ciphertext, or zeroes of the size of the last ciphertext that
  was stored, so that a miss has the size of a hit.
\<close>

definition miss_size :: "'m ETxOutStore \<Rightarrow> nat" where
  "miss_size st = ValueSize - 1 - unat (last_ciphertext_size_byte st)"

definition answer :: "(bytes \<rightharpoonup> bytes) \<Rightarrow> nat \<Rightarrow> bytes \<Rightarrow> TxOutSearchResult" where
  "answer m miss k =
     (if length k \<noteq> KeySize \<or> zero_key k
      then \<lparr>sr_search_key = k, sr_result_code = code_as_u32 BadSearchKey, sr_ciphertext = replicate miss 0\<rparr>
      else case m k of
             Some ct \<Rightarrow> \<lparr>sr_search_key = k, sr_result_code = code_as_u32 Found, sr_ciphertext = ct\<rparr>
           | None \<Rightarrow> \<lparr>sr_search_key = k, sr_result_code = code_as_u32 NotFound, sr_ciphertext = replicate miss 0\<rparr>)"

lemma encode_value_eq:
  assumes "length ct \<le> ValueSize - 1"
  obtains n where "n + length ct = ValueSize - 1" "encode_value ct = of_nat n # ct @ replicate n 0"
    "unat (of_nat n :: u8) = n"
proof -
  define n where "n = ValueSize - 1 - length ct"
  have n: "n \<le> ValueSize" "n < 256" by (simp_all add: n_def ValueSize_def)
  then have u: "unat (of_nat n :: u8) = n" by (simp add: unat_of_nat_u8)
  then have "encode_value ct = of_nat n # ct @ replicate n 0"
    using n(1) unfolding encode_value_def n_def [symmetric] Let_def by simp
  with u that show thesis using assms by (simp add: n_def)
qed

lemma encode_value_ok:
  assumes "length ct \<le> ValueSize - 1"
  shows "value_ok (encode_value ct)" "decode_value (encode_value ct) = ct"
    "ValueSize - 1 - unat (hd (encode_value ct)) = length ct"
proof -
  obtain n where n: "n + length ct = ValueSize - 1" "encode_value ct = of_nat n # ct @ replicate n 0"
      "unat (of_nat n :: u8) = n"
    using encode_value_eq [OF assms] .
  have "ValueSize - 1 - n = length ct" "Suc (length ct + n) = ValueSize" "n \<le> ValueSize - 1"
    using n(1) by (auto simp: ValueSize_def)
  with n(2,3) show "value_ok (encode_value ct)" "decode_value (encode_value ct) = ct"
    "ValueSize - 1 - unat (hd (encode_value ct)) = length ct"
    by (simp_all add: value_ok_def decode_value_def)
qed

lemma ETxOutStore_new_inv:
  "omap_laws ks vs M content \<Longrightarrow> store_inv content (ETxOutStore_new M n)"
  "omap_laws ks vs M content \<Longrightarrow> store_abs content (ETxOutStore_new M n) = Map.empty"
  by (auto simp: store_inv_def store_abs_def ETxOutStore_new_def omap_simps)

text \<open>The outcomes of \<open>add_record\<close>, one per branch; a panic is not among them.\<close>

lemma add_record_cases:
  assumes laws: "omap_laws KeySize ValueSize M content" and inv: "store_inv content st"
    and add: "add_record M k ct st = (r, st')"
  obtains "length k \<noteq> KeySize" "r = Some (Err KeyWrongSize)" "st' = st"
  | "length k = KeySize" "length ct > ValueSize - 1" "r = Some (Err ValueTooLarge)" "st' = st"
  | "length k = KeySize" "length ct \<le> ValueSize - 1" "zero_key k" "r = Some (Err KeyRejected)"
      "store_inv content st'" "store_abs content st' = store_abs content st"
  | n c where "length k = KeySize" "length ct \<le> ValueSize - 1" "\<not> zero_key k" "store_abs content st k = None"
      "r = Some (Err (MapOverflow n c))"
  | "length k = KeySize" "length ct \<le> ValueSize - 1" "\<not> zero_key k" "r = Some (Ok ())"
      "store_inv content st'" "store_abs content st' = (store_abs content st)(k \<mapsto> ct)"
      "miss_size st' = length ct"
proof (cases "length k = KeySize \<and> length ct \<le> ValueSize - 1")
  case False
  with add that(1,2) show thesis
    by (auto simp: add_record_def split: if_splits)
next
  case True
  obtain c m where w: "om_vartime_write M k (encode_value ct) True (es_omap st) = (c, m)"
    by (metis surj_pair)
  define st2 where "st2 = \<lparr>es_omap = m, last_ciphertext_size_byte = hd (encode_value ct)\<rparr>"
  have vo: "value_ok (encode_value ct)" "length (encode_value ct) = ValueSize"
    using True encode_value_ok by (auto simp: value_ok_def)
  have small: "\<not> length ct < ValueSize - 256" by (simp add: ValueSize_def)
  have st': "st' = st2" and r: "r = (if c = OMAP_INVALID_KEY then Some (Err KeyRejected)
       else if c = OMAP_OVERFLOW then Some (Err (MapOverflow (om_len M m) (om_capacity M m)))
       else if c = OMAP_FOUND \<or> c = OMAP_NOT_FOUND then Some (Ok ()) else None)"
    using add True w small by (auto simp: add_record_def st2_def Let_def split: if_splits)
  show thesis
  proof (rule omap_write [OF laws _ _ w])
    assume "zero_key k" "c = OMAP_INVALID_KEY" "content m = content (es_omap st)"
    with r st' True inv vo(1) show thesis
      by (intro that(3)) (auto simp: store_inv_def store_abs_def st2_def value_ok_def)
  next
    assume "\<not> zero_key k" "c = OMAP_OVERFLOW" "content (es_omap st) k = None"
    with r True show thesis by (intro that(4)) (auto simp: store_abs_def)
  next
    assume *: "\<not> zero_key k" "c = present_code (content (es_omap st)) k"
      "content m = (content (es_omap st))(k \<mapsto> encode_value ct)"
    then have "r = Some (Ok ())"
      using r by (simp add: present_code_def split: option.splits)
    moreover have "store_abs content st2 = (store_abs content st)(k \<mapsto> ct)"
      using * True by (auto simp: store_abs_def st2_def encode_value_ok)
    moreover have "miss_size st2 = length ct"
      using True encode_value_ok(3) by (simp add: miss_size_def st2_def)
    ultimately show thesis
      using * st' True inv vo(1) by (intro that(5)) (auto simp: store_inv_def st2_def value_ok_def)
  qed (use True vo in auto)
qed

lemma value_code_eqs [simp]:
  "present_code c k = OMAP_FOUND \<longleftrightarrow> c k \<noteq> None" "present_code c k = OMAP_NOT_FOUND \<longleftrightarrow> c k = None"
  by (simp_all add: present_code_def split: option.splits)

lemma find_record_answer:
  assumes laws: "omap_laws KeySize ValueSize M content" and inv: "store_inv content st"
  shows "\<exists>m. content m = content (es_omap st) \<and>
             find_record M k st = (Some (answer (store_abs content st) (miss_size st) k), st\<lparr>es_omap := m\<rparr>)"
proof (cases "length k = KeySize")
  case False
  then show ?thesis
    using inv
    by (intro exI [of _ "es_omap st"]) (simp add: find_record_def answer_def miss_size_def store_inv_def)
next
  case True
  let ?v = "last_ciphertext_size_byte st # replicate (ValueSize - 1) 0"
  let ?m = "snd (om_read M k ?v (es_omap st))"
  have len: "length ?v = ValueSize" by (simp add: ValueSize_def)
  note rd = omap_read [OF laws True len, of "es_omap st"]
  have "find_record M k st =
          (Some (answer (store_abs content st) (miss_size st) k), st\<lparr>es_omap := ?m\<rparr>)"
  proof (cases "zero_key k")
    case z: True
    then show ?thesis
      using True inv rd(2)
      by (simp add: find_record_def answer_def miss_size_def store_inv_def split_beta Let_def)
  next
    case nz: False
    show ?thesis
    proof (cases "content (es_omap st) k")
      case None
      then show ?thesis
        using True nz inv rd(2)
        by (simp add: find_record_def answer_def miss_size_def store_inv_def store_abs_def split_beta Let_def)
    next
      case (Some v)
      then have "\<not> unat (hd v) > ValueSize - 1" "\<not> unat (last_ciphertext_size_byte st) > ValueSize - 1"
        using inv by (auto simp: store_inv_def value_ok_def not_less)
      then show ?thesis
        using Some True nz rd(2)
        by (simp add: find_record_def answer_def store_abs_def decode_value_def split_beta Let_def)
    qed
  qed
  with rd(1) show ?thesis by blast
qed

lemma store_frame:
  "content m = content (es_omap st) \<Longrightarrow>
     store_inv content (st\<lparr>es_omap := m\<rparr>) = store_inv content st \<and>
     store_abs content (st\<lparr>es_omap := m\<rparr>) = store_abs content st \<and> miss_size (st\<lparr>es_omap := m\<rparr>) = miss_size st"
  by (auto simp: store_inv_def store_abs_def miss_size_def)

text \<open>The records of a list as a map; a later record with the same key wins.\<close>

definition records_map :: "ETxOutRecord list \<Rightarrow> bytes \<rightharpoonup> bytes" where
  "records_map recs = map_of (rev (map (\<lambda>r. (search_key r, payload r)) recs))"

lemma records_map_simps [simp]:
  "records_map [] = Map.empty"
  "records_map (xs @ ys) = records_map xs ++ records_map ys"
  "records_map (r # recs) = [search_key r \<mapsto> payload r] ++ records_map recs"
  by (auto simp: records_map_def)

lemma upd_records_map: "f(search_key r \<mapsto> payload r) ++ records_map recs = f ++ records_map (r # recs)"
  by (rule ext) (simp add: map_add_def split: option.splits)

lemma add_each_Ok:
  assumes "omap_laws KeySize ValueSize M content" "store_inv content st" "add_each M recs st = (Some (Ok ()), st')"
  shows "store_inv content st' \<and> store_abs content st' = store_abs content st ++ records_map recs \<and>
         miss_size st' = (if recs = [] then miss_size st else length (payload (last recs)))"
  using assms(2,3)
proof (induction recs arbitrary: st)
  case (Cons r recs)
  obtain x st1 where add: "add_record M (search_key r) (payload r) st = (x, st1)"
    by (metis surj_pair)
  have x: "x = Some (Ok ())"
    using Cons.prems(2) add by (auto split: option.splits sum.splits)
  have st1: "store_inv content st1" "store_abs content st1 = (store_abs content st)(search_key r \<mapsto> payload r)"
      "miss_size st1 = length (payload r)"
    using add x by (cases rule: add_record_cases [OF assms(1) Cons.prems(1) add]; auto)+
  have "add_each M recs st1 = (Some (Ok ()), st')"
    using Cons.prems(2) add x by simp
  from Cons.IH [OF st1(1) this] show ?case
    unfolding st1(2,3) upd_records_map by auto
qed simp

lemma add_each_valid:
  assumes "omap_laws KeySize ValueSize M content" "store_inv content st" "add_each M recs st = (Some (Ok ()), st')"
    and "r \<in> set recs"
  shows "length (search_key r) = KeySize \<and> \<not> zero_key (search_key r)"
  using assms(2-4)
proof (induction recs arbitrary: st)
  case (Cons a recs)
  obtain x st1 where add: "add_record M (search_key a) (payload a) st = (x, st1)"
    by (metis surj_pair)
  have x: "x = Some (Ok ())"
    using Cons.prems(2) add by (auto split: option.splits sum.splits)
  have "length (search_key a) = KeySize \<and> \<not> zero_key (search_key a)" "store_inv content st1"
    using add x by (cases rule: add_record_cases [OF assms(1) Cons.prems(1) add]; auto)+
  moreover have "add_each M recs st1 = (Some (Ok ()), st')"
    using Cons.prems(2) add x by simp
  ultimately show ?case using Cons by auto
qed simp

lemma find_each_answers:
  assumes "omap_laws KeySize ValueSize M content" "store_inv content st"
  shows "\<exists>m. content m = content (es_omap st) \<and>
             find_each M ks st = (Some (map (answer (store_abs content st) (miss_size st)) ks), st\<lparr>es_omap := m\<rparr>)"
  using assms(2)
proof (induction ks arbitrary: st)
  case Nil
  show ?case by (intro exI [of _ "es_omap st"]) simp
next
  case (Cons k ks)
  obtain m where m: "content m = content (es_omap st)"
      "find_record M k st = (Some (answer (store_abs content st) (miss_size st) k), st\<lparr>es_omap := m\<rparr>)"
    using find_record_answer [OF assms(1) Cons.prems] by blast
  note f = store_frame [OF m(1)]
  obtain m' where "content m' = content m"
      "find_each M ks (st\<lparr>es_omap := m\<rparr>) =
         (Some (map (answer (store_abs content st) (miss_size st)) ks), st\<lparr>es_omap := m'\<rparr>)"
    using Cons.IH [of "st\<lparr>es_omap := m\<rparr>"] Cons.prems f by auto
  with m show ?case by auto
qed

lemma sort_events_eq:
  "sort_events es (missed, rngs, decs) =
     (missed @ List.map_filter (\<lambda>e. case e of MissingBlocks b \<Rightarrow> Some b | _ \<Rightarrow> None) es,
      rngs @ List.map_filter (\<lambda>e. case e of NewRngRecord r \<Rightarrow> Some r | _ \<Rightarrow> None) es,
      decs @ List.map_filter (\<lambda>e. case e of DecommissionIngestInvocation d \<Rightarrow> Some d | _ \<Rightarrow> None) es)"
  by (induction es "(missed, rngs, decs)" arbitrary: missed rngs decs rule: sort_events.induct)
     (simp_all add: map_filter_simps)

section \<open>Properties\<close>

text \<open>
  C30: the record store is a partial map from search keys to ciphertexts of any size up to its
  limit. An accepted record is stored under its key and nothing else changes; records of a wrong
  size, and the unsupported key of zeroes, are rejected without effect on the map; the only other
  outcome is an overflow, on a new key. A lookup never panics, leaves the map as it is, and
  returns exactly the stored ciphertext, or zeroes of the size of the last stored ciphertext.
\<close>

theorem store_refines_map:
  assumes "omap_laws KeySize ValueSize M content" "store_inv content st"
  shows "(case add_record M k ct st of (r, st') \<Rightarrow>
            if length k \<noteq> KeySize then r = Some (Err KeyWrongSize) \<and> st' = st
            else if length ct > ValueSize - 1 then r = Some (Err ValueTooLarge) \<and> st' = st
            else if zero_key k
            then r = Some (Err KeyRejected) \<and> store_inv content st' \<and> store_abs content st' = store_abs content st
            else (\<exists>n c. r = Some (Err (MapOverflow n c)) \<and> store_abs content st k = None) \<or>
                 r = Some (Ok ()) \<and> store_inv content st' \<and>
                 store_abs content st' = (store_abs content st)(k \<mapsto> ct) \<and> miss_size st' = length ct) \<and>
         (case find_record M k st of (r, st') \<Rightarrow>
            r = Some (answer (store_abs content st) (miss_size st) k) \<and>
            store_inv content st' \<and> store_abs content st' = store_abs content st \<and> miss_size st' = miss_size st)"
proof -
  obtain r st' where add: "add_record M k ct st = (r, st')" by (metis surj_pair)
  obtain m where "content m = content (es_omap st)"
      "find_record M k st = (Some (answer (store_abs content st) (miss_size st) k), st\<lparr>es_omap := m\<rparr>)"
    using find_record_answer [OF assms] by blast
  then show ?thesis
    using store_frame [of content m st] assms(2) add
    by (cases rule: add_record_cases [OF assms add]) auto
qed

definition sample_search_key :: bytes where
  "sample_search_key = 1 # replicate 15 0"

theorem store_refines_map_witness:
  "case find_record table_ops sample_search_key
          (snd (add_record table_ops sample_search_key [7, 8] (ETxOutStore_new table_ops 4))) of
     (r, st) \<Rightarrow> r = Some \<lparr>sr_search_key = sample_search_key, sr_result_code = 1, sr_ciphertext = [7, 8]\<rparr>"
proof -
  let ?c = "\<lambda>m :: nat \<times> (bytes \<times> bytes) list. map_of (snd m)"
  let ?s0 = "ETxOutStore_new table_ops 4"
  let ?s1 = "snd (add_record table_ops sample_search_key [7, 8] ?s0)"
  note laws = table_laws [of KeySize ValueSize]
  have k: "length sample_search_key = KeySize" "\<not> zero_key sample_search_key"
    by (simp_all add: sample_search_key_def KeySize_def zero_key_def)
  have "fst (add_record table_ops sample_search_key [7, 8] ?s0) = Some (Ok ())"
    using k by (simp add: add_record_def ETxOutStore_new_def table_ops_def table_write_def ValueSize_def Let_def)
  then have "store_inv ?c ?s1 \<and> store_abs ?c ?s1 sample_search_key = Some [7, 8]"
    using store_refines_map [OF laws ETxOutStore_new_inv(1) [OF laws, of 4], of sample_search_key "[7, 8]"] k
    by (simp add: split_beta ValueSize_def split: if_splits)
  then show ?thesis
    using store_refines_map [OF laws, of ?s1 sample_search_key] k
    by (simp add: split_beta answer_def)
qed

end
