(* ===== verification/View_Inv.thy ===== *)
theory View_Inv
  imports View_Server Recovery_Props
begin

text \<open>
  Correctness of the view server's threads under every interleaving. The locale \<open>block_store\<close>
  is the contract of the database: what it returns for a key and block never changes, and the start
  block of a key never changes. From it follows that the fetcher and the poll worker load the
  blocks of each key in order and without gaps, that no assertion of the code can fail, and that a
  block below the published count has been loaded for every key that covers it. The locale is
  interpreted on the SQL database.
\<close>

section \<open>Consecutive block indices\<close>

fun consecutive :: "u64 list \<Rightarrow> bool" where
  "consecutive (a # b # xs) \<longleftrightarrow> b = a + 1 \<and> consecutive (b # xs)"
| "consecutive _ \<longleftrightarrow> True"

definition last_opt :: "'a list \<Rightarrow> 'a option" where
  "last_opt xs = (if xs = [] then None else Some (last xs))"

lemma last_opt_simps [simp]: "last_opt [] = None" "last_opt (xs @ [x]) = Some x" "last_opt (xs @ x # ys) = Some (last (x # ys))"
  by (auto simp: last_opt_def)

lemma consecutive_snoc:
  "consecutive (xs @ [b]) \<longleftrightarrow> consecutive xs \<and> (\<forall>a. last_opt xs = Some a \<longrightarrow> b = a + 1)"
  by (induction xs rule: consecutive.induct) (auto simp: last_opt_def)

lemma consecutive_appendD: "consecutive (xs @ ys) \<Longrightarrow> consecutive xs"
proof (induction ys rule: rev_induct)
  case (snoc y ys)
  then show ?case using consecutive_snoc [of "xs @ ys" y] by simp
qed simp

lemma consecutive_nth: "consecutive xs \<Longrightarrow> i < length xs \<Longrightarrow> xs ! i = hd xs + of_nat i"
proof (induction xs arbitrary: i rule: consecutive.induct)
  case (1 a b xs)
  then show ?case by (cases i) (auto simp: algebra_simps)
qed auto

lemma consecutive_between:
  assumes "consecutive xs" "xs \<noteq> []" "hd xs \<le> b" "b \<le> last xs"
  shows "b \<in> set xs"
proof -
  have last: "last xs = hd xs + of_nat (length xs - 1)"
    using consecutive_nth [OF assms(1), of "length xs - 1"] assms(2) by (simp add: last_conv_nth)
  have "unat (b - hd xs) \<le> unat (last xs - hd xs)"
    using assms(3,4) unat_sub [OF assms(3)] unat_sub [OF order_trans [OF assms(3,4)]]
    by (simp add: word_le_nat_alt diff_le_mono)
  also have "\<dots> \<le> length xs - 1"
    unfolding last by (simp add: unat_of_nat)
  finally have "unat (b - hd xs) < length xs" using assms(2) by (cases xs) auto
  then have "xs ! unat (b - hd xs) = b"
    using consecutive_nth [OF assms(1)] by simp
  then show ?thesis using \<open>unat (b - hd xs) < length xs\<close> by (metis nth_mem)
qed

section \<open>The enclave as a function of the loaded blocks\<close>

text \<open>
  \<open>loads add_records query e log e'\<close>: from \<open>e\<close> the records of the blocks of \<open>log\<close> were added
  in order, all with success, with queries in between.
\<close>

inductive loads ::
  "(ETxOutRecord list \<Rightarrow> 'e \<Rightarrow> ('err, unit) result \<times> 'e) \<Rightarrow> ('e \<Rightarrow> 'e \<Rightarrow> bool) \<Rightarrow> 'e \<Rightarrow> FetchedRecords list \<Rightarrow> 'e \<Rightarrow> bool"
  for add_records query e
where
  loads_nil: "loads add_records query e [] e"
| loads_query: "loads add_records query e log e' \<Longrightarrow> query e' e'' \<Longrightarrow> loads add_records query e log e''"
| loads_add: "loads add_records query e log e' \<Longrightarrow> add_records (fr_records r) e' = (Ok (), e'') \<Longrightarrow>
     loads add_records query e (log @ [r]) e''"

section \<open>The contract and the invariant\<close>

definition key_blocks :: "bytes \<Rightarrow> FetchedRecords list \<Rightarrow> u64 list" where
  "key_blocks k rs = map fr_block_index (filter (\<lambda>r. fr_ingress_key r = k) rs)"

definition in_flight :: "('db, 'e) view_sys \<Rightarrow> FetchedRecords list" where
  "in_flight s = v_log s @ v_worker_todo s @ fs_fetched_records (v_fetcher s)"

definition trackers_inv :: "('db, 'e) view_sys \<Rightarrow> bool" where
  "trackers_inv s \<longleftrightarrow>
     tracker_inv (v_fetch_tracker s) \<and> tracker_inv (v_enclave_tracker s) \<and>
     (\<forall>k. consecutive (key_blocks k (in_flight s)) \<and>
          processed (v_fetch_tracker s) k = last_opt (key_blocks k (in_flight s)) \<and>
          processed (v_enclave_tracker s) k = last_opt (key_blocks k (v_log s)))"

definition contents_inv ::
  "('db \<Rightarrow> bytes \<Rightarrow> u64 \<Rightarrow> ETxOutRecord list option) \<Rightarrow> ('db \<Rightarrow> bytes \<Rightarrow> u64 option) \<Rightarrow> ('db, 'e) view_sys \<Rightarrow> bool"
where
  "contents_inv content key_start s \<longleftrightarrow>
     (\<forall>r \<in> set (in_flight s). content (v_db s) (fr_ingress_key r) (fr_block_index r) = Some (fr_records r)) \<and>
     (\<forall>k. key_blocks k (in_flight s) \<noteq> [] \<longrightarrow> key_start (v_db s) k = Some (hd (key_blocks k (in_flight s)))) \<and>
     (\<forall>rec \<in> set (fs_ingress_keys (v_fetcher s)).
        key_start (v_db s) (key rec) = Some (st_start_block (status rec))) \<and>
     distinct (map fst (v_fetch_todo s)) \<and>
     (\<forall>(k, b) \<in> set (v_fetch_todo s). \<exists>start. key_start (v_db s) k = Some start \<and>
        b = (case processed (v_fetch_tracker s) k of None \<Rightarrow> start | Some p \<Rightarrow> p + 1))"

definition counts_inv :: "('db, 'e) view_sys \<Rightarrow> bool" where
  "counts_inv s \<longleftrightarrow>
     \<not> v_fetch_panicked s \<and> \<not> v_worker_panicked s \<and>
     (v_worker_pc s = W_Tick \<longrightarrow> v_stop_requested s \<or> v_worker_todo s = []) \<and>
     last_highest_processed_block_count (v_enclave_tracker s) \<le> highest_known_block_count (v_enclave_tracker s) \<and>
     ps_last_known_block_count (v_poll s) \<le> highest_known_block_count (v_enclave_tracker s)"

definition view_inv ::
  "('db \<Rightarrow> bool) \<Rightarrow> ('db \<Rightarrow> bytes \<Rightarrow> u64 \<Rightarrow> ETxOutRecord list option) \<Rightarrow> ('db \<Rightarrow> bytes \<Rightarrow> u64 option)
     \<Rightarrow> ('db, 'e) view_sys \<Rightarrow> bool"
where
  "view_inv dbinv content key_start s \<longleftrightarrow>
     dbinv (v_db s) \<and> trackers_inv s \<and> contents_inv content key_start s \<and> counts_inv s"

lemmas view_inv_defs = trackers_inv_def contents_inv_def counts_inv_def in_flight_def

lemma key_blocks_append [simp]: "key_blocks k (xs @ ys) = key_blocks k xs @ key_blocks k ys"
  by (simp add: key_blocks_def)

lemma key_blocks_single [simp]:
  "key_blocks k [r] = (if fr_ingress_key r = k then [fr_block_index r] else [])" "key_blocks k [] = []"
  by (simp_all add: key_blocks_def)

lemma key_blocks_Cons:
  "key_blocks k (r # rs) = (if fr_ingress_key r = k then [fr_block_index r] else []) @ key_blocks k rs"
  by (simp add: key_blocks_def)

lemma key_blocks_mem: "b \<in> set (key_blocks k rs) \<longleftrightarrow> (\<exists>r \<in> set rs. fr_ingress_key r = k \<and> fr_block_index r = b)"
  by (auto simp: key_blocks_def)

lemma view_inv_frame [simp]:
  "view_inv dbinv content key_start (s\<lparr>v_worker_stuck := b\<rparr>) = view_inv dbinv content key_start s"
  "view_inv dbinv content key_start (s\<lparr>v_enclave := e\<rparr>) = view_inv dbinv content key_start s"
  "view_inv dbinv content key_start (s\<lparr>v_num_queued := n\<rparr>) = view_inv dbinv content key_start s"
  "view_inv dbinv content key_start (s\<lparr>v_fetch_wait := w\<rparr>) = view_inv dbinv content key_start s"
  "view_inv dbinv content key_start (s\<lparr>v_fetch_pc := p\<rparr>) = view_inv dbinv content key_start s"
  "view_inv dbinv content key_start (s\<lparr>v_fetch_stop := b\<rparr>) = view_inv dbinv content key_start s"
  by (simp_all add: view_inv_def view_inv_defs)

lemma view_inv_trackers:
  assumes "view_inv dbinv content key_start s"
  shows "tracker_inv (v_fetch_tracker s)" "tracker_inv (v_enclave_tracker s)"
    "consecutive (key_blocks k (in_flight s))"
    "processed (v_fetch_tracker s) k = last_opt (key_blocks k (in_flight s))"
    "processed (v_enclave_tracker s) k = last_opt (key_blocks k (v_log s))"
  using assms by (simp_all add: view_inv_def trackers_inv_def)

lemma view_inv_no_panic:
  assumes "view_inv dbinv content key_start s"
  shows "\<not> v_worker_panicked s" "\<not> v_fetch_panicked s"
  using assms by (simp_all add: view_inv_def counts_inv_def)

lemma view_inv_log_start:
  assumes "view_inv dbinv content key_start s" "key_blocks k (v_log s) \<noteq> []"
  shows "key_start (v_db s) k = Some (hd (key_blocks k (v_log s)))"
proof -
  have "\<forall>k. key_blocks k (in_flight s) \<noteq> [] \<longrightarrow> key_start (v_db s) k = Some (hd (key_blocks k (in_flight s)))"
    using assms(1) by (simp add: view_inv_def contents_inv_def)
  from spec [OF this, of k] show ?thesis using assms(2) by (simp add: in_flight_def)
qed

lemma publish_counts_highest:
  "ps_highest_processed_block_count (snd (publish_counts S h cur db p)) = h"
  by (auto simp: publish_counts_def Let_def split: option.splits sum.splits)

lemma finish_tick_highest:
  assumes "highest_fully_processed_block_count (fs_ingress_keys (v_fetcher s)) (v_enclave_tracker s) =
     Some ((h, reason), t)"
  obtains s' where "finish_tick S s = Some s'" "ps_highest_processed_block_count (v_poll s') = h"
proof -
  obtain ok p where pc: "publish_counts S h (highest_known_block_count t) (v_db s) (v_poll s) = (ok, p)"
    by (cases "publish_counts S h (highest_known_block_count t) (v_db s) (v_poll s)")
  then have "ps_highest_processed_block_count p = h"
    using publish_counts_highest [of S h "highest_known_block_count t" "v_db s" "v_poll s"] by simp
  then show thesis using that assms pc by (simp add: finish_tick_def)
qed

locale block_store =
  fixes S :: "'db store_ops"
    and dbstep :: "'db \<Rightarrow> 'db \<Rightarrow> bool"
    and dbinv :: "'db \<Rightarrow> bool"
    and content :: "'db \<Rightarrow> bytes \<Rightarrow> u64 \<Rightarrow> ETxOutRecord list option"
    and key_start :: "'db \<Rightarrow> bytes \<Rightarrow> u64 option"
  assumes dbinv_step: "dbinv db \<Longrightarrow> dbstep db db' \<Longrightarrow> dbinv db'"
    and tx_outs_content: "dbinv db \<Longrightarrow> so_tx_outs S k b db = Ok (Some txs) \<Longrightarrow> content db k b = Some txs"
    and content_step: "dbinv db \<Longrightarrow> dbstep db db' \<Longrightarrow> content db k b = Some txs \<Longrightarrow> content db' k b = Some txs"
    and content_index: "dbinv db \<Longrightarrow> content db k b = Some txs \<Longrightarrow> unat b < 2 ^ 63"
    and records_start: "dbinv db \<Longrightarrow> so_ingress_key_records S db = Ok recs \<Longrightarrow> rec \<in> set recs \<Longrightarrow>
          key_start db (key rec) = Some (st_start_block (status rec))"
    and start_step: "dbinv db \<Longrightarrow> dbstep db db' \<Longrightarrow> key_start db k = Some start \<Longrightarrow> key_start db' k = Some start"
begin

lemma view_inv_init: "dbinv db \<Longrightarrow> view_inv dbinv content key_start (view_init db e)"
  by (simp add: view_inv_def view_inv_defs view_init_def highest_known_block_count_def BlockTracker_new_def
      tracker_inv_def processed_def)

lemma processed_index:
  assumes "view_inv dbinv content key_start s" "processed (v_enclave_tracker s) k = Some b"
  shows "unat b < 2 ^ 63"
proof -
  have "b \<in> set (key_blocks k (v_log s))"
    using assms by (auto simp: view_inv_def trackers_inv_def last_opt_def split: if_splits)
  then obtain r where "r \<in> set (in_flight s)" "fr_block_index r = b"
    by (auto simp: key_blocks_mem in_flight_def)
  then show ?thesis using assms(1) content_index by (auto simp: view_inv_def contents_inv_def)
qed

lemma known_count_below_max:
  assumes "view_inv dbinv content key_start s"
  shows "highest_known_block_count (v_enclave_tracker s) \<noteq> -1"
proof -
  have "tracker_inv (v_enclave_tracker s)" using assms by (simp add: view_inv_def trackers_inv_def)
  from highest_known_attained [OF this] show ?thesis
  proof
    assume "\<exists>k b. processed (v_enclave_tracker s) k = Some b \<and>
                  highest_known_block_count (v_enclave_tracker s) = b + 1"
    then obtain b where b: "unat b < 2 ^ 63" "highest_known_block_count (v_enclave_tracker s) = b + 1"
      using processed_index [OF assms] by blast
    then have "b \<noteq> -1" by (auto simp: u64_max_iff)
    from unat_plus_one [OF this] b show ?thesis by (auto simp: u64_max_iff)
  qed simp
qed

lemma view_inv_db: "view_inv dbinv content key_start s \<Longrightarrow> dbstep (v_db s) db' \<Longrightarrow> view_inv dbinv content key_start (s\<lparr>v_db := db'\<rparr>)"
  unfolding view_inv_def view_inv_defs
  by (auto simp: dbinv_step content_step start_step)

lemma view_inv_load_keys:
  assumes "view_inv dbinv content key_start s"
  shows "view_inv dbinv content key_start (load_ingress_keys S s)"
  using assms records_start
  by (auto simp: load_ingress_keys_def view_inv_def view_inv_defs split: sum.splits)

lemma view_inv_begin_load:
  assumes inv: "view_inv dbinv content key_start s" and "permutes order"
  shows "view_inv dbinv content key_start (begin_load_block_data order s)"
proof -
  let ?nb = "next_blocks (v_fetch_tracker s) (fs_ingress_keys (v_fetcher s))"
  have "\<exists>start. key_start (v_db s) k = Some start \<and>
      b = (case processed (v_fetch_tracker s) k of None \<Rightarrow> start | Some p \<Rightarrow> p + 1)" if "(k, b) \<in> set ?nb" for k b
    using next_blocks_sound(2) [OF that] inv
    by (auto simp: view_inv_def contents_inv_def next_block_of_Some split: option.splits)
  then show ?thesis
    using inv assms(2)
    by (auto simp: view_inv_def view_inv_defs begin_load_block_data_def next_blocks_sound(1)
        permutes_distinct_map [OF assms(2)])
qed

lemma view_inv_fetch:
  assumes inv: "view_inv dbinv content key_start s" and todo: "v_fetch_todo s = (k, b) # todo"
  shows "view_inv dbinv content key_start ((fetch_block S k b s)\<lparr>v_fetch_todo := todo\<rparr>)"
proof (cases "\<exists>txs. so_tx_outs S k b (v_db s) = Ok (Some txs)")
  case False
  then have "fetch_block S k b s = s" by (auto simp: fetch_block_def split: sum.splits option.splits)
  then show ?thesis using inv todo by (auto simp: view_inv_def view_inv_defs)
next
  case True
  then obtain txs where txs: "so_tx_outs S k b (v_db s) = Ok (Some txs)" by blast
  have c: "content (v_db s) k b = Some txs"
    using txs inv by (auto simp: view_inv_def intro: tx_outs_content)
  obtain start where start: "key_start (v_db s) k = Some start"
    "b = (case processed (v_fetch_tracker s) k of None \<Rightarrow> start | Some p \<Rightarrow> p + 1)"
    using inv todo by (auto simp: view_inv_def contents_inv_def)
  then obtain t where t: "block_processed k b (v_fetch_tracker s) = Some t"
    using block_processed_ok [of "v_fetch_tracker s" k b] by auto
  note bp = block_processed_Some [OF t]
  have last: "last_opt (key_blocks k (in_flight s)) = processed (v_fetch_tracker s) k"
    and first: "key_blocks k (in_flight s) \<noteq> [] \<Longrightarrow> hd (key_blocks k (in_flight s)) = start"
    using inv start(1) by (simp_all add: view_inv_def trackers_inv_def contents_inv_def)
  let ?r = "\<lparr>fr_ingress_key = k, fr_block_index = b, fr_records = txs\<rparr>"
  let ?s = "(fetch_block S k b s)\<lparr>v_fetch_todo := todo\<rparr>"
  have s': "?s = s\<lparr>v_fetch_tracker := t, v_fetch_wait := Some (length txs), v_fetch_todo := todo,
      v_fetcher := (v_fetcher s)\<lparr>fs_fetched_records := fs_fetched_records (v_fetcher s) @ [?r]\<rparr>\<rparr>"
    using txs t by (simp add: fetch_block_def)
  have fl: "in_flight ?s = in_flight s @ [?r]" by (simp add: s' in_flight_def)
  have nxt: "\<forall>a. last_opt (key_blocks k (in_flight s)) = Some a \<longrightarrow> b = a + 1"
    using start(2) last by auto
  note base = view_inv_trackers [OF inv]
  have "trackers_inv ?s"
    unfolding trackers_inv_def fl unfolding s' using nxt
    by (simp add: bp(1) bp(3) [OF base(1)] base consecutive_snoc)
  moreover have "contents_inv content key_start ?s"
  proof -
    have "key_blocks k' (in_flight s @ [?r]) \<noteq> [] \<Longrightarrow>
        key_start (v_db s) k' = Some (hd (key_blocks k' (in_flight s @ [?r])))" for k'
    proof (cases "k' = k")
      case True
      then show ?thesis
        using start first last by (cases "key_blocks k (in_flight s) = []") (auto simp: last_opt_def)
    qed (use inv in \<open>auto simp: view_inv_def contents_inv_def\<close>)
    moreover have "\<exists>start. key_start (v_db s) k' = Some start \<and>
        b' = (case processed t k' of None \<Rightarrow> start | Some p \<Rightarrow> p + 1)" if "(k', b') \<in> set todo" for k' b'
    proof -
      have "k \<notin> fst ` set todo" and
        todos: "\<forall>x \<in> set todo. case x of (k, b) \<Rightarrow> \<exists>start. key_start (v_db s) k = Some start \<and>
          b = (case processed (v_fetch_tracker s) k of None \<Rightarrow> start | Some p \<Rightarrow> p + 1)"
        using inv todo by (simp_all add: view_inv_def contents_inv_def)
      then have "k' \<noteq> k" using that by force
      then show ?thesis using bspec [OF todos that] bp(1) by simp
    qed
    moreover have "\<forall>r \<in> set (in_flight s). content (v_db s) (fr_ingress_key r) (fr_block_index r) = Some (fr_records r)"
      "distinct (map fst todo)"
      "\<forall>rec \<in> set (fs_ingress_keys (v_fetcher s)). key_start (v_db s) (key rec) = Some (st_start_block (status rec))"
      using inv todo by (simp_all add: view_inv_def contents_inv_def)
    ultimately show ?thesis
      using c unfolding contents_inv_def fl unfolding s' by (simp del: key_blocks_append) blast
  qed
  ultimately show ?thesis using inv by (simp add: view_inv_def s' counts_inv_def)
qed

lemma view_inv_limiter: "view_inv dbinv content key_start s \<Longrightarrow> view_inv dbinv content key_start (limiter_pass s)"
  by (auto simp: limiter_pass_def view_inv_def view_inv_defs split: option.splits)

lemma view_inv_take:
  assumes "view_inv dbinv content key_start s" "v_worker_pc s = W_Tick" "\<not> v_stop_requested s"
  shows "view_inv dbinv content key_start (take_fetched_records s)"
  using assms by (auto simp: take_fetched_records_def view_inv_def view_inv_defs)

lemma view_inv_reset: "view_inv dbinv content key_start s \<Longrightarrow> view_inv dbinv content key_start (reset_limiter s)"
  by (auto simp: reset_limiter_def view_inv_def view_inv_defs)

lemma view_inv_add:
  assumes inv: "view_inv dbinv content key_start s" and todo: "v_worker_todo s = r # todo"
    and pc: "v_worker_pc s = W_Adding" and stuck: "\<not> v_worker_stuck s"
  shows "view_inv dbinv content key_start
    (let s1 = add_records_to_enclave add_records r s in if v_worker_stuck s1 then s1 else s1\<lparr>v_worker_todo := todo\<rparr>)"
proof (cases "fst (add_records (fr_records r) (v_enclave s))")
  case (Inl err)
  then have "add_records_to_enclave add_records r s =
      s\<lparr>v_enclave := snd (add_records (fr_records r) (v_enclave s)), v_worker_stuck := True\<rparr>"
    by (simp add: add_records_to_enclave_def split_beta)
  then show ?thesis
    using inv by (simp add: Let_def)
next
  case (Inr u)
  let ?k = "fr_ingress_key r" and ?b = "fr_block_index r"
  have "consecutive ((key_blocks ?k (v_log s) @ [?b]) @ key_blocks ?k (todo @ fs_fetched_records (v_fetcher s)))"
    using view_inv_trackers(3) [OF inv, of ?k] todo by (simp add: in_flight_def key_blocks_Cons)
  then have "consecutive (key_blocks ?k (v_log s) @ [?b])" by (rule consecutive_appendD)
  then have next': "\<And>p. processed (v_enclave_tracker s) ?k = Some p \<Longrightarrow> ?b = p + 1"
    using view_inv_trackers(5) [OF inv] by (simp add: consecutive_snoc)
  then obtain t where t: "block_processed ?k ?b (v_enclave_tracker s) = Some t"
    using block_processed_ok [of "v_enclave_tracker s" ?k ?b] by blast
  note bp = block_processed_Some [OF t]
  have "content (v_db s) ?k ?b = Some (fr_records r)"
    using inv todo by (simp add: view_inv_def contents_inv_def in_flight_def)
  then have "unat ?b < 2 ^ 63" using inv content_index by (auto simp: view_inv_def)
  then have "?b \<noteq> -1" by (auto simp: u64_max_iff)
  then have mono: "highest_known_block_count (v_enclave_tracker s) \<le> highest_known_block_count t"
    using highest_known_mono [OF t] inv by (simp add: view_inv_def trackers_inv_def)
  let ?s1 = "s\<lparr>v_enclave := snd (add_records (fr_records r) (v_enclave s)), v_enclave_tracker := t,
               v_log := v_log s @ [r]\<rparr>"
  have s1: "add_records_to_enclave add_records r s = ?s1"
    using Inr t by (simp add: add_records_to_enclave_def split_beta)
  have "view_inv dbinv content key_start (?s1\<lparr>v_worker_todo := todo\<rparr>)"
  proof -
    have fl: "in_flight (?s1\<lparr>v_worker_todo := todo\<rparr>) = in_flight s"
      using todo by (simp add: in_flight_def)
    have "trackers_inv (?s1\<lparr>v_worker_todo := todo\<rparr>)"
      using bp(3) [OF view_inv_trackers(2) [OF inv]] unfolding trackers_inv_def fl
      by (simp add: view_inv_trackers [OF inv] bp(1))
    moreover have "contents_inv content key_start (?s1\<lparr>v_worker_todo := todo\<rparr>)"
      using inv unfolding contents_inv_def fl by (auto simp: view_inv_def contents_inv_def)
    ultimately show ?thesis
      using inv mono bp(2) pc by (auto simp: view_inv_def counts_inv_def)
  qed
  then show ?thesis using stuck by (simp add: s1 Let_def)
qed

lemma publish_counts_ok:
  assumes "ps_last_known_block_count p \<le> cur" "publish_counts S h cur db p = (ok, p')"
  shows "ok \<and> ps_last_known_block_count p' \<le> cur \<and> ps_highest_processed_block_count p' = h"
  using assms
  by (auto simp: publish_counts_def Let_def split: if_splits option.splits sum.splits)

lemma finish_tick_Some:
  assumes inv: "view_inv dbinv content key_start s"
  obtains h reason t p where
    "highest_fully_processed_block_count (fs_ingress_keys (v_fetcher s)) (v_enclave_tracker s) = Some ((h, reason), t)"
    "advance_post (highest_known_block_count (v_enclave_tracker s)) (fs_ingress_keys (v_fetcher s))
       (v_enclave_tracker s) t reason" "h = last_highest_processed_block_count t"
    "finish_tick S s = Some (s\<lparr>v_enclave_tracker := t, v_poll := p, v_worker_pc := W_Tick, v_worker_panicked := False\<rparr>)"
    "ps_last_known_block_count p \<le> highest_known_block_count t" "ps_highest_processed_block_count p = h"
proof -
  let ?t = "v_enclave_tracker s" and ?recs = "fs_ingress_keys (v_fetcher s)"
  have known: "highest_known_block_count ?t \<noteq> -1" by (rule known_count_below_max [OF inv])
  have "last_highest_processed_block_count ?t \<le> highest_known_block_count ?t"
    using inv by (simp add: view_inv_def counts_inv_def)
  then have "last_highest_processed_block_count ?t \<noteq> -1"
    using known by (metis antisym word_order.extremum)
  then obtain t reason where loop: "advance_loop (highest_known_block_count ?t) ?recs ?t = Some (t, reason)"
    and post: "advance_post (highest_known_block_count ?t) ?recs ?t t reason"
    using advance_loop_post [OF known] by blast
  have "processed_block_per_ingress_key t = processed_block_per_ingress_key ?t"
    using post by (metis (no_types, lifting) BlockTracker.select_convs(1) BlockTracker.simps(5)
        BlockTracker.surjective advance_post_def)
  then have cur: "highest_known_block_count t = highest_known_block_count ?t"
    by (simp add: highest_known_block_count_def)
  obtain ok p where pub: "publish_counts S (last_highest_processed_block_count t) (highest_known_block_count t)
      (v_db s) (v_poll s) = (ok, p)" by (cases "publish_counts S (last_highest_processed_block_count t)
      (highest_known_block_count t) (v_db s) (v_poll s)")
  moreover have "ps_last_known_block_count (v_poll s) \<le> highest_known_block_count t"
    using inv cur by (simp add: view_inv_def counts_inv_def)
  ultimately have "ok \<and> ps_last_known_block_count p \<le> highest_known_block_count t \<and>
      ps_highest_processed_block_count p = last_highest_processed_block_count t"
    by (intro publish_counts_ok)
  then show thesis
    using that [of "last_highest_processed_block_count t" reason t p] loop post pub
    by (simp add: highest_fully_processed_block_count_def finish_tick_def)
qed

lemma view_inv_finish:
  assumes inv: "view_inv dbinv content key_start s" and fin: "finish_tick S s = Some s'"
    and todo: "v_worker_todo s = [] \<or> v_stop_requested s"
  shows "view_inv dbinv content key_start s'"
proof (rule finish_tick_Some [OF inv])
  fix h reason t p
  assume post: "advance_post (highest_known_block_count (v_enclave_tracker s)) (fs_ingress_keys (v_fetcher s))
       (v_enclave_tracker s) t reason"
    and fin': "finish_tick S s = Some (s\<lparr>v_enclave_tracker := t, v_poll := p, v_worker_pc := W_Tick,
       v_worker_panicked := False\<rparr>)"
    and p: "ps_last_known_block_count p \<le> highest_known_block_count t"
  have s': "s' = s\<lparr>v_enclave_tracker := t, v_poll := p, v_worker_pc := W_Tick, v_worker_panicked := False\<rparr>"
    using fin fin' by simp
  have t: "t = (v_enclave_tracker s)\<lparr>last_highest_processed_block_count := last_highest_processed_block_count t\<rparr>"
    and le: "last_highest_processed_block_count t \<le> highest_known_block_count (v_enclave_tracker s) \<or>
      last_highest_processed_block_count t = last_highest_processed_block_count (v_enclave_tracker s)"
    using post by (simp_all add: advance_post_def Let_def)
  have same: "processed_block_per_ingress_key t = processed_block_per_ingress_key (v_enclave_tracker s)"
    by (subst t) simp
  then have "trackers_inv s'"
    using inv by (simp add: s' view_inv_def trackers_inv_def in_flight_def processed_def tracker_inv_def)
  moreover have "contents_inv content key_start s'"
    using inv by (simp add: s' view_inv_def contents_inv_def in_flight_def)
  moreover have "counts_inv s'"
    using inv le p todo same by (auto simp: s' view_inv_def counts_inv_def highest_known_block_count_def)
  ultimately show ?thesis using inv by (simp add: view_inv_def s')
qed

lemma view_inv_step:
  assumes "view_step S dbstep add_records query s s'" "view_inv dbinv content key_start s"
  shows "view_inv dbinv content key_start s'"
  using assms
proof (induction rule: view_step.induct)
  case (vs_stop s)
  then show ?case by (auto simp: view_inv_def trackers_inv_def contents_inv_def counts_inv_def in_flight_def)
next
  case (vs_stopped s)
  then show ?case
    by (auto simp: fetcher_stop_def view_inv_def trackers_inv_def contents_inv_def counts_inv_def in_flight_def)
next
  case (vs_joined s)
  then show ?case by (auto simp: view_inv_def trackers_inv_def contents_inv_def counts_inv_def in_flight_def)
next
  case (vs_add s r todo)
  show ?case by (rule view_inv_add [OF vs_add.prems vs_add.hyps(5,3,2)])
qed (auto intro: view_inv_db view_inv_load_keys view_inv_begin_load view_inv_fetch view_inv_limiter
      view_inv_take view_inv_reset view_inv_finish)

lemma view_inv_reachable:
  assumes "view_reachable S dbstep add_records query db e s" "dbinv db"
  shows "view_inv dbinv content key_start s"
  using assms unfolding view_reachable_def
  by (induction rule: rtranclp_induct) (auto intro: view_inv_init view_inv_step)

text \<open>The enclave holds exactly the records of the logged blocks.\<close>

lemma enclave_log_step:
  assumes "view_step S dbstep add_records query s s'" "view_inv dbinv content key_start s"
    "\<not> v_worker_stuck s \<longrightarrow> loads add_records query e (v_log s) (v_enclave s)"
  shows "\<not> v_worker_stuck s' \<longrightarrow> loads add_records query e (v_log s') (v_enclave s')"
  using assms
proof (induction rule: view_step.induct)
  case (vs_add s r todo)
  have "\<not> v_worker_panicked (let s1 = add_records_to_enclave add_records r s
      in if v_worker_stuck s1 then s1 else s1\<lparr>v_worker_todo := todo\<rparr>)"
    by (rule view_inv_no_panic(1) [OF view_inv_add [OF vs_add.prems(1) vs_add.hyps(5,3,2)]])
  then show ?case
    using vs_add by (auto simp: add_records_to_enclave_def Let_def split: sum.splits option.splits prod.splits intro: loads.intros)
qed (auto simp: load_ingress_keys_def begin_load_block_data_def fetch_block_def limiter_pass_def
      take_fetched_records_def reset_limiter_def fetcher_stop_def finish_tick_def split: sum.splits option.splits prod.splits
      intro: loads.intros)

lemma enclave_log_reachable:
  assumes "view_reachable S dbstep add_records query db e s" "dbinv db"
  shows "\<not> v_worker_stuck s \<longrightarrow> loads add_records query e (v_log s) (v_enclave s)"
  using assms unfolding view_reachable_def
proof (induction rule: rtranclp_induct)
  case (step y z)
  have "view_inv dbinv content key_start y"
    using view_inv_reachable [of add_records query db e y] step.hyps(1) step.prems by (simp add: view_reachable_def)
  then show ?case by (rule enclave_log_step [OF step.hyps(2) _ step.IH [OF step.prems]])
qed (simp add: view_init_def loads_nil)

text \<open>What the publication of a count means for the blocks it passes.\<close>

lemma published_block_loaded:
  assumes inv: "view_inv dbinv content key_start s" and fin: "finish_tick S s = Some s'"
    and b: "last_highest_processed_block_count (v_enclave_tracker s) \<le> b"
      "b < ps_highest_processed_block_count (v_poll s')"
    and rec: "rec \<in> set (fs_ingress_keys (v_fetcher s))" "covers_block_index rec b"
  shows "\<exists>r \<in> set (v_log s). fr_ingress_key r = key rec \<and> fr_block_index r = b \<and>
           content (v_db s) (key rec) b = Some (fr_records r)"
proof (rule finish_tick_Some [OF inv])
  fix h reason t p
  assume post: "advance_post (highest_known_block_count (v_enclave_tracker s)) (fs_ingress_keys (v_fetcher s))
       (v_enclave_tracker s) t reason" and h: "h = last_highest_processed_block_count t"
    and fin': "finish_tick S s = Some (s\<lparr>v_enclave_tracker := t, v_poll := p, v_worker_pc := W_Tick,
       v_worker_panicked := False\<rparr>)" and ps: "ps_highest_processed_block_count p = h"
  have "blocking_key (v_enclave_tracker s) b (fs_ingress_keys (v_fetcher s)) = None"
    using post b fin fin' ps h by (auto simp: advance_post_def Let_def)
  then obtain p where p: "processed (v_enclave_tracker s) (key rec) = Some p" "b \<le> p"
    using rec by (auto simp: blocking_key_None_iff)
  let ?bs = "key_blocks (key rec) (v_log s)"
  have bs: "?bs \<noteq> []" "p = last ?bs"
    using p(1) view_inv_trackers(5) [OF inv] by (auto simp: last_opt_def split: if_splits)
  have "consecutive (?bs @ key_blocks (key rec) (v_worker_todo s @ fs_fetched_records (v_fetcher s)))"
    using view_inv_trackers(3) [OF inv, of "key rec"] by (simp add: in_flight_def)
  then have cons: "consecutive ?bs" by (rule consecutive_appendD)
  have "key_start (v_db s) (key rec) = Some (hd ?bs)"
    by (rule view_inv_log_start [OF inv bs(1)])
  moreover have "key_start (v_db s) (key rec) = Some (st_start_block (status rec))"
    using inv rec(1) by (simp add: view_inv_def contents_inv_def)
  moreover have "st_start_block (status rec) \<le> b"
    using rec(2) by (auto simp: covers_block_index_def split: if_splits)
  ultimately have "b \<in> set ?bs"
    using consecutive_between [OF cons bs(1)] p(2) bs(2) by simp
  then obtain r where r: "r \<in> set (v_log s)" "fr_ingress_key r = key rec" "fr_block_index r = b"
    by (auto simp: key_blocks_mem)
  have "content (v_db s) (fr_ingress_key r) (fr_block_index r) = Some (fr_records r)"
    using inv r(1) by (simp add: view_inv_def contents_inv_def in_flight_def)
  then show ?thesis using r by (intro bexI [of _ r]) simp_all
qed

end

section \<open>The SQL database as a block store\<close>

text \<open>
  The view server is connected to the recovery database: \<^verbatim>\<open>get_ingress_key_records(0)\<close>,
  \<^verbatim>\<open>get_tx_outs_by_block_and_key\<close> and the two queries for the shared state. The writers are those
  of \<open>db_step\<close>, with block numbers below \<open>2^63\<close>, the range of the column.
\<close>

definition sql_store ::
  "(bytes \<Rightarrow> ETxOutRecord list option) \<Rightarrow> (ingress_key_row list \<Rightarrow> ingress_key_row list)
     \<Rightarrow> (ingested_block_row list \<Rightarrow> ingested_block_row list) \<Rightarrow> recovery_db store_ops"
where
  "sql_store dec scan scan_blocks =
     \<lparr>so_ingress_key_records = (\<lambda>db. fst (get_ingress_key_records scan 0 db)),
      so_tx_outs = (\<lambda>k b db. fst (get_tx_outs_by_block_and_key dec k b db)),
      so_timestamp = (\<lambda>b db. fst (get_block_signature_timestamp_for_block scan_blocks b db)),
      so_txo_count = (\<lambda>b db. fst (get_cumulative_txo_count_for_block scan_blocks b db))\<rparr>"

definition nonneg_blocks :: "recovery_db \<Rightarrow> bool" where
  "nonneg_blocks db \<longleftrightarrow> (\<forall>row \<in> set (ingested_blocks db). 0 \<le> ib_block_number row)"

definition sql_step ::
  "(ETxOutRecord list \<Rightarrow> bytes) \<Rightarrow> ('rep \<Rightarrow> bytes) \<Rightarrow> recovery_db \<Rightarrow> recovery_db \<Rightarrow> bool"
where
  "sql_step enc enc_report db db' \<longleftrightarrow> db_step enc enc_report db db' \<and> nonneg_blocks db'"

definition sql_inv :: "recovery_db \<Rightarrow> bool" where
  "sql_inv db \<longleftrightarrow> db_inv db \<and> nonneg_blocks db"

definition sql_content :: "(bytes \<Rightarrow> ETxOutRecord list option) \<Rightarrow> recovery_db \<Rightarrow> bytes \<Rightarrow> u64 \<Rightarrow> ETxOutRecord list option" where
  "sql_content dec db k b = (case blocks_of db k b of [] \<Rightarrow> None | r # _ \<Rightarrow> dec (ib_data r))"

definition sql_key_start :: "recovery_db \<Rightarrow> bytes \<Rightarrow> u64 option" where
  "sql_key_start db k = map_option (\<lambda>r. as_u64 (ik_start_block r)) (find_key db k)"

lemma as_i64_nonneg: "0 \<le> as_i64 b \<Longrightarrow> unat b < 2 ^ 63"
proof -
  assume nonneg: "0 \<le> as_i64 b"
  have b: "b = as_u64 (as_i64 b)" by simp
  have "as_i64 b < 2 ^ 63" using sint_less [of b] by (simp add: as_i64_def)
  then have "uint b = as_i64 b"
    using nonneg by (subst b) (simp add: as_u64_def uint_word_of_int)
  then have "int (unat b) < int (2 ^ 63)" using \<open>as_i64 b < 2 ^ 63\<close> by simp
  then show ?thesis by (simp only: of_nat_less_iff)
qed

lemma sql_content_index:
  assumes "sql_inv db" "sql_content dec db k b = Some txs"
  shows "unat b < 2 ^ 63"
proof -
  have "blocks_of db k b \<noteq> []" using assms(2) by (auto simp: sql_content_def)
  then obtain row where "row \<in> set (ingested_blocks db)" "ib_block_number row = as_i64 b"
    by (auto simp: blocks_of_def filter_empty_conv)
  then show ?thesis using assms(1) as_i64_nonneg by (auto simp: sql_inv_def nonneg_blocks_def)
qed

lemma sql_content_le:
  assumes "db_le db db'" "db_inv db'" "sql_content dec db k b = Some txs"
  shows "sql_content dec db' k b = Some txs"
proof -
  have "blocks_of db k b \<noteq> []" using assms(3) by (auto simp: sql_content_def)
  then show ?thesis using blocks_of_le [OF assms(1,2)] assms(3) by (simp add: sql_content_def)
qed

lemma sql_key_start_le:
  assumes "db_le db db'" "sql_key_start db k = Some start"
  shows "sql_key_start db' k = Some start"
proof -
  obtain r where r: "find_key db k = Some r" "as_u64 (ik_start_block r) = start"
    using assms(2) by (auto simp: sql_key_start_def)
  then obtain r' where "find_key db' k = Some r'" "key_row_le r r'"
    using assms(1) unfolding db_le_def by blast
  then show ?thesis using r by (simp add: sql_key_start_def key_row_le_def)
qed

lemma sql_block_store:
  assumes "permutes scan"
  shows "block_store (sql_store dec scan scan_blocks) (sql_step enc enc_report) sql_inv (sql_content dec) sql_key_start"
proof
  fix db db' :: recovery_db
  assume "sql_inv db" "sql_step enc enc_report db db'"
  then show "sql_inv db'" by (auto simp: sql_inv_def sql_step_def intro: db_step_inv)
next
  fix db k b txs
  assume *: "sql_inv db" "so_tx_outs (sql_store dec scan scan_blocks) k b db = Ok (Some txs)"
  then have "pool_up db"
    by (cases "pool_up db") (simp_all add: sql_store_def get_tx_outs_by_block_and_key_def)
  then show "sql_content dec db k b = Some txs"
    using * by (auto simp: sql_store_def sql_inv_def sql_content_def get_tx_outs_by_block_and_key_eq
         split: list.splits option.splits)
next
  fix db db' k b txs
  assume "sql_inv db" "sql_step enc enc_report db db'" "sql_content dec db k b = Some txs"
  then show "sql_content dec db' k b = Some txs"
    using db_step_le db_step_inv sql_content_le unfolding sql_inv_def sql_step_def by blast
next
  fix db k b txs
  assume "sql_inv db" "sql_content dec db k b = Some txs"
  then show "unat b < 2 ^ 63" by (rule sql_content_index)
next
  fix db recs rec
  assume *: "sql_inv db" "so_ingress_key_records (sql_store dec scan scan_blocks) db = Ok recs" "rec \<in> set recs"
  then have up: "pool_up db"
    by (cases "pool_up db") (simp_all add: sql_store_def get_ingress_key_records_def)
  have inv: "db_inv db" using *(1) by (simp add: sql_inv_def)
  obtain r where "r \<in> set (ingress_keys db)" "rec = record_of db r"
    using *(2,3) by (auto simp: sql_store_def get_ingress_key_records_eq [OF inv up assms] assms)
  then show "sql_key_start db (key rec) = Some (st_start_block (status rec))"
    using inv by (auto simp: sql_key_start_def record_of_def status_of_row_def db_inv_def find_key_Some_iff)
next
  fix db db' k start
  assume "sql_inv db" "sql_step enc enc_report db db'" "sql_key_start db k = Some start"
  then show "sql_key_start db' k = Some start"
    using db_step_le sql_key_start_le unfolding sql_inv_def sql_step_def by blast
qed

text \<open>The instance for the rows in insertion order; the properties below hold for every order.\<close>

interpretation sql: block_store "sql_store dec (\<lambda>xs. xs) scan_blocks" "sql_step enc enc_report" sql_inv
  "sql_content dec" sql_key_start
  for dec scan_blocks enc enc_report
  by (rule sql_block_store) simp

section \<open>A sample run\<close>

definition wit_store :: "recovery_db store_ops" where
  "wit_store = sql_store sample_dec (\<lambda>xs. xs) (\<lambda>xs. xs)"

definition wit_query :: "ETxOutRecord list \<Rightarrow> ETxOutRecord list \<Rightarrow> bool" where
  "wit_query e e' \<longleftrightarrow> e' = e"

definition wit_add :: "ETxOutRecord list \<Rightarrow> ETxOutRecord list \<Rightarrow> (unit, unit) result \<times> ETxOutRecord list" where
  "wit_add txs e = (Ok (), e @ txs)"

definition run_begun :: "'e \<Rightarrow> (recovery_db, 'e) view_sys" where
  "run_begun e = (begin_load_block_data (\<lambda>xs. xs) ((load_ingress_keys wit_store
     ((view_init sample_db3 e)\<lparr>v_fetch_pc := F_Keys\<rparr>))\<lparr>v_fetch_pc := F_Load\<rparr>))\<lparr>v_fetch_pc := F_Round False\<rparr>"

definition run_fetched :: "'e \<Rightarrow> (recovery_db, 'e) view_sys" where
  "run_fetched e = limiter_pass ((fetch_block wit_store sample_key 5 (run_begun e))
     \<lparr>v_fetch_todo := [], v_fetch_pc := F_Round True\<rparr>)"

definition run_loaded ::
  "(ETxOutRecord list \<Rightarrow> 'e \<Rightarrow> ('err, unit) result \<times> 'e) \<Rightarrow> 'e \<Rightarrow> (recovery_db, 'e) view_sys"
where
  "run_loaded add e = (let s1 = add_records_to_enclave add
      \<lparr>fr_ingress_key = sample_key, fr_block_index = 5, fr_records = sample_txs\<rparr>
      (reset_limiter (take_fetched_records (run_fetched e)))
     in if v_worker_stuck s1 then s1 else s1\<lparr>v_worker_todo := []\<rparr>)"

definition wit_loaded :: "(recovery_db, ETxOutRecord list) view_sys" where
  "wit_loaded = run_loaded wit_add []"

definition wit_record :: IngressPublicKeyRecord where
  "wit_record = \<lparr>key = sample_key,
     status = \<lparr>st_start_block = 5, st_pubkey_expiry = 20, st_retired = False, st_lost = False\<rparr>,
     last_scanned_block = Some 5\<rparr>"

lemma wit_keys: "so_ingress_key_records wit_store sample_db3 = Ok [wit_record]"
  by (simp add: wit_store_def sql_store_def get_ingress_key_records_def sample_eqs load_ingress_key_def
      from_sql_key_def sample_key_def status_of_row_def last_scanned_def max_block_def wit_record_def)

lemma wit_block: "so_tx_outs wit_store sample_key 5 sample_db3 = Ok (Some sample_txs)"
  by (simp add: wit_store_def sql_store_def sample_eqs get_tx_outs_by_block_and_key_def blocks_of_def
      sample_dec_def sample_enc_def sample_txs_def)

lemma wit_next: "next_blocks BlockTracker_new [wit_record] = [(sample_key, 5)]"
  by (simp add: next_blocks_def next_block_of_def wit_record_def covers_block_index_def)

lemma wit_processed: "block_processed sample_key 5 BlockTracker_new =
    Some \<lparr>processed_block_per_ingress_key = [(sample_key, 5)], last_highest_processed_block_count = 0\<rparr>"
  by (simp add: block_processed_def BlockTracker_new_def processed_def)

lemmas wit_simps = view_init_def load_ingress_keys_def begin_load_block_data_def fetch_block_def limiter_pass_def
  take_fetched_records_def reset_limiter_def add_records_to_enclave_def wit_keys wit_block wit_next
  wit_processed MAX_QUEUED_RECORDS_def

lemmas run_simps = run_loaded_def run_fetched_def run_begun_def wit_simps

lemma run_reachable:
  "view_reachable wit_store (sql_step sample_enc sample_enc_report) add qry sample_db3 e (run_loaded add e)"
proof -
  let ?V = "view_step wit_store (sql_step sample_enc sample_enc_report) add qry"
  let ?s0 = "(view_init sample_db3 e)\<lparr>v_fetch_pc := F_Keys\<rparr>"
  let ?s1 = "(load_ingress_keys wit_store ?s0)\<lparr>v_fetch_pc := F_Load\<rparr>"
  let ?s3 = "(fetch_block wit_store sample_key 5 (run_begun e))\<lparr>v_fetch_todo := [], v_fetch_pc := F_Round True\<rparr>"
  let ?s4 = "run_fetched e"
  have "?V (view_init sample_db3 e) ?s0" using vs_fetch_top [of "view_init sample_db3 e"] by (simp add: view_init_def)
  moreover have "?V ?s0 ?s1" by (rule vs_load_keys) (simp_all add: wit_simps)
  moreover have "?V ?s1 (run_begun e)" unfolding run_begun_def by (rule vs_begin_load) (simp_all add: wit_simps)
  moreover have "?V (run_begun e) ?s3"
    using vs_fetch [OF _ _ _ _ refl, of "run_begun e" False sample_key 5 "[]" wit_store] by (simp add: run_begun_def wit_simps)
  moreover have "?V ?s3 ?s4"
    unfolding run_fetched_def by (rule vs_limiter [where n = "length sample_txs"]) (simp_all add: run_begun_def wit_simps)
  moreover have "?V ?s4 (take_fetched_records ?s4)"
    by (rule vs_take) (simp_all add: run_simps)
  moreover have "?V (take_fetched_records ?s4) (reset_limiter (take_fetched_records ?s4))"
    by (rule vs_reset) (simp_all add: run_simps)
  moreover have "?V (reset_limiter (take_fetched_records ?s4)) (run_loaded add e)"
    unfolding run_loaded_def by (rule vs_add) (simp_all add: run_fetched_def run_begun_def wit_simps)
  ultimately show ?thesis
    unfolding view_reachable_def by (meson converse_rtranclp_into_rtranclp rtranclp.rtrancl_refl)
qed

lemma run_added:
  assumes "add sample_txs e = (Ok u, e')"
  shows "\<not> v_worker_stuck (run_loaded add e)" "\<not> v_worker_panicked (run_loaded add e)"
    "v_worker_pc (run_loaded add e) = W_Adding" "v_worker_todo (run_loaded add e) = []" "v_enclave (run_loaded add e) = e'"
    "v_log (run_loaded add e) = [\<lparr>fr_ingress_key = sample_key, fr_block_index = 5, fr_records = sample_txs\<rparr>]"
    "v_enclave_tracker (run_loaded add e) =
      \<lparr>processed_block_per_ingress_key = [(sample_key, 5)], last_highest_processed_block_count = 0\<rparr>"
    "fs_ingress_keys (v_fetcher (run_loaded add e)) = [wit_record]" "v_db (run_loaded add e) = sample_db3"
  using assms by (simp_all add: run_simps)

lemma run_published:
  assumes "add sample_txs e = (Ok u, e')"
  obtains s' where "finish_tick wit_store (run_loaded add e) = Some s'" "ps_highest_processed_block_count (v_poll s') = 6"
proof -
  note added = run_added [where add = add and e = e and u = u and e' = e', OF assms]
  have "highest_fully_processed_block_count [wit_record] (v_enclave_tracker (run_loaded add e)) =
      Some ((6, None), \<lparr>processed_block_per_ingress_key = [(sample_key, 5)], last_highest_processed_block_count = 6\<rparr>)"
    by (simp add: added highest_fully_processed_block_count_def highest_known_block_count_def advance_loop.simps
        covers_block_index_def wit_record_def processed_def)
  then show thesis using finish_tick_highest [of "run_loaded add e"] added(8) that by metis
qed

lemma wit_add_Ok: "wit_add sample_txs [] = (Ok (), sample_txs)"
  by (simp add: wit_add_def)

lemma wit_reachable: "view_reachable wit_store (sql_step sample_enc sample_enc_report) wit_add wit_query sample_db3 [] wit_loaded"
  unfolding wit_loaded_def by (rule run_reachable)

section \<open>Properties\<close>

text \<open>
  C10: the threads of the view server never fail an assertion, under any interleaving with each
  other and with the writers of the database. At every point the blocks fed to the enclave for an
  ingress key are consecutive and start at the key's start block, their records are those of the
  database, and the enclave is the result of adding exactly these records in order, unless it
  failed to add some. The computation that ends a tick always terminates.
\<close>

theorem view_threads_safe:
  assumes "permutes scan" "db_inv db" "nonneg_blocks db"
    and "view_reachable (sql_store dec scan scan_blocks) (sql_step enc enc_report) add_records query db e s"
  shows "\<not> v_fetch_panicked s \<and> \<not> v_worker_panicked s \<and>
    (\<forall>k. consecutive (key_blocks k (v_log s)) \<and>
         (key_blocks k (v_log s) = [] \<or> sql_key_start (v_db s) k = Some (hd (key_blocks k (v_log s))))) \<and>
    list_all (\<lambda>r. sql_content dec (v_db s) (fr_ingress_key r) (fr_block_index r) = Some (fr_records r)) (v_log s) \<and>
    (\<not> v_worker_stuck s \<longrightarrow> loads add_records query e (v_log s) (v_enclave s)) \<and>
    (\<exists>s'. finish_tick (sql_store dec scan scan_blocks) s = Some s' \<and> \<not> v_worker_panicked s')"
proof -
  note bs = sql_block_store [OF assms(1), of dec scan_blocks enc enc_report]
  have inv0: "sql_inv db" using assms(2,3) by (simp add: sql_inv_def)
  have inv: "view_inv sql_inv (sql_content dec) sql_key_start s"
    by (rule block_store.view_inv_reachable [OF bs assms(4) inv0])
  have "consecutive (key_blocks k (v_log s))" for k
    using view_inv_trackers(3) [OF inv, of k] by (auto simp: in_flight_def dest: consecutive_appendD)
  moreover have "key_blocks k (v_log s) = [] \<or> sql_key_start (v_db s) k = Some (hd (key_blocks k (v_log s)))" for k
    using view_inv_log_start [OF inv] by blast
  moreover have "list_all (\<lambda>r. sql_content dec (v_db s) (fr_ingress_key r) (fr_block_index r) = Some (fr_records r)) (v_log s)"
    using inv by (auto simp: view_inv_def contents_inv_def in_flight_def list_all_iff)
  moreover have "\<exists>s'. finish_tick (sql_store dec scan scan_blocks) s = Some s' \<and> \<not> v_worker_panicked s'"
    by (rule block_store.finish_tick_Some [OF bs inv]) auto
  ultimately show ?thesis
    using view_inv_no_panic [OF inv] block_store.enclave_log_reachable [OF bs assms(4) inv0] by blast
qed

lemma wit_not_stuck: "\<not> v_worker_stuck wit_loaded"
  unfolding wit_loaded_def by (rule run_added [where add = wit_add, OF wit_add_Ok])

theorem view_threads_safe_witness:
  "\<not> v_worker_panicked wit_loaded \<and> loads wit_add wit_query [] (v_log wit_loaded) (v_enclave wit_loaded)"
proof -
  have "nonneg_blocks sample_db3" by (simp add: nonneg_blocks_def sample_eqs)
  then show ?thesis
    using view_threads_safe [OF permutes_id sample_inv(4), of sample_dec "\<lambda>xs. xs" sample_enc sample_enc_report wit_add wit_query "[]" wit_loaded]
      wit_reachable by (simp add: wit_store_def wit_not_stuck)
qed

text \<open>
  C9: the published count is sound. When a tick publishes a highest processed block count, every
  block that it passes has been fed to the enclave for every known ingress key that covers the
  block, with the records the database holds for it: a client that computes its balance up to
  this count misses nothing.
\<close>

theorem published_count_sound:
  assumes "permutes scan" "db_inv db" "nonneg_blocks db"
    and "view_reachable (sql_store dec scan scan_blocks) (sql_step enc enc_report) add_records query db e s"
    and "finish_tick (sql_store dec scan scan_blocks) s = Some s'"
    and "last_highest_processed_block_count (v_enclave_tracker s) \<le> b"
    and "b < ps_highest_processed_block_count (v_poll s')"
    and "rec \<in> set (fs_ingress_keys (v_fetcher s))" "covers_block_index rec b"
  shows "\<exists>r \<in> set (v_log s'). fr_ingress_key r = key rec \<and> fr_block_index r = b \<and>
           sql_content dec (v_db s') (key rec) b = Some (fr_records r)"
proof -
  note bs = sql_block_store [OF assms(1), of dec scan_blocks enc enc_report]
  have inv: "view_inv sql_inv (sql_content dec) sql_key_start s"
    using assms(2,3) by (intro block_store.view_inv_reachable [OF bs assms(4)]) (simp add: sql_inv_def)
  moreover have "v_log s' = v_log s" "v_db s' = v_db s"
    using assms(5) by (auto simp: finish_tick_def split: option.splits prod.splits)
  ultimately show ?thesis
    using block_store.published_block_loaded [OF bs inv assms(5-9)] by simp
qed

theorem published_count_sound_witness:
  "\<exists>s'. finish_tick wit_store wit_loaded = Some s' \<and>
     (\<exists>r \<in> set (v_log s'). fr_ingress_key r = sample_key \<and> fr_block_index r = 5 \<and>
        sql_content sample_dec (v_db s') sample_key 5 = Some (fr_records r))"
proof -
  note loaded = run_added(7,8) [where add = wit_add, OF wit_add_Ok, folded wit_loaded_def]
  obtain s' where fin: "finish_tick wit_store wit_loaded = Some s'"
      "ps_highest_processed_block_count (v_poll s') = 6"
    using run_published [where add = wit_add, OF wit_add_Ok, folded wit_loaded_def] .
  have "nonneg_blocks sample_db3" by (simp add: nonneg_blocks_def sample_eqs)
  from published_count_sound [OF permutes_id sample_inv(4) this wit_reachable [unfolded wit_store_def]
      fin(1) [unfolded wit_store_def], of 5 wit_record]
  show ?thesis
    using fin by (auto simp: loaded wit_record_def covers_block_index_def)
qed

text \<open>
  C28: stopping can hang. When a stop of the poll thread was requested while the worker is between two
  ticks and the fetcher waits for the queue to be drained, nothing ever wakes the fetcher: the
  worker calls \<^verbatim>\<open>DbFetcher::stop\<close>, which sets a flag the waiting fetcher does not look at and joins it. In
  every later state the fetcher still waits and neither join has returned.
\<close>

theorem stop_leaves_fetcher_blocked:
  assumes "(view_step S dbstep add_records query)\<^sup>*\<^sup>* s s'"
    and "v_stop_requested s" "v_worker_pc s = W_Tick \<or> v_worker_pc s = W_Joining" "\<not> v_worker_panicked s"
    and "v_fetch_pc s = F_Round more_work" "\<not> v_fetch_panicked s" "v_fetch_wait s = Some n" "v_num_queued s > MAX_QUEUED_RECORDS"
  shows "v_fetch_wait s' = Some n \<and> v_num_queued s' > MAX_QUEUED_RECORDS \<and> \<not> poll_thread_ended s'"
proof -
  have "v_stop_requested s' \<and> (v_worker_pc s' = W_Tick \<or> v_worker_pc s' = W_Joining) \<and> \<not> v_worker_panicked s' \<and>
     v_fetch_pc s' = F_Round more_work \<and> \<not> v_fetch_panicked s' \<and> v_fetch_wait s' = Some n \<and> v_num_queued s' > MAX_QUEUED_RECORDS"
    using assms(1)
  proof (induction rule: rtranclp_induct)
    case (step y z)
    from step.hyps(2) step.IH show ?case
      by (induction rule: view_step.induct) (auto simp: limiter_pass_def fetcher_stop_def)
  qed (use assms in simp)
  then show ?thesis by (auto simp: poll_thread_ended_def)
qed

text \<open>
  A run into this situation: a key with two blocks, whose records (as the decoder of the block data
  gives them) are more than the limit already for the first one.
\<close>

definition flood_db :: recovery_db where
  "flood_db = snd (add_block_data sample_enc 0 1 \<lparr>bk_index = 6, bk_cumulative_txo_count = 80\<rparr> 200 sample_txs sample_db3)"

definition flood_store :: "recovery_db store_ops" where
  "flood_store = sql_store (\<lambda>_. Some (replicate 524289 \<lparr>search_key = replicate 16 7, payload = [1, 2, 3]\<rparr>)) (\<lambda>xs. xs) (\<lambda>xs. xs)"

definition flood_record :: IngressPublicKeyRecord where
  "flood_record = wit_record\<lparr>last_scanned_block := Some 6\<rparr>"

lemma flood_db_eq: "flood_db = sample_db3\<lparr>ingested_blocks := ingested_blocks sample_db3 @
     [\<lparr>ib_id = 2, ib_iid = 1, ib_key = sample_key, ib_block_number = 6, ib_cumulative_txo_count = 80, ib_timestamp = 200,
       ib_data = sample_enc sample_txs\<rparr>], seq_ib := 3\<rparr>"
  unfolding flood_db_def
  by (simp add: sample_eqs add_block_data_def transaction_def add_block_data_tx_def
      insert_ingested_block_def known_iid_def i64_max_def bind_db_def update_last_active_at_impl_def update_where_def as_i64_def)

lemma flood_keys: "so_ingress_key_records flood_store flood_db = Ok [flood_record]"
  by (simp add: flood_store_def sql_store_def get_ingress_key_records_def flood_db_eq sample_eqs load_ingress_key_def
      from_sql_key_def sample_key_def status_of_row_def last_scanned_def max_block_def wit_record_def flood_record_def as_u64_def)

lemma flood_block:
  assumes "b = 5 \<or> b = 6"
  obtains txs where "so_tx_outs flood_store sample_key b flood_db = Ok (Some txs)" "length txs = 524289"
  using assms
  by (auto simp: flood_store_def sql_store_def flood_db_eq sample_eqs get_tx_outs_by_block_and_key_def blocks_of_def as_i64_def)

lemma flood_next:
  "next_blocks BlockTracker_new [flood_record] = [(sample_key, 5)]"
  "next_blocks \<lparr>processed_block_per_ingress_key = [(sample_key, 5)], last_highest_processed_block_count = 0\<rparr> [flood_record] =
     [(sample_key, 6)]"
  by (simp_all add: next_blocks_def next_block_of_def flood_record_def wit_record_def covers_block_index_def
      BlockTracker_new_def processed_def)

lemma flood_processed: "block_processed sample_key 6
     \<lparr>processed_block_per_ingress_key = [(sample_key, 5)], last_highest_processed_block_count = 0\<rparr> =
   Some \<lparr>processed_block_per_ingress_key = [(sample_key, 6)], last_highest_processed_block_count = 0\<rparr>"
  by (simp add: block_processed_def processed_def)

lemmas flood_simps = view_init_def load_ingress_keys_def begin_load_block_data_def fetch_block_def limiter_pass_def
  flood_keys flood_next wit_processed flood_processed MAX_QUEUED_RECORDS_def

lemma flood_reachable:
  "\<exists>s. view_reachable flood_store dbstep add qry flood_db e s \<and> v_stop_requested s \<and> v_worker_pc s = W_Tick \<and>
     \<not> v_worker_panicked s \<and> v_fetch_pc s = F_Round True \<and> \<not> v_fetch_panicked s \<and>
     v_fetch_wait s = Some 524289 \<and> v_num_queued s = 524289"
proof -
  let ?V = "view_step flood_store dbstep add qry"
  obtain t5 t6 where txs: "so_tx_outs flood_store sample_key 5 flood_db = Ok (Some t5)" "length t5 = 524289"
      "so_tx_outs flood_store sample_key 6 flood_db = Ok (Some t6)" "length t6 = 524289"
    using flood_block by metis
  define s0 where "s0 = (view_init flood_db e)\<lparr>v_fetch_pc := F_Keys\<rparr>"
  define s1 where "s1 = (load_ingress_keys flood_store s0)\<lparr>v_fetch_pc := F_Load\<rparr>"
  define s2 where "s2 = (begin_load_block_data (\<lambda>xs. xs) s1)\<lparr>v_fetch_pc := F_Round False\<rparr>"
  define s3 where "s3 = (fetch_block flood_store sample_key 5 s2)\<lparr>v_fetch_todo := [], v_fetch_pc := F_Round True\<rparr>"
  define s4 where "s4 = (limiter_pass s3)\<lparr>v_fetch_pc := F_Load\<rparr>"
  define s5 where "s5 = (begin_load_block_data (\<lambda>xs. xs) s4)\<lparr>v_fetch_pc := F_Round False\<rparr>"
  define s6 where "s6 = (fetch_block flood_store sample_key 6 s5)\<lparr>v_fetch_todo := [], v_fetch_pc := F_Round True\<rparr>"
  note defs = s0_def s1_def s2_def s3_def s4_def s5_def s6_def flood_simps txs
  have "?V (view_init flood_db e) s0" using vs_fetch_top [of "view_init flood_db e"] by (simp add: s0_def view_init_def)
  moreover have "?V s0 s1" unfolding s1_def by (rule vs_load_keys) (simp_all add: s0_def view_init_def)
  moreover have "?V s1 s2" unfolding s2_def by (rule vs_begin_load) (simp_all add: defs)
  moreover have "?V s2 s3"
    using vs_fetch [OF _ _ _ _ refl, of s2 False sample_key 5 "[]" flood_store] by (simp add: defs)
  moreover have "?V s3 (limiter_pass s3)" by (rule vs_limiter [where n = 524289]) (simp_all add: defs)
  moreover have "?V (limiter_pass s3) s4" using vs_round_end [of "limiter_pass s3" True] by (simp add: defs)
  moreover have "?V s4 s5" unfolding s5_def by (rule vs_begin_load) (simp_all add: defs)
  moreover have "?V s5 s6"
    using vs_fetch [OF _ _ _ _ refl, of s5 False sample_key 6 "[]" flood_store] by (simp add: defs)
  moreover have "?V s6 (s6\<lparr>v_stop_requested := True\<rparr>)" by (rule vs_stop)
  ultimately have "view_reachable flood_store dbstep add qry flood_db e (s6\<lparr>v_stop_requested := True\<rparr>)"
    unfolding view_reachable_def by (meson converse_rtranclp_into_rtranclp rtranclp.rtrancl_refl)
  moreover have "v_worker_pc s6 = W_Tick" "\<not> v_worker_panicked s6" "v_fetch_pc s6 = F_Round True" "\<not> v_fetch_panicked s6"
    "v_fetch_wait s6 = Some 524289" "v_num_queued s6 = 524289"
    by (simp_all add: defs)
  ultimately show ?thesis by (intro exI [of _ "s6\<lparr>v_stop_requested := True\<rparr>"]) simp
qed

theorem stop_leaves_fetcher_blocked_witness:
  "\<exists>s. view_reachable flood_store (sql_step sample_enc sample_enc_report) wit_add wit_query flood_db [] s \<and> v_stop_requested s \<and>
     (\<forall>s'. (view_step flood_store (sql_step sample_enc sample_enc_report) wit_add wit_query)\<^sup>*\<^sup>* s s' \<longrightarrow> \<not> poll_thread_ended s')"
proof -
  obtain s where s: "view_reachable flood_store (sql_step sample_enc sample_enc_report) wit_add wit_query flood_db [] s"
      "v_stop_requested s" "v_worker_pc s = W_Tick \<or> v_worker_pc s = W_Joining" "\<not> v_worker_panicked s"
      "v_fetch_pc s = F_Round True" "\<not> v_fetch_panicked s" "v_fetch_wait s = Some 524289" "v_num_queued s > MAX_QUEUED_RECORDS"
    using flood_reachable by (fastforce simp: MAX_QUEUED_RECORDS_def)
  from stop_leaves_fetcher_blocked [OF _ s(2-8)] s(1,2) show ?thesis by blast
qed

end
