(* ===== verification/View_Query.thy ===== *)
theory View_Query
  imports View_Enclave View_Inv
begin

text \<open>
  The view server as a whole: the threads of \<open>View_Server\<close> feed the enclave of \<open>View_Enclave\<close>,
  and the query handler answers clients from it, under every interleaving of the writers of the
  database, the two threads and the queries of other clients.
\<close>

text \<open>What a client does to the enclave: a query, a key exchange, or the end of its session.\<close>

definition query_step ::
  "'m omap_ops \<Rightarrow> ('a, 'id, 'msg, 'ch, 'ae) ake_ops \<Rightarrow> (bytes \<Rightarrow> QueryRequest option) \<Rightarrow> (QueryResponse \<Rightarrow> bytes)
     \<Rightarrow> ('m, 'a) ViewEnclave \<Rightarrow> ('m, 'a) ViewEnclave \<Rightarrow> bool"
where
  "query_step M A dec enc e e' \<longleftrightarrow>
     (\<exists>msg u. e' = snd (enclave_query M A dec enc msg u e)) \<or>
     (\<exists>req. e' = snd (ViewEnclave_client_accept A req e)) \<or>
     (\<exists>channel. e' = snd (ViewEnclave_client_close A channel e))"

text \<open>The records of a list of blocks.\<close>

definition log_records :: "FetchedRecords list \<Rightarrow> ETxOutRecord list" where
  "log_records log = concat (map fr_records log)"

definition enclave_holds ::
  "('m \<Rightarrow> bytes \<rightharpoonup> bytes) \<Rightarrow> ETxOutRecord list \<Rightarrow> ('m, 'a) ViewEnclave \<Rightarrow> bool"
where
  "enclave_holds content recs e \<longleftrightarrow>
     (\<exists>st. e_tx_out_store e = Some st \<and> store_inv content st \<and> store_abs content st = records_map recs) \<and>
     (\<forall>r \<in> set recs. length (search_key r) = KeySize \<and> \<not> zero_key (search_key r))"

lemma enclave_query_holds:
  assumes "omap_laws KeySize ValueSize M content" "enclave_holds content recs e"
  shows "enclave_holds content recs (snd (enclave_query M A dec enc msg u e))"
proof -
  obtain st where st: "e_tx_out_store e = Some st" "store_inv content st" "store_abs content st = records_map recs"
    using assms(2) by (auto simp: enclave_holds_def)
  have "\<exists>m. content m = content (es_omap st) \<and> snd (find_each M ks st) = st\<lparr>es_omap := m\<rparr>" for ks
    using find_each_answers [OF assms(1) st(2), of ks] by auto
  then have "store_inv content (snd (find_each M ks st)) \<and> store_abs content (snd (find_each M ks st)) = records_map recs" for ks
    using store_frame st(2,3) by metis
  then show ?thesis
    using st assms(2) by (auto simp: enclave_query_def enclave_holds_def split_beta split: sum.splits option.splits)
qed

lemma ake_step_holds:
  assumes "enclave_holds content recs e"
  shows "enclave_holds content recs (snd (ViewEnclave_client_accept A req e))"
    and "enclave_holds content recs (snd (ViewEnclave_client_close A channel e))"
  using assms by (simp_all add: enclave_holds_def ViewEnclave_client_accept_def ViewEnclave_client_close_def split_beta)

lemma ecall_add_holds:
  assumes "omap_laws KeySize ValueSize M content" "enclave_holds content recs e"
    and "ecall_add_records M new e = (Ok (), e')"
  shows "enclave_holds content (recs @ new) e'"
proof -
  obtain st where st: "e_tx_out_store e = Some st" "store_inv content st" "store_abs content st = records_map recs"
    using assms(2) by (auto simp: enclave_holds_def)
  obtain r st' where add: "add_each M new st = (r, st')" by (metis surj_pair)
  then have r: "r = Some (Ok ())" "e' = e\<lparr>e_tx_out_store := Some st'\<rparr>"
    using assms(3) st(1) by (auto simp: ecall_add_records_def add_records_def split: option.splits sum.splits)
  from add_each_Ok [OF assms(1) st(2) add [unfolded r]] add_each_valid [OF assms(1) st(2) add [unfolded r]]
    st(3) r(2) assms(2)
  show ?thesis by (auto simp: enclave_holds_def)
qed

lemma loads_holds:
  assumes "omap_laws KeySize ValueSize M content" "enclave_holds content [] e0"
    and "loads (ecall_add_records M) (query_step M A dec enc) e0 log e"
  shows "enclave_holds content (log_records log) e"
  using assms(3)
proof (induction rule: loads.induct)
  case loads_nil
  show ?case using assms(2) by (simp add: log_records_def)
next
  case (loads_query log e' e'')
  then show ?case using enclave_query_holds [OF assms(1)] ake_step_holds by (fastforce simp: query_step_def)
next
  case (loads_add log e' r e'')
  then show ?case using ecall_add_holds [OF assms(1)] by (auto simp: log_records_def)
qed

lemma enclave_query_answers:
  assumes "omap_laws KeySize ValueSize M content" "enclave_holds content recs e"
    and "client_decrypt A msg (ve_ake e) = (Ok pt, a)" "dec pt = Some req"
  shows "\<exists>miss. fst (enclave_query M A dec enc msg u e) =
     Some (case_sum (\<lambda>x. Err (VE_AttestEnclave x)) Ok
       (fst (client_encrypt A (channel_id A msg) []
          (enc (response_of u (map (answer (records_map recs) miss) (get_txos req)))) a)))"
proof -
  obtain st where st: "e_tx_out_store e = Some st" "store_inv content st" "store_abs content st = records_map recs"
    using assms(2) by (auto simp: enclave_holds_def)
  obtain m where "find_each M (get_txos req) st =
      (Some (map (answer (records_map recs) (miss_size st)) (get_txos req)), st\<lparr>es_omap := m\<rparr>)"
    using find_each_answers [OF assms(1) st(2), of "get_txos req"] st(3) by auto
  then show ?thesis
    using st(1) assms(3,4) by (intro exI [of _ "miss_size st"]) (simp add: enclave_query_def split_beta)
qed

lemma log_step: "view_step S dbstep add qry s s' \<Longrightarrow> prefix (v_log s) (v_log s')"
proof (induction rule: view_step.induct)
  case (vs_add s r todo)
  then show ?case by (auto simp: add_records_to_enclave_def Let_def split: sum.split option.split prod.split)
qed (auto simp: load_ingress_keys_def begin_load_block_data_def fetch_block_def limiter_pass_def fetcher_stop_def
      take_fetched_records_def reset_limiter_def finish_tick_def split: sum.splits option.splits prod.splits)

lemma log_mono: "(view_step S dbstep add qry)\<^sup>*\<^sup>* s s' \<Longrightarrow> prefix (v_log s) (v_log s')"
  by (induction rule: rtranclp_induct) (auto dest: log_step intro: prefix_order.trans)

abbreviation server_step ::
  "'m omap_ops \<Rightarrow> ('a, 'id, 'msg, 'ch, 'ae) ake_ops \<Rightarrow> (bytes \<Rightarrow> QueryRequest option) \<Rightarrow> (QueryResponse \<Rightarrow> bytes)
     \<Rightarrow> (bytes \<Rightarrow> ETxOutRecord list option) \<Rightarrow> (ingress_key_row list \<Rightarrow> ingress_key_row list)
     \<Rightarrow> (ingested_block_row list \<Rightarrow> ingested_block_row list) \<Rightarrow> (ETxOutRecord list \<Rightarrow> bytes) \<Rightarrow> ('rep \<Rightarrow> bytes)
     \<Rightarrow> (recovery_db, ('m, 'a) ViewEnclave) view_sys \<Rightarrow> (recovery_db, ('m, 'a) ViewEnclave) view_sys \<Rightarrow> bool"
where
  "server_step M A dec enc dec_txs scan scan_blocks enc_txs enc_report \<equiv>
     view_step (sql_store dec_txs scan scan_blocks) (sql_step enc_txs enc_report)
       (ecall_add_records M :: _ \<Rightarrow> _ \<Rightarrow> ('ae view_error, unit) result \<times> _) (query_step M A dec enc)"

section \<open>Properties\<close>

text \<open>
  C11: a query to the view server is answered from exactly the blocks that were loaded. The handler
  reads the user events in one state, the published counts in a later one and asks the enclave in a
  still later one, with any steps of the threads, the writers of the database and other clients in
  between. It sends back an encrypted response that carries the events of the first state sorted
  by kind, the four counts that were published in the second, and for every search key of the
  request, in the order of the request, its record if a block loaded by the third state has one and a miss
  otherwise; every block that was loaded when the counts were read is still among these.
\<close>

theorem view_query_complete:
  fixes s1 s2 s3 :: "(recovery_db, ('m, 'a) ViewEnclave) view_sys"
  assumes "omap_laws KeySize ValueSize M content" "permutes scan" "db_inv db" "nonneg_blocks db"
    and "e_tx_out_store e0 = Some (ETxOutStore_new M capacity)"
    and "(server_step M A dec enc dec_txs scan scan_blocks enc_txs enc_report)\<^sup>*\<^sup>* (view_init db e0) s1"
    and "(server_step M A dec enc dec_txs scan scan_blocks enc_txs enc_report)\<^sup>*\<^sup>* s1 s2"
    and "(server_step M A dec enc dec_txs scan scan_blocks enc_txs enc_report)\<^sup>*\<^sup>* s2 s3" "\<not> v_worker_stuck s3"
    and "dec_aad aad = Some q"
    and "search_user_events scan' (start_from_user_event_id q) (v_db s1) = (Ok (events, next_id), db')"
    and "client_decrypt A msg (ve_ake (v_enclave s3)) = (Ok pt, a)" "dec pt = Some req"
  shows "\<exists>resp. highest_processed_block_count resp = ps_highest_processed_block_count (v_poll s2) \<and>
     highest_processed_block_signature_timestamp resp = ps_highest_processed_block_signature_timestamp (v_poll s2) \<and>
     last_known_block_count resp = ps_last_known_block_count (v_poll s2) \<and>
     last_known_block_cumulative_txo_count resp = ps_last_known_block_cumulative_txo_count (v_poll s2) \<and>
     next_start_from_user_event_id resp = next_id \<and>
     rng_records resp = List.map_filter (\<lambda>e. case e of NewRngRecord r \<Rightarrow> Some r | _ \<Rightarrow> None) events \<and>
     decommissioned_ingest_invocations resp =
       List.map_filter (\<lambda>e. case e of DecommissionIngestInvocation d \<Rightarrow> Some d | _ \<Rightarrow> None) events \<and>
     missed_block_ranges resp = List.map_filter (\<lambda>e. case e of MissingBlocks b \<Rightarrow> Some b | _ \<Rightarrow> None) events \<and>
     (\<exists>miss. tx_out_search_results resp = map (answer (records_map (log_records (v_log s3))) miss) (get_txos req)) \<and>
     prefix (v_log s2) (v_log s3) \<and>
     fst (query_impl M A dec_aad dec enc scan' aad msg (v_poll s2) (v_db s1) (v_enclave s3)) =
       Some (case_sum (\<lambda>x. Err RPC_INTERNAL) Ok (fst (client_encrypt A (channel_id A msg) [] (enc resp) a)))"
proof -
  note bs = sql_block_store [OF assms(2), of dec_txs scan_blocks enc_txs enc_report]
  have "sql_inv db" using assms(3,4) by (simp add: sql_inv_def)
  have "(server_step M A dec enc dec_txs scan scan_blocks enc_txs enc_report)\<^sup>*\<^sup>* (view_init db e0) s3"
    using assms(6-8) by (meson rtranclp_trans)
  note loaded = mp [OF block_store.enclave_log_reachable [OF bs this [folded view_reachable_def] \<open>sql_inv db\<close>] assms(9)]
  have "enclave_holds content [] e0"
    using assms(5) ETxOutStore_new_inv [OF assms(1), of capacity] by (simp add: enclave_holds_def)
  then have "enclave_holds content (log_records (v_log s3)) (v_enclave s3)"
    by (rule loads_holds [OF assms(1) _ loaded])
  from enclave_query_answers [where dec = dec and enc = enc and u = "untrusted_response events next_id (v_poll s2)",
      OF assms(1) this assms(12,13)]
  obtain miss where miss: "fst (enclave_query M A dec enc msg (untrusted_response events next_id (v_poll s2)) (v_enclave s3)) =
     Some (case_sum (\<lambda>x. Err (VE_AttestEnclave x)) Ok
       (fst (client_encrypt A (channel_id A msg) []
          (enc (response_of (untrusted_response events next_id (v_poll s2))
             (map (answer (records_map (log_records (v_log s3))) miss) (get_txos req)))) a)))"
    by blast
  let ?resp = "response_of (untrusted_response events next_id (v_poll s2))
     (map (answer (records_map (log_records (v_log s3))) miss) (get_txos req))"
  have "fst (query_impl M A dec_aad dec enc scan' aad msg (v_poll s2) (v_db s1) (v_enclave s3)) =
     Some (case_sum (\<lambda>x. Err RPC_INTERNAL) Ok (fst (client_encrypt A (channel_id A msg) [] (enc ?resp) a)))"
    using miss assms(10,11)
    by (simp add: query_impl_def split_beta enclave_err_to_rpc_status_def split: sum.splits)
  moreover have "prefix (v_log s2) (v_log s3)" using assms(8) by (rule log_mono)
  ultimately show ?thesis
    by (intro exI [of _ ?resp]) (auto simp: response_of_def sort_events_eq untrusted_response_def)
qed

definition toy_ake :: "(unit, unit, bytes, unit, unit) ake_ops" where
  "toy_ake = \<lparr>ake_init = (\<lambda>_ a. (Ok (), a)), client_accept = (\<lambda>_ a. (Ok ([], ()), a)),
              client_close = (\<lambda>_ a. (Ok (), a)), channel_id = (\<lambda>_. ()), client_decrypt = (\<lambda>m a. (Ok m, a)),
              client_encrypt = (\<lambda>_ _ m a. (Ok m, a))\<rparr>"

text \<open>A request for a key that the sample block has and one that it has not.\<close>

definition toy_request :: QueryRequest where
  "toy_request = \<lparr>get_txos = [replicate 16 7, sample_search_key]\<rparr>"

definition toy_aad :: QueryRequestAAD where
  "toy_aad = \<lparr>start_from_user_event_id = 0, start_from_block_index = 0\<rparr>"

text \<open>A response as bytes, for the witness: the published count, the number of events and the result codes.\<close>

definition toy_enc :: "QueryResponse \<Rightarrow> bytes" where
  "toy_enc r = [ucast (highest_processed_block_count r), of_nat (length (rng_records r))] @
               map (\<lambda>x. ucast (sr_result_code x)) (tx_out_search_results r)"

definition toy_enclave :: "(nat \<times> (bytes \<times> bytes) list, unit) ViewEnclave" where
  "toy_enclave = snd (ViewEnclave_init table_ops toy_ake () 8 (ViewEnclave_new ()))"

definition toy_add ::
  "ETxOutRecord list \<Rightarrow> (nat \<times> (bytes \<times> bytes) list, unit) ViewEnclave
     \<Rightarrow> (unit view_error, unit) result \<times> (nat \<times> (bytes \<times> bytes) list, unit) ViewEnclave"
where
  "toy_add = ecall_add_records table_ops"

lemma table_write_empty:
  "om_vartime_write table_ops (replicate 16 7) v True (om_create table_ops 8) = (OMAP_NOT_FOUND, 8, [(replicate 16 7, v)])"
  by (simp add: table_ops_def table_write_def zero_key_def list_all_iff)

lemma toy_added: obtains e where "toy_add sample_txs toy_enclave = (Ok (), e)"
proof -
  obtain st where "add_record table_ops (replicate 16 7) [1, 2, 3] (ETxOutStore_new table_ops 8) = (Some (Ok ()), st)"
    using table_write_empty by (simp add: add_record_def ETxOutStore_new_def KeySize_def ValueSize_def Let_def)
  then have "toy_add sample_txs toy_enclave = (Ok (), toy_enclave\<lparr>e_tx_out_store := Some st\<rparr>)"
    by (simp add: toy_add_def ecall_add_records_def add_records_def toy_enclave_def ViewEnclave_init_def toy_ake_def sample_txs_def)
  then show thesis by (rule that)
qed

text \<open>The events are read before the sample block is loaded, the counts and the records after.\<close>

theorem view_query_complete_witness:
  "\<exists>s. finish_tick wit_store (run_loaded toy_add toy_enclave) = Some s \<and>
     fst (query_impl table_ops toy_ake (\<lambda>_. Some toy_aad) (\<lambda>_. Some toy_request) toy_enc (\<lambda>xs. xs) [] []
            (v_poll s) sample_db3 (v_enclave s)) = Some (Ok [6, 1, 1, 2])"
proof -
  let ?V = "server_step table_ops toy_ake (\<lambda>_. Some toy_request) toy_enc sample_dec (\<lambda>xs. xs) (\<lambda>xs. xs) sample_enc sample_enc_report"
  let ?s1 = "view_init sample_db3 toy_enclave"
  let ?rng = "\<lparr>rr_ingest_invocation_id = 1, rr_pubkey = sample_egress, rr_start_block = 5\<rparr>"
  obtain e where add: "toy_add sample_txs toy_enclave = (Ok (), e)" by (rule toy_added)
  note added = run_added [where add = toy_add, OF add]
  obtain s where s: "finish_tick wit_store (run_loaded toy_add toy_enclave) = Some s"
    "ps_highest_processed_block_count (v_poll s) = 6"
    using run_published [where add = toy_add, OF add] .
  have "?V\<^sup>*\<^sup>* ?s1 (run_loaded toy_add toy_enclave)"
    using run_reachable unfolding view_reachable_def wit_store_def toy_add_def .
  moreover have "?V (run_loaded toy_add toy_enclave) s"
    using added s(1) by (intro vs_finish) (simp_all add: wit_store_def)
  ultimately have steps: "?V\<^sup>*\<^sup>* ?s1 ?s1" "?V\<^sup>*\<^sup>* ?s1 s" "?V\<^sup>*\<^sup>* s s" by simp_all
  have log: "v_log s = v_log (run_loaded toy_add toy_enclave)" and stuck: "\<not> v_worker_stuck s"
    using s(1) added by (auto simp: finish_tick_def split: option.splits prod.splits)
  have nonneg: "nonneg_blocks sample_db3" by (simp add: nonneg_blocks_def sample_eqs)
  have store: "e_tx_out_store toy_enclave = Some (ETxOutStore_new table_ops 8)"
    by (simp add: toy_enclave_def ViewEnclave_init_def toy_ake_def)
  have events: "search_user_events (\<lambda>xs. xs) (start_from_user_event_id toy_aad) (v_db ?s1) = (Ok ([NewRngRecord ?rng], 1), sample_db3)"
    by (simp add: toy_aad_def view_init_def sample_eqs search_user_events_def i64_max_def join_invocation_def event_of_row_def
        new_ingest_invocation_event_def sample_egress_def as_u64_def)
  have "hd sample_search_key \<noteq> hd (replicate 16 7)" by (simp add: sample_search_key_def hd_replicate)
  then have keys: "sample_search_key \<noteq> replicate 16 7" by metis
  have zero: "\<not> zero_key (replicate 16 7)" "\<not> zero_key sample_search_key"
    by (simp_all add: zero_key_def list_all_iff sample_search_key_def)
  have len: "length (replicate 16 (7 :: u8)) = KeySize" "length sample_search_key = KeySize"
    by (simp_all add: KeySize_def sample_search_key_def)
  have codes: "sr_result_code (answer (records_map sample_txs) n (replicate 16 7)) = 1"
    "sr_result_code (answer (records_map sample_txs) n sample_search_key) = 2" for n
    using keys zero len by (simp_all add: answer_def sample_txs_def)
  from view_query_complete [where aad = "[]" and dec_aad = "\<lambda>_. Some toy_aad", OF table_laws permutes_id sample_inv(4) nonneg store steps stuck refl events, of "[]" "[]" "()" toy_request]
  show ?thesis
    using s log added(6) by (auto simp: view_init_def log_records_def toy_request_def codes toy_ake_def toy_enc_def map_filter_simps)
qed

end
