(* ===== verification/Kex_Rng.thy ===== *)
theory Kex_Rng
  imports Fog_Types
begin

text \<open>
  The key exchange random number generators of \<^verbatim>\<open>src/fog/kex_rng\<close>: a buffered generator over a
  pseudorandom function keyed by a key exchange secret, the versioned generator that clients use,
  and their stored form. The ingest enclave draws search keys from the same function, so a client
  that derives the secret from the announced public key sees the keys of its own records.

  The key exchange (\<^verbatim>\<open>mc_crypto_keys\<close>) is the argument \<open>K\<close>, with the laws \<open>kex_laws\<close>; the
  hash function (\<^verbatim>\<open>blake2\<close>) is the argument \<open>blake2b\<close>. The trait \<^verbatim>\<open>BufferedRng\<close> is the locale
  \<open>buffered_rng\<close>, interpreted on both implementations.
\<close>

section \<open>Interfaces (\<^verbatim>\<open>traits.rs\<close>, \<^verbatim>\<open>error.rs\<close>, \<^verbatim>\<open>lib.rs\<close>)\<close>

record KexRngCore =
  OutputSize :: nat
  VERSION_ID :: u32
  core_prf :: "bytes \<Rightarrow> u64 \<Rightarrow> bytes"

text \<open>
  The trait \<^verbatim>\<open>Kex\<close> of \<^verbatim>\<open>mc_crypto_keys\<close>. \<^verbatim>\<open>new_secret\<close> draws an ephemeral private key from a
  random source; it is a function of the drawn randomness. The bytes of a secret are what
  \<^verbatim>\<open>as_ref\<close> gives.
\<close>

record ('rnd, 'priv, 'pub) Kex =
  Public_Size :: nat
  Public_from :: "'priv \<Rightarrow> 'pub"
  Public_bytes :: "'pub \<Rightarrow> bytes"
  Public_try_from :: "bytes \<Rightarrow> (KeyError, 'pub) result"
  key_exchange :: "'priv \<Rightarrow> 'pub \<Rightarrow> bytes"
  new_secret :: "'rnd \<Rightarrow> 'pub \<Rightarrow> 'pub \<times> bytes"

datatype kex_rng_error = KexRng_Key KeyError | UnknownVersion u32

record StoredRng =
  sto_secret :: bytes
  sto_buffer :: bytes
  sto_counter :: u64
  sto_version :: u32

definition KexRngPubkey_from_public_key ::
  "KexRngCore \<Rightarrow> ('rnd, 'priv, 'pub) Kex \<Rightarrow> 'pub \<Rightarrow> KexRngPubkey"
where
  "KexRngPubkey_from_public_key core K public =
     \<lparr>kp_public_key = Public_bytes K public, kp_version = VERSION_ID core\<rparr>"

section \<open>The generator of November 2020 (\<^verbatim>\<open>versioned/kexrng20201124.rs\<close>)\<close>

definition domain_tag :: bytes where
  "domain_tag = [0x32, 0x30, 0x32, 0x30, 0x31, 0x31, 0x32, 0x34]"

definition KexRng20201124 :: "(bytes \<Rightarrow> bytes) \<Rightarrow> KexRngCore" where
  "KexRng20201124 blake2b =
     \<lparr>OutputSize = 16, VERSION_ID = 0,
      core_prf = (\<lambda>secret counter. take 16 (blake2b (domain_tag @ secret @ to_le_bytes counter)))\<rparr>"

section \<open>Buffered generators (\<^verbatim>\<open>versioned/buffered.rs\<close>)\<close>

record BufferedKexRng =
  secret :: bytes
  counter :: u64
  buffer :: bytes

definition BufferedKexRng_peek :: "BufferedKexRng \<Rightarrow> bytes" where
  "BufferedKexRng_peek self = buffer self"

definition BufferedKexRng_advance :: "KexRngCore \<Rightarrow> BufferedKexRng \<Rightarrow> BufferedKexRng" where
  "BufferedKexRng_advance core self =
     (let c = counter self + 1
      in self\<lparr>counter := c, buffer := core_prf core (secret self) c\<rparr>)"

definition BufferedKexRng_index :: "BufferedKexRng \<Rightarrow> u64" where
  "BufferedKexRng_index self = counter self"

definition BufferedKexRng_version_id :: "KexRngCore \<Rightarrow> BufferedKexRng \<Rightarrow> u32" where
  "BufferedKexRng_version_id core self = VERSION_ID core"

definition BufferedKexRng_from_secret :: "KexRngCore \<Rightarrow> bytes \<Rightarrow> BufferedKexRng" where
  "BufferedKexRng_from_secret core src = \<lparr>secret = src, counter = 0, buffer = core_prf core src 0\<rparr>"

definition BufferedKexRng_new_from_ephemeral_static ::
  "KexRngCore \<Rightarrow> ('rnd, 'priv, 'pub) Kex \<Rightarrow> 'rnd \<Rightarrow> 'pub \<Rightarrow> KexRngPubkey \<times> BufferedKexRng"
where
  "BufferedKexRng_new_from_ephemeral_static core K rng pubkey =
     (let (our_public, s) = new_secret K rng pubkey
      in (KexRngPubkey_from_public_key core K our_public, BufferedKexRng_from_secret core s))"

definition BufferedKexRng_new_from_static_static ::
  "KexRngCore \<Rightarrow> ('rnd, 'priv, 'pub) Kex \<Rightarrow> 'priv \<Rightarrow> 'pub \<Rightarrow> KexRngPubkey \<times> BufferedKexRng"
where
  "BufferedKexRng_new_from_static_static core K our_private their_pubkey =
     (KexRngPubkey_from_public_key core K (Public_from K our_private),
      BufferedKexRng_from_secret core (key_exchange K our_private their_pubkey))"

definition BufferedKexRng_try_from_kex_pubkey ::
  "KexRngCore \<Rightarrow> ('rnd, 'priv, 'pub) Kex \<Rightarrow> KexRngPubkey \<Rightarrow> 'priv \<Rightarrow> (kex_rng_error, BufferedKexRng) result"
where
  "BufferedKexRng_try_from_kex_pubkey core K pubkey our_private =
     (if kp_version pubkey \<noteq> VERSION_ID core then Err (KexRng_Key AlgorithmMismatch)
      else case Public_try_from K (kp_public_key pubkey) of
             Inl e \<Rightarrow> Err (KexRng_Key e)
           | Inr p \<Rightarrow> Ok (BufferedKexRng_from_secret core (key_exchange K our_private p)))"

definition BufferedKexRng_into_stored :: "KexRngCore \<Rightarrow> BufferedKexRng \<Rightarrow> StoredRng" where
  "BufferedKexRng_into_stored core src =
     \<lparr>sto_secret = secret src, sto_buffer = buffer src, sto_counter = counter src,
      sto_version = VERSION_ID core\<rparr>"

definition BufferedKexRng_try_from_stored ::
  "KexRngCore \<Rightarrow> ('rnd, 'priv, 'pub) Kex \<Rightarrow> StoredRng \<Rightarrow> (KeyError, BufferedKexRng) result"
where
  "BufferedKexRng_try_from_stored core K src =
     (if sto_version src \<noteq> VERSION_ID core then Err AlgorithmMismatch
      else if length (sto_buffer src) \<noteq> OutputSize core
      then Err (LengthMismatch (length (sto_buffer src)) (OutputSize core))
      else if length (sto_secret src) \<noteq> Public_Size K
      then Err (LengthMismatch (length (sto_secret src)) (Public_Size K))
      else Ok \<lparr>secret = sto_secret src, counter = sto_counter src, buffer = sto_buffer src\<rparr>)"

section \<open>The versioned generator (\<^verbatim>\<open>versioned/macros.rs\<close>, \<^verbatim>\<open>versioned/mod.rs\<close>)\<close>

text \<open>
  The macro is instantiated with the one version \<^verbatim>\<open>V0 => KexRng20201124\<close>, which is also the
  default.
\<close>

datatype VersionedKexRng = V0 BufferedKexRng

definition VersionedKexRng_new_from_ephemeral_static ::
  "(bytes \<Rightarrow> bytes) \<Rightarrow> ('rnd, 'priv, 'pub) Kex \<Rightarrow> 'rnd \<Rightarrow> 'pub \<Rightarrow> KexRngPubkey \<times> VersionedKexRng"
where
  "VersionedKexRng_new_from_ephemeral_static blake2b K rng pubkey =
     (let (kex_pubkey, buf) = BufferedKexRng_new_from_ephemeral_static (KexRng20201124 blake2b) K rng pubkey
      in (kex_pubkey, V0 buf))"

definition VersionedKexRng_new_from_static_static ::
  "(bytes \<Rightarrow> bytes) \<Rightarrow> ('rnd, 'priv, 'pub) Kex \<Rightarrow> 'priv \<Rightarrow> 'pub \<Rightarrow> KexRngPubkey \<times> VersionedKexRng"
where
  "VersionedKexRng_new_from_static_static blake2b K our_private pubkey =
     (let (kex_pubkey, buf) =
            BufferedKexRng_new_from_static_static (KexRng20201124 blake2b) K our_private pubkey
      in (kex_pubkey, V0 buf))"

definition VersionedKexRng_try_from_kex_pubkey ::
  "(bytes \<Rightarrow> bytes) \<Rightarrow> ('rnd, 'priv, 'pub) Kex \<Rightarrow> KexRngPubkey \<Rightarrow> 'priv \<Rightarrow> (kex_rng_error, VersionedKexRng) result"
where
  "VersionedKexRng_try_from_kex_pubkey blake2b K pubkey private_key =
     (if kp_version pubkey = VERSION_ID (KexRng20201124 blake2b)
      then case BufferedKexRng_try_from_kex_pubkey (KexRng20201124 blake2b) K pubkey private_key of
             Inl e \<Rightarrow> Err e | Inr buf \<Rightarrow> Ok (V0 buf)
      else Err (UnknownVersion (kp_version pubkey)))"

definition VersionedKexRng_try_from_stored ::
  "(bytes \<Rightarrow> bytes) \<Rightarrow> ('rnd, 'priv, 'pub) Kex \<Rightarrow> StoredRng \<Rightarrow> (kex_rng_error, VersionedKexRng) result"
where
  "VersionedKexRng_try_from_stored blake2b K src =
     (if sto_version src = VERSION_ID (KexRng20201124 blake2b)
      then case BufferedKexRng_try_from_stored (KexRng20201124 blake2b) K src of
             Inl e \<Rightarrow> Err (KexRng_Key e) | Inr buf \<Rightarrow> Ok (V0 buf)
      else Err (UnknownVersion (sto_version src)))"

fun VersionedKexRng_into_stored :: "(bytes \<Rightarrow> bytes) \<Rightarrow> VersionedKexRng \<Rightarrow> StoredRng" where
  "VersionedKexRng_into_stored blake2b (V0 inner) = BufferedKexRng_into_stored (KexRng20201124 blake2b) inner"

fun VersionedKexRng_peek :: "VersionedKexRng \<Rightarrow> bytes" where
  "VersionedKexRng_peek (V0 inner) = BufferedKexRng_peek inner"

fun VersionedKexRng_advance :: "(bytes \<Rightarrow> bytes) \<Rightarrow> VersionedKexRng \<Rightarrow> VersionedKexRng" where
  "VersionedKexRng_advance blake2b (V0 inner) = V0 (BufferedKexRng_advance (KexRng20201124 blake2b) inner)"

fun VersionedKexRng_index :: "VersionedKexRng \<Rightarrow> u64" where
  "VersionedKexRng_index (V0 inner) = BufferedKexRng_index inner"

fun VersionedKexRng_version_id :: "(bytes \<Rightarrow> bytes) \<Rightarrow> VersionedKexRng \<Rightarrow> u32" where
  "VersionedKexRng_version_id blake2b (V0 inner) = BufferedKexRng_version_id (KexRng20201124 blake2b) inner"

text \<open>
  \<^verbatim>\<open>Iterator::next\<close>, which the macro \<^verbatim>\<open>impl_iterator_for_buffered_rng\<close> gives every
  implementation of \<^verbatim>\<open>BufferedRng\<close>, and \<^verbatim>\<open>take(n).collect()\<close> on it.
\<close>

definition rng_next :: "('r \<Rightarrow> bytes) \<Rightarrow> ('r \<Rightarrow> 'r) \<Rightarrow> 'r \<Rightarrow> bytes \<times> 'r" where
  "rng_next peek advance self = (peek self, advance self)"

fun rng_take :: "('r \<Rightarrow> bytes) \<Rightarrow> ('r \<Rightarrow> 'r) \<Rightarrow> nat \<Rightarrow> 'r \<Rightarrow> bytes list \<times> 'r" where
  "rng_take peek advance 0 self = ([], self)"
| "rng_take peek advance (Suc n) self =
     (let (out, self') = rng_next peek advance self;
          (outs, self'') = rng_take peek advance n self'
      in (out # outs, self''))"

section \<open>The contract of \<^verbatim>\<open>BufferedRng\<close>\<close>

text \<open>
  \<open>out_at r i\<close> is the \<open>i\<close>th output of the sequence the generator stands for. Wrap-around of
  the \<^verbatim>\<open>u64\<close> index is part of the contract.
\<close>

locale buffered_rng =
  fixes index :: "'r \<Rightarrow> u64" and peek :: "'r \<Rightarrow> bytes" and advance :: "'r \<Rightarrow> 'r"
    and into_stored :: "'r \<Rightarrow> StoredRng" and try_from_stored :: "StoredRng \<Rightarrow> ('e, 'r) result"
    and wf :: "'r \<Rightarrow> bool" and out_at :: "'r \<Rightarrow> u64 \<Rightarrow> bytes"
  assumes index_advance: "index (advance r) = index r + 1"
    and peek_output: "wf r \<Longrightarrow> peek r = out_at r (index r)"
    and output_advance: "out_at (advance r) = out_at r"
    and wf_advance: "wf r \<Longrightarrow> wf (advance r)"
    and stored: "wf r \<Longrightarrow> try_from_stored (into_stored r) = Ok r"
begin

lemma index_funpow: "index ((advance ^^ n) r) = index r + of_nat n"
  by (induction n) (simp_all add: index_advance)

lemma output_funpow: "out_at ((advance ^^ n) r) = out_at r"
  by (induction n) (simp_all add: output_advance)

lemma wf_funpow: "wf r \<Longrightarrow> wf ((advance ^^ n) r)"
  by (induction n) (simp_all add: wf_advance)

lemma peek_funpow: "wf r \<Longrightarrow> peek ((advance ^^ n) r) = out_at r (index r + of_nat n)"
  by (simp add: peek_output wf_funpow index_funpow output_funpow)

lemma take_outputs:
  "wf r \<Longrightarrow> rng_take peek advance n r =
     (map (\<lambda>i. out_at r (index r + of_nat i)) [0..<n], (advance ^^ n) r)"
proof (induction n arbitrary: r)
  case (Suc n)
  have "map (\<lambda>i. out_at r (index r + of_nat i)) [0..<Suc n] =
          peek r # map (\<lambda>i. out_at r (index r + 1 + of_nat i)) [0..<n]"
    using Suc.prems
    by (subst upt_conv_Cons, simp)
       (simp add: peek_output map_Suc_upt [symmetric] comp_def add.assoc del: upt_Suc)
  moreover have "(advance ^^ n) (advance r) = (advance ^^ Suc n) r"
    by (metis comp_apply funpow_Suc_right)
  ultimately show ?case
    using Suc by (simp add: rng_next_def wf_advance output_advance index_advance)
qed simp

lemma stored_after_draws:
  "wf r \<Longrightarrow> try_from_stored (into_stored (snd (rng_take peek advance n r))) = Ok ((advance ^^ n) r)"
  by (simp add: take_outputs stored wf_funpow)

end

section \<open>Both generators keep the contract\<close>

definition buffered_wf :: "KexRngCore \<Rightarrow> ('rnd, 'priv, 'pub) Kex \<Rightarrow> BufferedKexRng \<Rightarrow> bool" where
  "buffered_wf core K r \<longleftrightarrow>
     buffer r = core_prf core (secret r) (counter r) \<and> length (secret r) = Public_Size K \<and>
     (\<forall>c. length (core_prf core (secret r) c) = OutputSize core)"

fun versioned_wf :: "(bytes \<Rightarrow> bytes) \<Rightarrow> ('rnd, 'priv, 'pub) Kex \<Rightarrow> VersionedKexRng \<Rightarrow> bool" where
  "versioned_wf blake2b K (V0 inner) = buffered_wf (KexRng20201124 blake2b) K inner"

fun versioned_secret :: "VersionedKexRng \<Rightarrow> bytes" where
  "versioned_secret (V0 inner) = secret inner"

lemmas buffered_defs =
  BufferedKexRng_peek_def BufferedKexRng_advance_def BufferedKexRng_index_def
  BufferedKexRng_from_secret_def BufferedKexRng_into_stored_def BufferedKexRng_try_from_stored_def

interpretation buf: buffered_rng BufferedKexRng_index BufferedKexRng_peek "BufferedKexRng_advance core"
  "BufferedKexRng_into_stored core" "BufferedKexRng_try_from_stored core K" "buffered_wf core K"
  "\<lambda>r. core_prf core (secret r)" for core K
  by unfold_locales (auto simp: buffered_defs buffered_wf_def Let_def)

lemma versioned_buffered_rng:
  "buffered_rng VersionedKexRng_index VersionedKexRng_peek (VersionedKexRng_advance blake2b)
     (VersionedKexRng_into_stored blake2b) (VersionedKexRng_try_from_stored blake2b K)
     (versioned_wf blake2b K) (\<lambda>r. core_prf (KexRng20201124 blake2b) (versioned_secret r))"
proof unfold_locales
  fix r
  show "VersionedKexRng_index (VersionedKexRng_advance blake2b r) = VersionedKexRng_index r + 1"
    by (cases r) (simp add: buf.index_advance)
  show "(\<lambda>i. core_prf (KexRng20201124 blake2b) (versioned_secret (VersionedKexRng_advance blake2b r)) i) =
          core_prf (KexRng20201124 blake2b) (versioned_secret r)"
    by (cases r) (simp add: buffered_defs Let_def)
  assume wf: "versioned_wf blake2b K r"
  show "VersionedKexRng_peek r = core_prf (KexRng20201124 blake2b) (versioned_secret r) (VersionedKexRng_index r)"
    using wf buf.peek_output by (cases r) auto
  show "versioned_wf blake2b K (VersionedKexRng_advance blake2b r)"
    using wf buf.wf_advance by (cases r) auto
  show "VersionedKexRng_try_from_stored blake2b K (VersionedKexRng_into_stored blake2b r) = Ok r"
    using wf
    by (cases r) (simp add: VersionedKexRng_try_from_stored_def buf.stored, simp add: buffered_defs)
qed

interpretation ver: buffered_rng VersionedKexRng_index VersionedKexRng_peek "VersionedKexRng_advance blake2b"
  "VersionedKexRng_into_stored blake2b" "VersionedKexRng_try_from_stored blake2b K"
  "versioned_wf blake2b K" "\<lambda>r. core_prf (KexRng20201124 blake2b) (versioned_secret r)" for blake2b K
  by (rule versioned_buffered_rng)

section \<open>Agreement of both ends of a key exchange\<close>

text \<open>
  What is relied on of \<^verbatim>\<open>mc_crypto_keys\<close>: both parties of a key exchange get the same secret, a
  public key parses back from its bytes, and secrets have the size of public keys.
\<close>

definition kex_laws :: "('rnd, 'priv, 'pub) Kex \<Rightarrow> bool" where
  "kex_laws K \<longleftrightarrow>
     (\<forall>a b. key_exchange K a (Public_from K b) = key_exchange K b (Public_from K a)) \<and>
     (\<forall>rnd a. snd (new_secret K rnd (Public_from K a)) =
              key_exchange K a (fst (new_secret K rnd (Public_from K a)))) \<and>
     (\<forall>p. Public_try_from K (Public_bytes K p) = Ok p) \<and>
     (\<forall>a p. length (key_exchange K a p) = Public_Size K)"

text \<open>The digest of \<^verbatim>\<open>Blake2b\<close> has 64 bytes.\<close>

definition blake2b_size :: "(bytes \<Rightarrow> bytes) \<Rightarrow> bool" where
  "blake2b_size blake2b \<longleftrightarrow> (\<forall>m. length (blake2b m) = 64)"

lemma core_prf_length:
  "blake2b_size blake2b \<Longrightarrow> length (core_prf (KexRng20201124 blake2b) s c) = OutputSize (KexRng20201124 blake2b)"
  by (simp add: KexRng20201124_def blake2b_size_def)

lemma from_secret_wf:
  assumes "blake2b_size blake2b" "length s = Public_Size K"
  shows "versioned_wf blake2b K (V0 (BufferedKexRng_from_secret (KexRng20201124 blake2b) s))"
  using assms by (simp add: buffered_wf_def BufferedKexRng_from_secret_def core_prf_length)

lemma VERSION_ID_KexRng20201124 [simp]: "VERSION_ID (KexRng20201124 blake2b) = 0"
  by (simp add: KexRng20201124_def)

lemma try_from_kex_pubkey_own:
  assumes "kex_laws K"
  shows "VersionedKexRng_try_from_kex_pubkey blake2b K
           (KexRngPubkey_from_public_key (KexRng20201124 blake2b) K p) a =
         Ok (V0 (BufferedKexRng_from_secret (KexRng20201124 blake2b) (key_exchange K a p)))"
  using assms
  by (simp add: VersionedKexRng_try_from_kex_pubkey_def BufferedKexRng_try_from_kex_pubkey_def
      KexRngPubkey_from_public_key_def kex_laws_def)

lemma versioned_new_index [simp]:
  "VersionedKexRng_index (V0 (BufferedKexRng_from_secret core s)) = 0"
  "versioned_secret (V0 (BufferedKexRng_from_secret core s)) = s"
  by (simp_all add: buffered_defs)

text \<open>
  C29: both ends of the key exchange draw the same search keys. A generator created for a public
  view key, by a static or an ephemeral exchange, is announced by its \<^verbatim>\<open>KexRngPubkey\<close>; the holder
  of the view key rebuilds the very same generator from it, its \<open>n\<close> first draws are the
  pseudorandom function at the counters \<open>0, \<dots>, n - 1\<close>, and after them the generator survives
  its stored form. A key of another version is rejected.
\<close>

theorem kex_rng_agreement:
  assumes "kex_laws K" "blake2b_size blake2b"
    and "(pk, r) = VersionedKexRng_new_from_static_static blake2b K our_private (Public_from K view_key) \<or>
         (pk, r) = VersionedKexRng_new_from_ephemeral_static blake2b K rnd (Public_from K view_key)"
  shows "VersionedKexRng_try_from_kex_pubkey blake2b K pk view_key = Ok r \<and>
         fst (rng_take VersionedKexRng_peek (VersionedKexRng_advance blake2b) n r) =
           map (\<lambda>i. core_prf (KexRng20201124 blake2b) (versioned_secret r) (of_nat i)) [0..<n] \<and>
         (let r' = snd (rng_take VersionedKexRng_peek (VersionedKexRng_advance blake2b) n r)
          in VersionedKexRng_index r' = of_nat n \<and>
             VersionedKexRng_try_from_stored blake2b K (VersionedKexRng_into_stored blake2b r') = Ok r') \<and>
         (\<forall>v. v \<noteq> 0 \<longrightarrow> VersionedKexRng_try_from_kex_pubkey blake2b K (pk\<lparr>kp_version := v\<rparr>) view_key =
                        Err (UnknownVersion v))"
proof -
  obtain p where p: "pk = KexRngPubkey_from_public_key (KexRng20201124 blake2b) K p"
      "r = V0 (BufferedKexRng_from_secret (KexRng20201124 blake2b) (key_exchange K view_key p))"
    using assms(1,3)
    by (auto simp: VersionedKexRng_new_from_static_static_def BufferedKexRng_new_from_static_static_def
        VersionedKexRng_new_from_ephemeral_static_def BufferedKexRng_new_from_ephemeral_static_def
        kex_laws_def split_beta Let_def)
  have wf: "versioned_wf blake2b K r"
    unfolding p(2) using assms(1,2) by (intro from_secret_wf) (simp_all add: kex_laws_def)
  have "VersionedKexRng_try_from_kex_pubkey blake2b K pk view_key = Ok r" "VersionedKexRng_index r = 0"
    using assms(1) p by (simp_all add: try_from_kex_pubkey_own buffered_defs)
  moreover have "\<forall>v. v \<noteq> 0 \<longrightarrow> VersionedKexRng_try_from_kex_pubkey blake2b K (pk\<lparr>kp_version := v\<rparr>) view_key =
                   Err (UnknownVersion v)"
    by (simp add: VersionedKexRng_try_from_kex_pubkey_def)
  ultimately show ?thesis
    by (simp add: ver.take_outputs [OF wf] ver.index_funpow ver.stored [OF ver.wf_funpow [OF wf]])
qed

text \<open>A toy group for the witnesses: keys are single bytes, the exchange adds them.\<close>

definition toy_kex :: "(u8, u8, u8) Kex" where
  "toy_kex = \<lparr>Public_Size = 32, Public_from = (\<lambda>a. a), Public_bytes = (\<lambda>p. [p]),
     Public_try_from = (\<lambda>bs. case bs of [p] \<Rightarrow> Ok p | _ \<Rightarrow> Err InvalidPublicKey),
     key_exchange = (\<lambda>a p. (a + p) # 1 # replicate 30 0),
     new_secret = (\<lambda>rnd p. (rnd, (rnd + p) # 1 # replicate 30 0))\<rparr>"

definition toy_blake2b :: "bytes \<Rightarrow> bytes" where
  "toy_blake2b m = take 64 (drop 8 m @ replicate 64 0)"

lemma toy_kex_laws: "kex_laws toy_kex" "blake2b_size toy_blake2b"
  by (auto simp: kex_laws_def toy_kex_def blake2b_size_def toy_blake2b_def add.commute)

theorem kex_rng_agreement_witness:
  "\<exists>pk r. (pk, r) = VersionedKexRng_new_from_static_static toy_blake2b toy_kex 7 5 \<and>
     VersionedKexRng_try_from_kex_pubkey toy_blake2b toy_kex pk 5 = Ok r \<and>
     fst (rng_take VersionedKexRng_peek (VersionedKexRng_advance toy_blake2b) 3 r) =
       map (\<lambda>i. core_prf (KexRng20201124 toy_blake2b) (versioned_secret r) (of_nat i)) [0..<3]"
proof -
  obtain pk r where pk: "(pk, r) = VersionedKexRng_new_from_static_static toy_blake2b toy_kex 7 5"
    by (metis surj_pair)
  have "Public_from toy_kex 5 = 5" by (simp add: toy_kex_def)
  with pk show ?thesis
    using kex_rng_agreement [OF toy_kex_laws, of pk r 7 5 _ 3] by auto
qed

end
