(* ===== verification/User_Rng_Set.thy ===== *)
theory User_Rng_Set
  imports Kex_Rng "HOL-Library.AList"
begin

text \<open>
  The client's set of generators, \<^verbatim>\<open>src/fog/view/protocol/src/user_rng_set.rs\<close> and
  \<^verbatim>\<open>user_private.rs\<close>: it matches the results of a search with the generators they were drawn
  from, decrypts them, and advances the generators past what was found.

  The hash map from nonces to generators is an association list with distinct keys, in the order in
  which the map is iterated; inserting may change that order, by the argument \<open>order\<close>. The crypto
  box and the decoder of records are the arguments \<open>box_decrypt\<close> and \<open>dec\<close>.
\<close>

section \<open>The user's private key (\<^verbatim>\<open>user_private.rs\<close>)\<close>

datatype 'ce TxOutRecoveryError =
    ProstDeserializationFailed
  | TxOutRecordDeserializationFailed
  | DecryptionFailed 'ce
  | MacCheckFailed
  | InvalidNonce
  | InvalidKey KeyError
  | TxOutSearchFailure TxOutSearchResultCode bytes
  | UnexpectedTxOutSearchResultCode u32 bytes
  | SearchKeyNotFound bytes
  | TR_KexRng kex_rng_error

text \<open>\<open>box_decrypt\<close> gives whether the mac is right and the decrypted payload.\<close>

definition decrypt_tx_out_result ::
  "('priv \<Rightarrow> bytes \<Rightarrow> ('ce, bool \<times> bytes) result) \<Rightarrow> (bytes \<Rightarrow> TxOutRecord option) \<Rightarrow> 'priv \<Rightarrow> bytes
     \<Rightarrow> ('ce TxOutRecoveryError, TxOutRecord) result"
where
  "decrypt_tx_out_result box_decrypt dec view_key ciphertext =
     (case box_decrypt view_key ciphertext of
        Inl e \<Rightarrow> Err (DecryptionFailed e)
      | Inr (success, plaintext) \<Rightarrow>
          if \<not> success then Err MacCheckFailed
          else case dec plaintext of None \<Rightarrow> Err TxOutRecordDeserializationFailed | Some txo \<Rightarrow> Ok txo)"

section \<open>The set of generators (\<^verbatim>\<open>user_rng_set.rs\<close>)\<close>

record UserRngSet =
  rngs :: "(bytes \<times> VersionedKexRng) list"
  us_highest_processed_block_count :: u64
  us_next_start_from_user_event_id :: i64

definition UserRngSet_new :: UserRngSet where
  "UserRngSet_new = \<lparr>rngs = [], us_highest_processed_block_count = 0, us_next_start_from_user_event_id = 0\<rparr>"

definition ingest_rng_record ::
  "(bytes \<Rightarrow> bytes) \<Rightarrow> ('rnd, 'priv, 'pub) Kex \<Rightarrow> ((bytes \<times> VersionedKexRng) list \<Rightarrow> (bytes \<times> VersionedKexRng) list)
     \<Rightarrow> 'priv \<Rightarrow> RngRecord \<Rightarrow> UserRngSet \<Rightarrow> ('ce TxOutRecoveryError, unit) result \<times> UserRngSet"
where
  "ingest_rng_record blake2b K order view_key rec self =
     (case VersionedKexRng_try_from_kex_pubkey blake2b K (rr_pubkey rec) view_key of
        Inl e \<Rightarrow> (Err (TR_KexRng e), self)
      | Inr rng \<Rightarrow>
          (case map_of (rngs self) (kp_public_key (rr_pubkey rec)) of
             Some _ \<Rightarrow> (Ok (), self)
           | None \<Rightarrow> (Ok (), self\<lparr>rngs := order (rngs self @ [(kp_public_key (rr_pubkey rec), rng)])\<rparr>)))"

text \<open>The first loop of \<^verbatim>\<open>ingest_tx_out_search_results\<close>: the map of hits, and the failures.\<close>

fun build_tx_result_map ::
  "TxOutSearchResult list \<Rightarrow> (bytes \<times> bytes) list \<Rightarrow> 'ce TxOutRecoveryError list
     \<Rightarrow> (bytes \<times> bytes) list \<times> 'ce TxOutRecoveryError list"
where
  "build_tx_result_map [] m failures = (m, failures)"
| "build_tx_result_map (r # rs) m failures =
     (case code_try_from (sr_result_code r) of
        Some code \<Rightarrow>
          if code = Found then build_tx_result_map rs (AList.update (sr_search_key r) (sr_ciphertext r) m) failures
          else if code \<noteq> NotFound
          then build_tx_result_map rs m (failures @ [TxOutSearchFailure code (sr_search_key r)])
          else build_tx_result_map rs m failures
      | None \<Rightarrow>
          build_tx_result_map rs m (failures @ [UnexpectedTxOutSearchResultCode (sr_result_code r) (sr_search_key r)]))"

text \<open>
  The inner loop: while the map has the current output of the generator, take it, decrypt it and
  advance. Every iteration removes an entry.
\<close>

lemma length_delete_less: "map_of m k = Some v \<Longrightarrow> length (AList.delete k m) < length m"
  by (induction m) (auto simp: AList.delete_eq less_Suc_eq_le)

function (sequential) drain_rng ::
  "('r \<Rightarrow> bytes) \<Rightarrow> ('r \<Rightarrow> 'r) \<Rightarrow> (bytes \<Rightarrow> ('e, 't) result) \<Rightarrow> 'r \<Rightarrow> (bytes \<times> bytes) list \<Rightarrow> 't list \<Rightarrow> 'e list
     \<Rightarrow> 'r \<times> (bytes \<times> bytes) list \<times> 't list \<times> 'e list"
where
  "drain_rng peek advance decrypt rng m successes failures =
     (case map_of m (peek rng) of
        None \<Rightarrow> (rng, m, successes, failures)
      | Some ciphertext \<Rightarrow>
          (case decrypt ciphertext of
             Inr txo \<Rightarrow> drain_rng peek advance decrypt (advance rng) (AList.delete (peek rng) m) (successes @ [txo]) failures
           | Inl err \<Rightarrow> drain_rng peek advance decrypt (advance rng) (AList.delete (peek rng) m) successes (failures @ [err])))"
  by pat_completeness auto
termination
  by (relation "measure (\<lambda>(_, _, _, _, m, _, _). length m)") (auto simp: length_delete_less)

declare drain_rng.simps [simp del]

fun drain_all ::
  "('r \<Rightarrow> bytes) \<Rightarrow> ('r \<Rightarrow> 'r) \<Rightarrow> (bytes \<Rightarrow> ('e, 't) result) \<Rightarrow> ('k \<times> 'r) list \<Rightarrow> (bytes \<times> bytes) list \<Rightarrow> 't list \<Rightarrow> 'e list
     \<Rightarrow> ('k \<times> 'r) list \<times> (bytes \<times> bytes) list \<times> 't list \<times> 'e list"
where
  "drain_all peek advance decrypt [] m successes failures = ([], m, successes, failures)"
| "drain_all peek advance decrypt ((k, rng) # rest) m successes failures =
     (let (rng', m1, s1, f1) = drain_rng peek advance decrypt rng m successes failures;
          (rest', m2, s2, f2) = drain_all peek advance decrypt rest m1 s1 f1
      in ((k, rng') # rest', m2, s2, f2))"

definition ingest_tx_out_search_results ::
  "(bytes \<Rightarrow> bytes) \<Rightarrow> ((bytes \<times> bytes) list \<Rightarrow> (bytes \<times> bytes) list)
     \<Rightarrow> (bytes \<Rightarrow> ('ce TxOutRecoveryError, TxOutRecord) result) \<Rightarrow> TxOutSearchResult list \<Rightarrow> UserRngSet
     \<Rightarrow> (TxOutRecord list \<times> 'ce TxOutRecoveryError list) \<times> UserRngSet"
where
  "ingest_tx_out_search_results blake2b order_rest decrypt results self =
     (let (m, failures) = build_tx_result_map results [] [];
          (rngs', rest, successes, failures') =
            drain_all VersionedKexRng_peek (VersionedKexRng_advance blake2b) decrypt (rngs self) m [] failures
      in ((successes, failures' @ map (\<lambda>(k, _). SearchKeyNotFound k) (order_rest rest)), self\<lparr>rngs := rngs'\<rparr>))"

section \<open>Draining one generator\<close>

text \<open>The records that decrypt, of a list of ciphertexts.\<close>

definition opened :: "(bytes \<Rightarrow> ('e, 't) result) \<Rightarrow> bytes list \<Rightarrow> 't list" where
  "opened decrypt cts = List.map_filter (\<lambda>ct. case decrypt ct of Inl _ \<Rightarrow> None | Inr t \<Rightarrow> Some t) cts"

lemma opened_simps [simp]:
  "opened decrypt [] = []"
  "opened decrypt (ct # cts) = (case decrypt ct of Inl _ \<Rightarrow> opened decrypt cts | Inr t \<Rightarrow> t # opened decrypt cts)"
  "opened decrypt (xs @ ys) = opened decrypt xs @ opened decrypt ys"
  by (auto simp: opened_def map_filter_simps map_filter_def split: sum.splits)

context buffered_rng
begin

text \<open>
  A generator is drained up to its first output that is not in the map; only its own outputs are
  taken out of the map.
\<close>

lemma drain_rng_spec:
  assumes "wf r" "drain_rng peek advance decrypt r m ss fs = (r', m', ss', fs')"
  shows "\<exists>n. r' = (advance ^^ n) r \<and>
     (\<forall>i < n. out_at r (index r + of_nat i) \<in> dom (map_of m)) \<and>
     inj_on (\<lambda>i. out_at r (index r + of_nat i)) {..<n} \<and>
     map_of m' = (map_of m) |` (- (\<lambda>i. out_at r (index r + of_nat i)) ` {..<n}) \<and>
     map_of m' (out_at r (index r + of_nat n)) = None \<and>
     ss' = ss @ opened decrypt (map (\<lambda>i. the (map_of m (out_at r (index r + of_nat i)))) [0..<n])"
  using assms
proof (induction "length m" arbitrary: r m ss fs rule: less_induct)
  case less
  show ?case
  proof (cases "map_of m (peek r)")
    case None
    with less.prems(2) have "r' = r" "m' = m" "ss' = ss"
      by (simp_all add: drain_rng.simps [of peek advance decrypt r])
    then show ?thesis
      using None less.prems(1) peek_output by (intro exI [of _ 0]) auto
  next
    case (Some ct)
    let ?m = "AList.delete (peek r) m"
    obtain ss1 fs1 where run: "drain_rng peek advance decrypt (advance r) ?m ss1 fs1 = (r', m', ss', fs')"
      and ss1: "ss1 = ss @ opened decrypt [ct]"
      using less.prems(2) Some
      by (auto simp: drain_rng.simps [of peek advance decrypt r] split: sum.splits)
    let ?o = "\<lambda>i. out_at r (index r + of_nat i)"
    have shift: "out_at (advance r) (index (advance r) + of_nat i) = ?o (Suc i)" for i
      by (simp add: output_advance index_advance add.assoc)
    have o0: "?o 0 = peek r" using peek_output [OF less.prems(1)] by simp
    from less.hyps [OF length_delete_less [OF Some] wf_advance [OF less.prems(1)] run]
    obtain n where n: "r' = (advance ^^ n) (advance r)"
        "\<forall>i < n. ?o (Suc i) \<in> dom (map_of ?m)" "inj_on (\<lambda>i. ?o (Suc i)) {..<n}"
        "map_of m' = (map_of ?m) |` (- (\<lambda>i. ?o (Suc i)) ` {..<n})"
        "map_of m' (?o (Suc n)) = None"
        "ss' = ss1 @ opened decrypt (map (\<lambda>i. the (map_of ?m (?o (Suc i)))) [0..<n])"
      unfolding shift by blast
    have del: "map_of ?m = (map_of m)(peek r := None)" by (simp add: delete_conv')
    have neq: "?o (Suc i) \<noteq> peek r" if "i < n" for i
      using n(2) that by (auto simp: del)
    have img: "?o ` {..<Suc n} = insert (peek r) ((\<lambda>i. ?o (Suc i)) ` {..<n})"
      by (simp only: lessThan_Suc_eq_insert_0 image_insert image_image o0)
    have "map (\<lambda>i. the (map_of m (?o i))) [0..<Suc n] = ct # map (\<lambda>i. the (map_of ?m (?o (Suc i)))) [0..<n]"
    proof -
      have "map (\<lambda>i. the (map_of m (?o i))) [0..<Suc n] = the (map_of m (?o 0)) # map (\<lambda>i. the (map_of m (?o (Suc i)))) [0..<n]"
        by (subst upt_conv_Cons, simp) (simp add: map_Suc_upt [symmetric] comp_def del: upt_Suc)
      then show ?thesis using Some o0 neq by (auto simp: del)
    qed
    then have "ss' = ss @ opened decrypt (map (\<lambda>i. the (map_of m (?o i))) [0..<Suc n])"
      unfolding n(6) ss1 by (simp del: upt_Suc split: sum.split)
    moreover have "r' = (advance ^^ Suc n) r"
      using n(1) by (metis comp_apply funpow_Suc_right)
    moreover have "?o i \<in> dom (map_of m)" if "i < Suc n" for i
      using that n(2) Some o0 by (cases i) (auto simp: del split: if_splits)
    moreover have "inj_on ?o {..<Suc n}"
      unfolding lessThan_Suc_eq_insert_0 using n(3) neq o0
      by (auto simp: inj_on_def image_iff) (metis Suc_inject)+
    moreover have "map_of m' = (map_of m) |` (- ?o ` {..<Suc n})"
      unfolding n(4) img by (auto simp: del restrict_map_def fun_eq_iff)
    ultimately show ?thesis
      using n(5) by (intro exI [of _ "Suc n"]) blast
  qed
qed

text \<open>\<open>stream r i\<close> is the output \<open>i\<close> steps ahead; \<open>stop_at D r\<close> the first one that is not in \<open>D\<close>.\<close>

abbreviation stream :: "'r \<Rightarrow> nat \<Rightarrow> bytes" where
  "stream r i \<equiv> out_at r (index r + of_nat i)"

lemma stop_at_unique:
  assumes "\<forall>i < n. stream r i \<in> D" "stream r n \<notin> D"
  shows "(LEAST n. stream r n \<notin> D) = n"
  using assms by (intro Least_equality) (auto simp: not_less [symmetric])

lemma drain_rng_stop:
  assumes "wf r" "drain_rng peek advance decrypt r m ss fs = (r', m', ss', fs')"
    and "inj_on (stream r) {..J}" "length m \<le> J"
  shows "\<exists>n \<le> length m. n = (LEAST n. stream r n \<notin> dom (map_of m)) \<and> r' = (advance ^^ n) r \<and>
     map_of m' = (map_of m) |` (- stream r ` {..<n}) \<and>
     ss' = ss @ opened decrypt (map (\<lambda>i. the (map_of m (stream r i))) [0..<n])"
proof -
  obtain n where n: "r' = (advance ^^ n) r" "\<forall>i < n. stream r i \<in> dom (map_of m)" "inj_on (stream r) {..<n}"
      "map_of m' = (map_of m) |` (- stream r ` {..<n})" "map_of m' (stream r n) = None"
      "ss' = ss @ opened decrypt (map (\<lambda>i. the (map_of m (stream r i))) [0..<n])"
    using drain_rng_spec [OF assms(1,2)] by blast
  have "card (stream r ` {..<n}) \<le> card (dom (map_of m))"
    using n(2) by (intro card_mono) (auto simp: finite_dom_map_of)
  also have "\<dots> \<le> length m" by (metis card_image_le dom_map_of_conv_image_fst finite_set card_length le_trans)
  finally have le: "n \<le> length m" using n(3) by (simp add: card_image)
  have "stream r n \<noteq> stream r i" if "i < n" for i
    using inj_onD [OF assms(3), of n i] that le assms(4) by fastforce
  then have "stream r n \<notin> stream r ` {..<n}" by blast
  then have "stream r n \<notin> dom (map_of m)"
    using n(4,5) by (auto simp: restrict_map_def split: if_splits)
  from stop_at_unique [OF n(2) this] show ?thesis using n le by auto
qed

lemma drain_rng_length:
  "drain_rng peek advance decrypt r m ss fs = (r', m', ss', fs') \<Longrightarrow> length m' \<le> length m"
proof (induction "length m" arbitrary: r m ss fs rule: less_induct)
  case less
  show ?case
  proof (cases "map_of m (peek r)")
    case None
    with less.prems show ?thesis by (simp add: drain_rng.simps [of peek advance decrypt r])
  next
    case (Some ct)
    note del = length_delete_less [OF Some]
    from less.prems Some obtain ss1 fs1 where
      "drain_rng peek advance decrypt (advance r) (AList.delete (peek r) m) ss1 fs1 = (r', m', ss', fs')"
      by (auto simp: drain_rng.simps [of peek advance decrypt r] split: sum.splits)
    from less.hyps [OF del this] del show ?thesis by simp
  qed
qed

lemma stream_leaves_map:
  assumes "inj_on (stream r) {..J}" "length m \<le> J"
  shows "\<exists>j \<le> J. stream r j \<notin> dom (map_of m)"
proof (rule ccontr)
  assume "\<not> (\<exists>j \<le> J. stream r j \<notin> dom (map_of m))"
  then have "card (stream r ` {..J}) \<le> card (dom (map_of m))"
    by (intro card_mono) (auto simp: finite_dom_map_of)
  also have "\<dots> \<le> length m" by (metis card_image_le dom_map_of_conv_image_fst finite_set card_length le_trans)
  finally show False using assms by (simp add: card_image)
qed

text \<open>
  All generators of a set at once. When no two of them share an output within reach, each is
  drained up to its own first miss.
\<close>

lemma drain_all_spec:
  assumes "\<forall>(k, r) \<in> set L. wf r \<and> inj_on (stream r) {..J}" "length m \<le> J"
    and "sorted_wrt (\<lambda>(k, r) (k', r'). \<forall>i \<le> J. \<forall>j \<le> J. stream r i \<noteq> stream r' j) L"
    and "drain_all peek advance decrypt L m ss fs = (L', m', ss', fs')"
  shows "L' = map (\<lambda>(k, r). (k, (advance ^^ (LEAST n. stream r n \<notin> dom (map_of m))) r)) L \<and>
     ss' = ss @ concat (map (\<lambda>(k, r). opened decrypt
       (map (\<lambda>i. the (map_of m (stream r i))) [0..<(LEAST n. stream r n \<notin> dom (map_of m))])) L)"
  using assms
proof (induction L arbitrary: m ss fs L')
  case (Cons a L)
  obtain k r where a: "a = (k, r)" by (cases a)
  obtain r1 m1 ss1 fs1 where d: "drain_rng peek advance decrypt r m ss fs = (r1, m1, ss1, fs1)" by (metis surj_pair)
  obtain L1 where da: "drain_all peek advance decrypt L m1 ss1 fs1 = (L1, m', ss', fs')" "L' = (k, r1) # L1"
    using Cons.prems(4) d by (auto simp: a split: prod.splits)
  obtain n where n: "n \<le> length m" "n = (LEAST n. stream r n \<notin> dom (map_of m))" "r1 = (advance ^^ n) r"
      "map_of m1 = (map_of m) |` (- stream r ` {..<n})"
      "ss1 = ss @ opened decrypt (map (\<lambda>i. the (map_of m (stream r i))) [0..<n])"
    using drain_rng_stop [OF _ d _ Cons.prems(2)] Cons.prems(1) a by auto
  have sep: "\<forall>i \<le> J. \<forall>j \<le> J. stream r i \<noteq> stream r' j" if "(k', r') \<in> set L" for k' r'
    using Cons.prems(3) that by (auto simp: a)
  have len: "length m1 \<le> length m"
    using drain_rng_length [OF d] .
  have ih: "L1 = map (\<lambda>(k, r). (k, (advance ^^ (LEAST n. stream r n \<notin> dom (map_of m1))) r)) L \<and>
     ss' = ss1 @ concat (map (\<lambda>(k, r). opened decrypt
       (map (\<lambda>i. the (map_of m1 (stream r i))) [0..<(LEAST n. stream r n \<notin> dom (map_of m1))])) L)"
    using Cons.IH [OF _ _ _ da(1)] Cons.prems len by (auto simp: a)
  have same: "map_of m1 (stream r' j) = map_of m (stream r' j)" if "(k', r') \<in> set L" "j \<le> J" for k' r' j
    using sep [OF that(1)] that(2) n(1) Cons.prems(2)
    by (auto simp: n(4) restrict_map_def) (metis le_trans less_imp_le)
  have bound: "(LEAST n. stream r' n \<notin> dom (map_of m1)) = (LEAST n. stream r' n \<notin> dom (map_of m)) \<and>
      (LEAST n. stream r' n \<notin> dom (map_of m)) \<le> J" if "(k', r') \<in> set L" for k' r'
  proof -
    have "\<exists>j \<le> J. stream r' j \<notin> dom (map_of m)"
      by (rule stream_leaves_map [OF _ Cons.prems(2)]) (use Cons.prems(1) that in auto)
    then obtain j where "j \<le> J" "stream r' j \<notin> dom (map_of m)" by blast
    then have le: "(LEAST n. stream r' n \<notin> dom (map_of m)) \<le> J"
      by (meson Least_le le_trans)
    let ?l = "LEAST n. stream r' n \<notin> dom (map_of m)"
    have "stream r' ?l \<notin> dom (map_of m)" by (rule LeastI) fact
    moreover have "stream r' i \<in> dom (map_of m)" if "i < ?l" for i
      using not_less_Least [OF that] by blast
    ultimately have "\<forall>i < ?l. stream r' i \<in> dom (map_of m1)" "stream r' ?l \<notin> dom (map_of m1)"
      using same [OF that] le by (auto simp: domIff)
    from stop_at_unique [OF this] le show ?thesis by simp
  qed
  have L1: "L1 = map (\<lambda>(k, r). (k, (advance ^^ (LEAST n. stream r n \<notin> dom (map_of m))) r)) L"
    using ih bound by (auto intro!: map_cong)
  have opens: "map (\<lambda>(k, r). opened decrypt
       (map (\<lambda>i. the (map_of m1 (stream r i))) [0..<(LEAST n. stream r n \<notin> dom (map_of m1))])) L =
     map (\<lambda>(k, r). opened decrypt
       (map (\<lambda>i. the (map_of m (stream r i))) [0..<(LEAST n. stream r n \<notin> dom (map_of m))])) L"
  proof (rule map_cong [OF refl], clarsimp)
    fix k' r'
    assume in_L: "(k', r') \<in> set L"
    have "map_of m1 (stream r' i) = map_of m (stream r' i)" if "i < (LEAST n. stream r' n \<notin> dom (map_of m))" for i
      using same [OF in_L, of i] bound [OF in_L] that by simp
    then show "opened decrypt (map (\<lambda>i. the (map_of m1 (stream r' i))) [0..<(LEAST n. stream r' n \<notin> dom (map_of m1))]) =
        opened decrypt (map (\<lambda>i. the (map_of m (stream r' i))) [0..<(LEAST n. stream r' n \<notin> dom (map_of m))])"
      using bound [OF in_L] by (intro arg_cong [of _ _ "opened decrypt"]) auto
  qed
  show ?case
    unfolding a da(2) L1 conjunct2 [OF ih] opens n(3,5) by (simp add: n(2))
qed simp

end

end
