(* ===== verification/Polling.thy ===== *)
theory Polling
  imports User_Rng_Set View_Enclave
begin

text \<open>
  The polling loop of the client, \<^verbatim>\<open>src/fog/view/protocol/src/polling.rs\<close>. The connection to the
  view server is a state \<open>'c\<close> and the function \<open>request\<close> of the trait \<^verbatim>\<open>FogViewConnection\<close>; the
  locale \<open>view_connection\<close> states what an honest server promises. The server moves on between the
  requests of one poll: its records grow and its block count changes.

  The loop is a \<open>partial_function\<close>, since a server that always has more records keeps it running;
  it is shown to end when the records of every generator end somewhere.
\<close>

datatype ('ce, 'be) TxOutPollingError = PollConn 'ce | PollTxOutRecovery "'be TxOutRecoveryError"

text \<open>The search keys of a round: \<open>request_multiplier\<close> outputs of every live generator.\<close>

definition round_keys :: "(bytes \<Rightarrow> bytes) \<Rightarrow> u64 \<Rightarrow> bytes list \<Rightarrow> (bytes \<times> VersionedKexRng) list \<Rightarrow> bytes list" where
  "round_keys blake2b request_multiplier dead_rng_set L =
     concat (map (\<lambda>(nonce, rng).
       fst (rng_take VersionedKexRng_peek (VersionedKexRng_advance blake2b) (unat request_multiplier) rng))
       (filter (\<lambda>(nonce, _). nonce \<notin> set dead_rng_set) L))"

text \<open>The generators that did not advance by as many steps as were requested.\<close>

definition dead_rngs :: "u64 \<Rightarrow> (bytes \<times> VersionedKexRng) list \<Rightarrow> (bytes \<times> VersionedKexRng) list \<Rightarrow> bytes list" where
  "dead_rngs request_multiplier old_rngs L =
     map fst (filter (\<lambda>(nonce, rng).
       case map_of old_rngs nonce of
         Some old_rng \<Rightarrow> VersionedKexRng_index old_rng + request_multiplier > VersionedKexRng_index rng
       | None \<Rightarrow> True) L)"

definition next_multiplier :: "u64 \<Rightarrow> u64" where
  "next_multiplier m = (let m' = m * 2 in if m' \<ge> 1000 then 1000 else m')"

definition finish_poll :: "u64 \<Rightarrow> UserRngSet \<Rightarrow> UserRngSet" where
  "finish_poll new_highest urs =
     (if new_highest > us_highest_processed_block_count urs
      then urs\<lparr>us_highest_processed_block_count := new_highest\<rparr> else urs)"

partial_function (option) poll_loop ::
  "(bytes \<Rightarrow> bytes) \<Rightarrow> ((bytes \<times> bytes) list \<Rightarrow> (bytes \<times> bytes) list)
     \<Rightarrow> (bytes \<Rightarrow> ('be TxOutRecoveryError, TxOutRecord) result)
     \<Rightarrow> (i64 \<Rightarrow> u64 \<Rightarrow> bytes list \<Rightarrow> 'c \<Rightarrow> ('ce, QueryResponse) result \<times> 'c)
     \<Rightarrow> u64 \<Rightarrow> bytes list \<Rightarrow> u64 \<Rightarrow> TxOutRecord list \<Rightarrow> ('ce, 'be) TxOutPollingError list \<Rightarrow> UserRngSet \<Rightarrow> 'c
     \<Rightarrow> ((TxOutRecord list \<times> ('ce, 'be) TxOutPollingError list) \<times> UserRngSet \<times> 'c) option"
where
  "poll_loop blake2b order_rest decrypt request multiplier dead new_highest results errs urs c =
     (if length dead \<ge> length (rngs urs) then Some ((results, errs), finish_poll new_highest urs, c)
      else case request i64_max (us_highest_processed_block_count urs) (round_keys blake2b multiplier dead (rngs urs)) c of
             (Inl e, c') \<Rightarrow> Some ((results, errs @ [PollConn e]), urs, c')
           | (Inr resp, c') \<Rightarrow>
               (case ingest_tx_out_search_results blake2b order_rest decrypt (tx_out_search_results resp) urs of
                  ((round_results, round_errs), urs') \<Rightarrow>
                    poll_loop blake2b order_rest decrypt request (next_multiplier multiplier)
                      (dead_rngs multiplier (rngs urs) (rngs urs'))
                      (min new_highest (highest_processed_block_count resp))
                      (results @ round_results) (errs @ map PollTxOutRecovery round_errs) urs' c'))"

fun ingest_rng_records ::
  "(bytes \<Rightarrow> bytes) \<Rightarrow> ('rnd, 'priv, 'pub) Kex \<Rightarrow> ((bytes \<times> VersionedKexRng) list \<Rightarrow> (bytes \<times> VersionedKexRng) list)
     \<Rightarrow> 'priv \<Rightarrow> RngRecord list \<Rightarrow> ('ce, 'be) TxOutPollingError list \<Rightarrow> UserRngSet
     \<Rightarrow> ('ce, 'be) TxOutPollingError list \<times> UserRngSet"
where
  "ingest_rng_records blake2b K order view_key [] errs urs = (errs, urs)"
| "ingest_rng_records blake2b K order view_key (rec # recs) errs urs =
     (case ingest_rng_record blake2b K order view_key rec urs of
        (Inl e, urs') \<Rightarrow> ingest_rng_records blake2b K order view_key recs (errs @ [PollTxOutRecovery e]) urs'
      | (Inr _, urs') \<Rightarrow> ingest_rng_records blake2b K order view_key recs errs urs')"

definition poll ::
  "(bytes \<Rightarrow> bytes) \<Rightarrow> ('rnd, 'priv, 'pub) Kex \<Rightarrow> ((bytes \<times> VersionedKexRng) list \<Rightarrow> (bytes \<times> VersionedKexRng) list)
     \<Rightarrow> ((bytes \<times> bytes) list \<Rightarrow> (bytes \<times> bytes) list)
     \<Rightarrow> ('priv \<Rightarrow> bytes \<Rightarrow> ('be, bool \<times> bytes) result) \<Rightarrow> (bytes \<Rightarrow> TxOutRecord option)
     \<Rightarrow> (i64 \<Rightarrow> u64 \<Rightarrow> bytes list \<Rightarrow> 'c \<Rightarrow> ('ce, QueryResponse) result \<times> 'c)
     \<Rightarrow> 'priv \<Rightarrow> UserRngSet \<Rightarrow> 'c
     \<Rightarrow> ((TxOutRecord list \<times> ('ce, 'be) TxOutPollingError list) \<times> UserRngSet \<times> 'c) option"
where
  "poll blake2b K order order_rest box_decrypt dec request view_key urs c =
     (case request (us_next_start_from_user_event_id urs) (us_highest_processed_block_count urs) [] c of
        (Inl err, c') \<Rightarrow> Some (([], [PollConn err]), urs, c')
      | (Inr result, c') \<Rightarrow>
          (case ingest_rng_records blake2b K order view_key (rng_records result) [] urs of
             (errs, urs1) \<Rightarrow>
               (let urs2 = urs1\<lparr>us_next_start_from_user_event_id := next_start_from_user_event_id result\<rparr>;
                    new_highest = highest_processed_block_count result
                in if us_highest_processed_block_count urs2 \<ge> new_highest then Some (([], []), urs2, c')
                   else poll_loop blake2b order_rest (decrypt_tx_out_result box_decrypt dec view_key) request
                          2 [] new_highest [] errs urs2 c')))"

section \<open>The map of hits\<close>

lemma build_found:
  "build_tx_result_map (\<lparr>sr_search_key = k, sr_result_code = code_as_u32 Found, sr_ciphertext = ct\<rparr> # rs) m fs =
     build_tx_result_map rs (AList.update k ct m) fs"
  by (simp del: code_as_u32.simps)

lemma build_other:
  "code \<noteq> Found \<Longrightarrow>
     \<exists>fs'. build_tx_result_map (\<lparr>sr_search_key = k, sr_result_code = code_as_u32 code, sr_ciphertext = ct\<rparr> # rs) m fs =
           build_tx_result_map rs m fs'"
  by (auto simp del: code_as_u32.simps)

lemma build_step:
  assumes "\<And>k. k \<in> dom R \<Longrightarrow> length k = KeySize \<and> \<not> zero_key k"
  obtains fs' where "build_tx_result_map (map (answer R miss) (a # keys)) m fs =
      build_tx_result_map (map (answer R miss) keys) (if a \<in> dom R then AList.update a (the (R a)) m else m) fs'"
proof (cases "a \<in> dom R")
  case True
  then have "answer R miss a = \<lparr>sr_search_key = a, sr_result_code = code_as_u32 Found, sr_ciphertext = the (R a)\<rparr>"
    using assms [OF True] by (auto simp: answer_def)
  then show thesis using True by (intro that [of fs]) (simp only: list.map build_found if_True)
next
  case False
  then obtain code ct where "code \<noteq> Found"
      "answer R miss a = \<lparr>sr_search_key = a, sr_result_code = code_as_u32 code, sr_ciphertext = ct\<rparr>"
    by (cases "length a \<noteq> KeySize \<or> zero_key a") (auto simp: answer_def domIff simp del: code_as_u32.simps)
  then obtain fs' where "build_tx_result_map (answer R miss a # map (answer R miss) keys) m fs =
      build_tx_result_map (map (answer R miss) keys) m fs'"
    using build_other by metis
  then show thesis using False by (intro that [of fs']) (simp only: list.map if_False)
qed

lemma length_update_le: "length (AList.update a v m) \<le> Suc (length m)"
  by (induction m) auto

lemma build_tx_result_map_answers:
  assumes "\<And>k. k \<in> dom R \<Longrightarrow> length k = KeySize \<and> \<not> zero_key k"
  shows "map_of (fst (build_tx_result_map (map (answer R miss) keys) m fs)) =
           (\<lambda>k. if k \<in> set keys \<and> k \<in> dom R then R k else map_of m k) \<and>
         length (fst (build_tx_result_map (map (answer R miss) keys) m fs)) \<le> length m + length keys"
proof (induction keys arbitrary: m fs)
  case (Cons a keys)
  let ?m = "if a \<in> dom R then AList.update a (the (R a)) m else m"
  obtain fs' where st: "build_tx_result_map (map (answer R miss) (a # keys)) m fs =
      build_tx_result_map (map (answer R miss) keys) ?m fs'"
    using build_step [OF assms] by metis
  have "length ?m \<le> Suc (length m)" using length_update_le by auto
  then show ?case
    unfolding st conjunct1 [OF Cons.IH]
    using conjunct2 [OF Cons.IH [of ?m fs']] by (auto simp: update_conv' fun_eq_iff)
qed auto

section \<open>One round\<close>

text \<open>\<open>str blake2b r i\<close> is the output of \<open>r\<close> that is \<open>i\<close> steps ahead.\<close>

definition str :: "(bytes \<Rightarrow> bytes) \<Rightarrow> VersionedKexRng \<Rightarrow> nat \<Rightarrow> bytes" where
  "str blake2b r i = core_prf (KexRng20201124 blake2b) (versioned_secret r) (VersionedKexRng_index r + of_nat i)"

text \<open>
  The outputs of the generators up to \<open>N\<close> steps ahead are all different: no collision of the
  pseudorandom function, and no wrap-around of the counters.
\<close>

definition separated ::
  "(bytes \<Rightarrow> bytes) \<Rightarrow> ('rnd, 'priv, 'pub) Kex \<Rightarrow> nat \<Rightarrow> (bytes \<times> VersionedKexRng) list \<Rightarrow> bool"
where
  "separated blake2b K N L \<longleftrightarrow>
     distinct (map fst L) \<and>
     (\<forall>(n, r) \<in> set L. versioned_wf blake2b K r \<and> unat (VersionedKexRng_index r) + N < 2 ^ 64 \<and>
        inj_on (str blake2b r) {..N}) \<and>
     (\<forall>(n, r) \<in> set L. \<forall>(n', r') \<in> set L. n \<noteq> n' \<longrightarrow> (\<forall>i \<le> N. \<forall>j \<le> N. str blake2b r i \<noteq> str blake2b r' j))"

text \<open>The generators of \<open>L\<close>, each advanced by \<open>d\<close> of its nonce.\<close>

definition advanced :: "(bytes \<Rightarrow> bytes) \<Rightarrow> (bytes \<Rightarrow> nat) \<Rightarrow> (bytes \<times> VersionedKexRng) list \<Rightarrow> (bytes \<times> VersionedKexRng) list" where
  "advanced blake2b d L = map (\<lambda>(n, r). (n, (VersionedKexRng_advance blake2b ^^ d n) r)) L"

lemma length_advanced [simp]: "length (advanced blake2b d L) = length L"
  by (simp add: advanced_def)

lemma advanced_zero [simp]: "advanced blake2b (\<lambda>_. 0) L = L"
  by (simp add: advanced_def)

lemma fst_advanced [simp]: "map fst (advanced blake2b d L) = map fst L"
  by (simp add: advanced_def split_beta)

lemma str_funpow: "str blake2b ((VersionedKexRng_advance blake2b ^^ k) r) i = str blake2b r (k + i)"
proof -
  have "versioned_secret (VersionedKexRng_advance blake2b r) = versioned_secret r" for r
    by (cases r) (simp add: buffered_defs Let_def)
  then have "versioned_secret ((VersionedKexRng_advance blake2b ^^ k) r) = versioned_secret r"
    by (induction k) auto
  then show ?thesis by (simp add: str_def ver.index_funpow add.assoc)
qed

lemma separatedD:
  assumes "separated blake2b K N L" "(n, r) \<in> set L"
  shows "versioned_wf blake2b K r" "unat (VersionedKexRng_index r) + N < 2 ^ 64" "inj_on (str blake2b r) {..N}"
    and "(n', r') \<in> set L \<Longrightarrow> i \<le> N \<Longrightarrow> j \<le> N \<Longrightarrow> str blake2b r i = str blake2b r' j \<Longrightarrow> n = n' \<and> i = j"
proof -
  show *: "versioned_wf blake2b K r" "unat (VersionedKexRng_index r) + N < 2 ^ 64" "inj_on (str blake2b r) {..N}"
    using assms by (auto simp: separated_def)
  assume a: "(n', r') \<in> set L" "i \<le> N" "j \<le> N" "str blake2b r i = str blake2b r' j"
  then have n: "n = n'" using assms unfolding separated_def by blast
  moreover have "distinct (map fst L)" using assms(1) by (simp add: separated_def)
  ultimately have "r = r'" using eq_key_imp_eq_value [of L n r r'] assms(2) a(1) by simp
  then show "n = n' \<and> i = j" using n a(2-4) inj_onD [OF *(3)] by auto
qed

lemma take_outputs_str:
  assumes "versioned_wf blake2b K r"
  shows "fst (rng_take VersionedKexRng_peek (VersionedKexRng_advance blake2b) n ((VersionedKexRng_advance blake2b ^^ k) r)) =
           map (\<lambda>i. str blake2b r (k + i)) [0..<n]"
  using ver.take_outputs [OF ver.wf_funpow [OF assms], of n k] str_funpow [of blake2b k r]
  by (simp add: str_def)

lemma round_keys_advanced:
  assumes "separated blake2b K N L"
  shows "round_keys blake2b mul dead (advanced blake2b d L) =
     concat (map (\<lambda>(n, r). map (\<lambda>i. str blake2b r (d n + i)) [0..<unat mul]) (filter (\<lambda>(n, _). n \<notin> set dead) L))"
proof -
  have "fst (rng_take VersionedKexRng_peek (VersionedKexRng_advance blake2b) (unat mul)
          ((VersionedKexRng_advance blake2b ^^ d n) r)) = map (\<lambda>i. str blake2b r (d n + i)) [0..<unat mul]"
    if "(n, r) \<in> set L" for n r
    using take_outputs_str [OF separatedD(1) [OF assms that]] .
  then show ?thesis
    unfolding round_keys_def advanced_def filter_map map_map
    by (intro arg_cong [of _ _ concat] map_cong) (auto simp: comp_def case_prod_unfold)
qed

lemma in_concat_mapI: "a \<in> set xs \<Longrightarrow> x \<in> set (f a) \<Longrightarrow> x \<in> set (concat (map f xs))"
  by auto

lemma round_keys_mem:
  assumes "separated blake2b K N L" "(n, r) \<in> set L" "i \<le> N" "\<forall>(n, r) \<in> set L. d n + unat mul \<le> N"
  shows "str blake2b r i \<in> set (round_keys blake2b mul dead (advanced blake2b d L)) \<longleftrightarrow>
           n \<notin> set dead \<and> d n \<le> i \<and> i < d n + unat mul"
proof
  assume "str blake2b r i \<in> set (round_keys blake2b mul dead (advanced blake2b d L))"
  then obtain n' r' j where *: "(n', r') \<in> set L" "n' \<notin> set dead" "j < unat mul" "str blake2b r i = str blake2b r' (d n' + j)"
    unfolding round_keys_advanced [OF assms(1)] by auto
  moreover from this have "d n' + j \<le> N" using assms(4) by force
  ultimately show "n \<notin> set dead \<and> d n \<le> i \<and> i < d n + unat mul"
    using separatedD(4) [OF assms(1,2) *(1) assms(3) _ *(4)] by auto
next
  assume "n \<notin> set dead \<and> d n \<le> i \<and> i < d n + unat mul"
  then have "i - d n \<in> set [0..<unat mul]" "str blake2b r i = str blake2b r (d n + (i - d n))" "n \<notin> set dead" by auto
  then show "str blake2b r i \<in> set (round_keys blake2b mul dead (advanced blake2b d L))"
    unfolding round_keys_advanced [OF assms(1)] using assms(2)
    by (intro in_concat_mapI [of "(n, r)"]) (simp_all only: set_filter set_map image_eqI prod.case mem_Collect_eq simp_thms)
qed

lemma round_keys_length:
  assumes "separated blake2b K N L"
  shows "length (round_keys blake2b mul dead (advanced blake2b d L)) \<le> length L * unat mul"
proof -
  have "length (concat (map (\<lambda>(n, r). map (\<lambda>i. str blake2b r (d n + i)) [0..<unat mul]) L')) = length L' * unat mul" for L'
    by (induction L') auto
  then show ?thesis
    unfolding round_keys_advanced [OF assms] by (simp add: mult_le_mono1)
qed

lemma advanced_apart:
  assumes "separated blake2b K N L" "\<forall>(n, r) \<in> set L. d n + J \<le> N"
  shows "sorted_wrt (\<lambda>(n, r) (n', r'). \<forall>i \<le> J. \<forall>j \<le> J. str blake2b r i \<noteq> str blake2b r' j) (advanced blake2b d L)"
    and "\<forall>(n, r) \<in> set (advanced blake2b d L). versioned_wf blake2b K r \<and> inj_on (str blake2b r) {..J}"
proof -
  have le: "d n + i \<le> N" if "(n, r) \<in> set L" "i \<le> J" for n r i using assms(2) that by force
  have "distinct (map fst L)" using assms(1) by (simp add: separated_def)
  then have "sorted_wrt (\<lambda>(n, r) (n', r'). n \<noteq> n') L"
    by (simp add: distinct_map distinct_conv_nth inj_on_def sorted_wrt_iff_nth_less case_prod_unfold)
  then show "sorted_wrt (\<lambda>(n, r) (n', r'). \<forall>i \<le> J. \<forall>j \<le> J. str blake2b r i \<noteq> str blake2b r' j) (advanced blake2b d L)"
    unfolding advanced_def sorted_wrt_map
  proof (rule sorted_wrt_mono_rel [rotated], clarsimp simp: str_funpow)
    fix n r n' r' i j
    assume "(n, r) \<in> set L" "(n', r') \<in> set L" "n \<noteq> n'" "i \<le> J" "j \<le> J" "str blake2b r (d n + i) = str blake2b r' (d n' + j)"
    then show False using separatedD(4) [OF assms(1), of n r n' r' "d n + i" "d n' + j"] le by simp
  qed
  have "inj_on (\<lambda>i. str blake2b r (d n + i)) {..J}" if "(n, r) \<in> set L" for n r
    using separatedD(4) [OF assms(1) that that le [OF that] le [OF that]] by (auto simp: inj_on_def)
  then show "\<forall>(n, r) \<in> set (advanced blake2b d L). versioned_wf blake2b K r \<and> inj_on (str blake2b r) {..J}"
    using ver.wf_funpow [OF separatedD(1) [OF assms(1)]] by (auto simp: advanced_def str_funpow inj_on_def)
qed

text \<open>The records that the generators \<open>L\<close> pass when they advance from \<open>d\<close> to \<open>d'\<close>.\<close>

definition passed ::
  "(bytes \<Rightarrow> bytes) \<Rightarrow> (bytes \<Rightarrow> ('be TxOutRecoveryError, TxOutRecord) result) \<Rightarrow> (bytes \<rightharpoonup> bytes)
     \<Rightarrow> (bytes \<Rightarrow> nat) \<Rightarrow> (bytes \<Rightarrow> nat) \<Rightarrow> (bytes \<times> VersionedKexRng) list \<Rightarrow> TxOutRecord list"
where
  "passed blake2b decrypt R d d' L =
     concat (map (\<lambda>(n, r). opened decrypt (map (\<lambda>i. the (R (str blake2b r i))) [d n..<d' n])) L)"

text \<open>
  What a round does to a set of generators when the server answers from the records \<open>R\<close>: the
  live ones advance up to their first output that was not asked for or is not in \<open>R\<close>, the dead
  ones stay, and the records passed by are opened.
\<close>

lemma round_spec:
  fixes decrypt :: "bytes \<Rightarrow> ('be TxOutRecoveryError, TxOutRecord) result"
  assumes sep: "separated blake2b K N L" and valid: "\<And>k. k \<in> dom R \<Longrightarrow> length k = KeySize \<and> \<not> zero_key k"
    and bound: "\<forall>(n, r) \<in> set L. d n + length L * 1000 \<le> N" and mul: "unat mul \<le> 1000"
    and urs: "rngs urs = advanced blake2b d L"
    and run: "ingest_tx_out_search_results blake2b order_rest decrypt
           (map (answer R miss) (round_keys blake2b mul dead (rngs urs))) urs = ((rr, re), urs')"
  obtains d' where "urs' = urs\<lparr>rngs := advanced blake2b d' L\<rparr>"
    "rr = passed blake2b decrypt R d d' L"
    "\<And>n r. (n, r) \<in> set L \<Longrightarrow> n \<in> set dead \<Longrightarrow> d' n = d n"
    "\<And>n r. (n, r) \<in> set L \<Longrightarrow> d n \<le> d' n \<and> d' n \<le> d n + unat mul \<and> (\<forall>i. d n \<le> i \<and> i < d' n \<longrightarrow> str blake2b r i \<in> dom R)"
    "\<And>n r. (n, r) \<in> set L \<Longrightarrow> n \<notin> set dead \<Longrightarrow> d' n < d n + unat mul \<Longrightarrow> str blake2b r (d' n) \<notin> dom R"
proof -
  let ?keys = "round_keys blake2b mul dead (advanced blake2b d L)"
  define J where "J = length L * 1000"
  obtain m and fs :: "'be TxOutRecoveryError list"
    where m: "build_tx_result_map (map (answer R miss) ?keys) [] [] = (m, fs)" by (metis surj_pair)
  have b: "map_of m = (\<lambda>k. if k \<in> set ?keys \<and> k \<in> dom R then R k else map_of [] k) \<and> length m \<le> length ([] :: (bytes \<times> bytes) list) + length ?keys"
    using build_tx_result_map_answers [where R = R and keys = ?keys and m = "[]" and miss = miss
        and fs = "[] :: 'be TxOutRecoveryError list", OF valid] unfolding m fst_conv .
  have mp: "map_of m = (\<lambda>k. if k \<in> set ?keys then R k else None)"
    using conjunct1 [OF b] by (auto simp: fun_eq_iff)
  have "length m \<le> length L * unat mul"
    using conjunct2 [OF b] round_keys_length [OF sep] by (simp add: order_trans)
  then have len: "length m \<le> J" using mul by (simp add: J_def order_trans mult_le_mono2)
  have dom_m: "dom (map_of m) = set ?keys \<inter> dom R" by (auto simp: mp split: if_splits)
  obtain L' m' ss' fs' where dr: "drain_all VersionedKexRng_peek (VersionedKexRng_advance blake2b) decrypt
      (advanced blake2b d L) m [] fs = (L', m', ss', fs')" by (metis surj_pair)
  have urs': "urs' = urs\<lparr>rngs := L'\<rparr>" and rr: "rr = ss'"
    using run m dr urs by (auto simp: ingest_tx_out_search_results_def)
  have bnd: "d n + i \<le> N" if "(n, r) \<in> set L" "i \<le> J" for n r i
    using bound that by (force simp: J_def)
  have mulN: "\<forall>(n, r) \<in> set L. d n + unat mul \<le> N"
    using bound mul by (cases L) force+
  define l where "l n r = (LEAST k. str blake2b r (d n + k) \<notin> dom (map_of m))" for n r
  define d' where "d' n = d n + (case map_of L n of None \<Rightarrow> 0 | Some r \<Rightarrow> l n r)" for n
  have d': "d' n = d n + l n r" if "(n, r) \<in> set L" for n r
    using sep that by (simp add: d'_def separated_def)
  have mem: "str blake2b r (d n + k) \<in> dom (map_of m) \<longleftrightarrow> n \<notin> set dead \<and> k < unat mul \<and> str blake2b r (d n + k) \<in> dom R"
    if "(n, r) \<in> set L" "k \<le> J" for n r k
    using round_keys_mem [OF sep that(1) bnd [OF that] mulN, of dead] by (auto simp: dom_m)
  have J: "unat mul \<le> J" if "(n, r) \<in> set L" for n r
    using mul that by (cases L) (auto simp: J_def)
  have l: "l n r \<le> (if n \<in> set dead then 0 else unat mul) \<and> str blake2b r (d n + l n r) \<notin> dom (map_of m) \<and>
      (\<forall>k < l n r. str blake2b r (d n + k) \<in> dom (map_of m))" if nr: "(n, r) \<in> set L" for n r
  proof -
    let ?e = "if n \<in> set dead then 0 else unat mul"
    have e: "str blake2b r (d n + ?e) \<notin> dom (map_of m)" "?e \<le> J" using mem [OF nr, of ?e] J [OF nr] by auto
    then show ?thesis
      using Least_le [of "\<lambda>k. str blake2b r (d n + k) \<notin> dom (map_of m)" ?e]
        LeastI [of "\<lambda>k. str blake2b r (d n + k) \<notin> dom (map_of m)" ?e]
        not_less_Least [of _ "\<lambda>k. str blake2b r (d n + k) \<notin> dom (map_of m)"]
      unfolding l_def by blast
  qed
  have lJ: "l n r \<le> J" if "(n, r) \<in> set L" for n r
    using l [OF that] J [OF that] by (auto split: if_splits)
  have drain: "L' = advanced blake2b d' L \<and>
      ss' = concat (map (\<lambda>(n, r). opened decrypt (map (\<lambda>i. the (R (str blake2b r i))) [d n..<d' n])) L)"
  proof -
    have len': "\<forall>(n, r) \<in> set L. d n + J \<le> N" using bound by (simp add: J_def)
    have "L' = map (\<lambda>(n, r). (n, (VersionedKexRng_advance blake2b ^^ (LEAST k. str blake2b r k \<notin> dom (map_of m))) r))
          (advanced blake2b d L) \<and>
        ss' = [] @ concat (map (\<lambda>(n, r). opened decrypt (map (\<lambda>i. the (map_of m (str blake2b r i)))
          [0..<(LEAST k. str blake2b r k \<notin> dom (map_of m))])) (advanced blake2b d L))"
      by (rule ver.drain_all_spec [folded str_def, OF advanced_apart(2) [OF sep len'] len advanced_apart(1) [OF sep len'] dr])
    then have L': "L' = map (\<lambda>(n, r). (n, (VersionedKexRng_advance blake2b ^^ (d n + l n r)) r)) L"
      and ss': "ss' = concat (map (\<lambda>(n, r). opened decrypt (map (\<lambda>i. the (map_of m (str blake2b r (d n + i)))) [0..<l n r])) L)"
      by (simp_all add: advanced_def str_funpow l_def comp_def case_prod_unfold funpow_add add.commute [of "d _" "Least _"])
    have "map (\<lambda>i. the (map_of m (str blake2b r (d n + i)))) [0..<l n r] = map (\<lambda>i. the (R (str blake2b r i))) [d n..<d' n]"
      if "(n, r) \<in> set L" for n r
    proof (rule nth_equalityI)
      fix i
      assume "i < length (map (\<lambda>i. the (map_of m (str blake2b r (d n + i)))) [0..<l n r])"
      then have i: "i < l n r" by simp
      then have "str blake2b r (d n + i) \<in> set ?keys" using l [OF that] dom_m by blast
      then show "map (\<lambda>i. the (map_of m (str blake2b r (d n + i)))) [0..<l n r] ! i = map (\<lambda>i. the (R (str blake2b r i))) [d n..<d' n] ! i"
        using i d' [OF that] by (simp add: mp)
    qed (simp add: d' [OF that])
    then show ?thesis
      unfolding L' ss' advanced_def using d' by (auto intro!: arg_cong [of _ _ concat] map_cong)
  qed
  show thesis
  proof (rule that [of d'])
    show "urs' = urs\<lparr>rngs := advanced blake2b d' L\<rparr>"
      "rr = passed blake2b decrypt R d d' L"
      using urs' rr drain by (simp_all add: passed_def)
    fix n r
    assume nr: "(n, r) \<in> set L"
    show "n \<in> set dead \<Longrightarrow> d' n = d n" using l [OF nr] d' [OF nr] by simp
    show "n \<notin> set dead \<Longrightarrow> d' n < d n + unat mul \<Longrightarrow> str blake2b r (d' n) \<notin> dom R"
      using l [OF nr] mem [OF nr lJ [OF nr]] d' [OF nr] by simp
    have "str blake2b r i \<in> dom R" if "d n \<le> i" "i < d' n" for i
    proof -
      have "i - d n < l n r" using that d' [OF nr] by simp
      then show ?thesis using l [OF nr] mem [OF nr, of "i - d n"] lJ [OF nr] that by force
    qed
    then show "d n \<le> d' n \<and> d' n \<le> d n + unat mul \<and> (\<forall>i. d n \<le> i \<and> i < d' n \<longrightarrow> str blake2b r i \<in> dom R)"
      using l [OF nr] d' [OF nr] by (auto split: if_splits)
  qed
qed

section \<open>The loop\<close>

lemma next_multiplier_range:
  assumes "0 < unat mul" "unat mul \<le> 1000"
  shows "0 < unat (next_multiplier mul)" "unat (next_multiplier mul) \<le> 1000"
proof -
  have "unat (mul * 2) = unat mul * 2" using assms by (subst unat_mult_lem [THEN iffD1]) auto
  then show "0 < unat (next_multiplier mul)" "unat (next_multiplier mul) \<le> 1000"
    using assms by (auto simp: next_multiplier_def Let_def word_le_nat_alt)
qed

lemma index_funpow_unat:
  assumes "separated blake2b K N L" "(n, r) \<in> set L" "k \<le> N"
  shows "unat (VersionedKexRng_index ((VersionedKexRng_advance blake2b ^^ k) r)) = unat (VersionedKexRng_index r) + k"
proof -
  have *: "unat (VersionedKexRng_index r) + k < 2 ^ 64" using separatedD(2) [OF assms(1,2)] assms(3) by simp
  then have "unat (of_nat k :: u64) = k" by (intro unat_of_nat_u64) simp
  then show ?thesis using * by (simp add: ver.index_funpow unat_plus_if')
qed

lemma map_of_advanced:
  "distinct (map fst L) \<Longrightarrow> (n, r) \<in> set L \<Longrightarrow>
     map_of (advanced blake2b d L) n = Some ((VersionedKexRng_advance blake2b ^^ d n) r)"
  by (rule map_of_is_SomeI) (auto simp: advanced_def simp flip: fst_advanced [of blake2b d])

lemma dead_rngs_advanced:
  assumes "separated blake2b K N L" "\<forall>(n, r) \<in> set L. d' n \<le> N \<and> d n + unat mul \<le> N"
  shows "dead_rngs mul (advanced blake2b d L) (advanced blake2b d' L) = map fst (filter (\<lambda>(n, r). d' n < d n + unat mul) L)"
proof -
  let ?at = "\<lambda>k r. VersionedKexRng_index ((VersionedKexRng_advance blake2b ^^ k) r)"
  have "?at (d n) r + mul > ?at (d' n) r \<longleftrightarrow> d' n < d n + unat mul" if nr: "(n, r) \<in> set L" for n r
  proof -
    have le: "d n \<le> N" "d' n \<le> N" "d n + unat mul \<le> N" using assms(2) nr by auto
    have "unat (?at (d n) r + mul) = unat (?at (d n) r) + unat mul"
      using index_funpow_unat [OF assms(1) nr le(1)] separatedD(2) [OF assms(1) nr] le by (simp add: unat_plus_if')
    then show ?thesis
      using index_funpow_unat [OF assms(1) nr le(1)] index_funpow_unat [OF assms(1) nr le(2)] by (simp add: word_less_nat_alt)
  qed
  moreover have "distinct (map fst L)" using assms(1) by (simp add: separated_def)
  ultimately have "filter (\<lambda>(n, r). case map_of (advanced blake2b d L) n of
      Some old_rng \<Rightarrow> VersionedKexRng_index old_rng + mul > ?at (d' n) r | None \<Rightarrow> True) L =
    filter (\<lambda>(n, r). d' n < d n + unat mul) L"
    by (intro filter_cong) (auto simp: map_of_advanced)
  then show ?thesis
    unfolding dead_rngs_def advanced_def [of _ d'] filter_map map_map by (simp add: comp_def case_prod_unfold cong: option.case_cong)
qed

text \<open>
  Between the states \<open>c0\<close> and \<open>c\<close> of the connection there was a time when the server had processed
  at least \<open>H\<close> blocks and did not hold output \<open>i\<close> of \<open>r\<close>.
\<close>

definition stopped ::
  "(bytes \<Rightarrow> bytes) \<Rightarrow> ('c \<Rightarrow> 'c \<Rightarrow> bool) \<Rightarrow> ('c \<Rightarrow> bytes \<rightharpoonup> bytes) \<Rightarrow> ('c \<Rightarrow> u64) \<Rightarrow> 'c \<Rightarrow> 'c \<Rightarrow> u64
     \<Rightarrow> VersionedKexRng \<Rightarrow> nat \<Rightarrow> bool"
where
  "stopped blake2b reach records block_count c0 c H r i \<longleftrightarrow>
     (\<exists>c1. reach c0 c1 \<and> reach c1 c \<and> H \<le> block_count c1 \<and> str blake2b r i \<notin> dom (records c1))"

lemma stopped_min:
  "stopped blake2b reach records block_count c0 c H r i \<Longrightarrow> stopped blake2b reach records block_count c0 c (min H H') r i"
  by (auto simp: stopped_def min_def intro: order_trans)

lemma opened_append: "opened decrypt (xs @ ys) = opened decrypt xs @ opened decrypt ys"
  by (induction xs) (auto split: sum.split)

lemma passed_self [simp]: "passed blake2b decrypt R d d L = []"
  by (simp add: passed_def opened_def case_prod_unfold)

lemma passed_trans:
  assumes "\<forall>(n, r) \<in> set L. d n \<le> d' n \<and> d' n \<le> d'' n"
  shows "mset (passed blake2b decrypt R d d'' L) = mset (passed blake2b decrypt R d d' L) + mset (passed blake2b decrypt R d' d'' L)"
  using assms
proof (induction L)
  case (Cons a L)
  obtain n r where a: "a = (n, r)" by (cases a)
  have "[d n..<d'' n] = [d n..<d' n] @ [d' n..<d'' n]"
    using Cons.prems upt_add_eq_append [of "d n" "d' n" "d'' n - d' n"] by (simp add: a)
  then show ?case using Cons by (simp add: passed_def opened_append a)
qed (simp add: passed_def)

lemma passed_submap:
  assumes "R \<subseteq>\<^sub>m R'" "\<forall>(n, r) \<in> set L. \<forall>i. d n \<le> i \<and> i < d' n \<longrightarrow> str blake2b r i \<in> dom R"
  shows "passed blake2b decrypt R d d' L = passed blake2b decrypt R' d d' L"
proof -
  have "map (\<lambda>i. the (R (str blake2b r i))) [d n..<d' n] = map (\<lambda>i. the (R' (str blake2b r i))) [d n..<d' n]"
    if "(n, r) \<in> set L" for n r
    using assms that by (intro map_cong) (auto simp: map_le_def)
  then show ?thesis
    unfolding passed_def by (intro arg_cong [of _ _ concat] map_cong) (auto simp del: map_eq_conv)
qed

lemma sum_list_less:
  fixes f g :: "'a \<Rightarrow> nat"
  assumes "x \<in> set xs" "\<And>y. y \<in> set xs \<Longrightarrow> f y \<le> g y" "f x < g x"
  shows "(\<Sum>y \<leftarrow> xs. f y) < (\<Sum>y \<leftarrow> xs. g y)"
proof -
  obtain ys zs where xs: "xs = ys @ x # zs" using assms(1) by (metis split_list)
  have "(\<Sum>y \<leftarrow> ys. f y) \<le> (\<Sum>y \<leftarrow> ys. g y)" "(\<Sum>y \<leftarrow> zs. f y) \<le> (\<Sum>y \<leftarrow> zs. g y)"
    using assms(2) by (auto simp: xs intro!: sum_list_mono)
  then show ?thesis using assms(3) by (simp add: xs)
qed

lemma distinct_subset_all:
  assumes "distinct xs" "distinct ys" "set xs \<subseteq> set ys" "length ys \<le> length xs"
  shows "set xs = set ys"
  using assms by (intro card_subset_eq) (auto simp: distinct_card dest: card_mono [rotated] intro: antisym)

lemma progress_measure:
  assumes "distinct (map fst L)" "distinct dead" "set dead \<subseteq> set (map fst L)" "length dead < length L" "0 < m"
    and "\<forall>(n, r) \<in> set L. d n \<le> d' n \<and> d' n \<le> b n" "\<forall>(n, r) \<in> set L. n \<in> set dead \<longrightarrow> d' n = d n"
  shows "(\<Sum>(n, r) \<leftarrow> L. b n - d' n) + (length L - length (map fst (filter (\<lambda>(n, r). d' n < d n + m) L))) <
         (\<Sum>(n, r) \<leftarrow> L. b n - d n) + (length L - length dead)"
proof -
  let ?dead' = "map fst (filter (\<lambda>(n, r). d' n < d n + m) L)"
  have sub: "set dead \<subseteq> set ?dead'" using assms(3,5,7) by force
  have dist: "distinct ?dead'" using assms(1) by (simp add: distinct_map inj_on_def)
  have len: "length dead \<le> length ?dead'" "length ?dead' \<le> length L"
    using card_mono [OF _ sub] distinct_card [OF dist] distinct_card [OF assms(2)] by simp_all
  have sum: "(\<Sum>(n, r) \<leftarrow> L. b n - d' n) \<le> (\<Sum>(n, r) \<leftarrow> L. b n - d n)"
    using assms(6) by (intro sum_list_mono) auto
  show ?thesis
  proof (cases "set dead = set ?dead'")
    case False
    then have "length dead < length ?dead'"
      using psubset_card_mono [of "set ?dead'" "set dead"] sub distinct_card [OF dist] distinct_card [OF assms(2)] by auto
    then show ?thesis using sum len by linarith
  next
    case True
    then have "length ?dead' < length L"
      using distinct_card [OF dist] distinct_card [OF assms(2)] assms(4) by simp
    then obtain n r where nr: "(n, r) \<in> set L" "\<not> d' n < d n + m"
      using filter_True [of L "\<lambda>(n, r). d' n < d n + m"] by fastforce
    then have "d n < d' n" "d' n \<le> b n" using assms(5,6) by auto
    then have "(\<Sum>(n, r) \<leftarrow> L. b n - d' n) < (\<Sum>(n, r) \<leftarrow> L. b n - d n)"
      using assms(6) by (intro sum_list_less [OF nr(1)]) auto
    then show ?thesis using len by linarith
  qed
qed

section \<open>An honest server\<close>

text \<open>
  The contract of \<^verbatim>\<open>FogViewConnection\<close> with an honest server. In a state \<open>c\<close> of the connection
  with \<open>ok c\<close>, a request that succeeds is answered from the records the server holds when it
  answers, and the response carries a block count that the server had published before. All records the server will ever
  hold are in \<open>final\<close>.
\<close>

locale view_connection =
  fixes request :: "i64 \<Rightarrow> u64 \<Rightarrow> bytes list \<Rightarrow> 'c \<Rightarrow> ('ce, QueryResponse) result \<times> 'c"
    and ok :: "'c \<Rightarrow> bool" and records :: "'c \<Rightarrow> bytes \<rightharpoonup> bytes" and block_count :: "'c \<Rightarrow> u64"
    and final :: "bytes \<rightharpoonup> bytes" and reach :: "'c \<Rightarrow> 'c \<Rightarrow> bool"
  assumes answers: "ok c \<Longrightarrow> request ev blk keys c = (Inr resp, c') \<Longrightarrow>
      (\<exists>miss. tx_out_search_results resp = map (answer (records c') miss) keys) \<and>
      highest_processed_block_count resp \<le> block_count c'"
    and ok_request: "ok c \<Longrightarrow> request ev blk keys c = (res, c') \<Longrightarrow> ok c'"
    and reach_request: "ok c \<Longrightarrow> request ev blk keys c = (res, c') \<Longrightarrow> reach c c'"
    and reach_refl: "reach c c" and reach_trans: "reach c c' \<Longrightarrow> reach c' c'' \<Longrightarrow> reach c c''"
    and valid_keys: "ok c \<Longrightarrow> k \<in> dom (records c) \<Longrightarrow> length k = KeySize \<and> \<not> zero_key k"
    and records_final: "ok c \<Longrightarrow> records c \<subseteq>\<^sub>m final"
begin

lemma stopped_later:
  "stopped blake2b reach records block_count c0 c H r i \<Longrightarrow> reach c c' \<Longrightarrow> stopped blake2b reach records block_count c0 c' H r i"
  unfolding stopped_def using reach_trans by blast

lemma round_honest:
  fixes decrypt :: "bytes \<Rightarrow> ('be TxOutRecoveryError, TxOutRecord) result"
  assumes sep: "separated blake2b K N L" and ok: "ok c" "reach c0 c"
    and bound: "\<forall>(n, r) \<in> set L. d n \<le> b n \<and> b n + length L * 1000 \<le> N \<and> str blake2b r (b n) \<notin> dom final"
    and mul: "unat mul \<le> 1000" and urs: "rngs urs = advanced blake2b d L"
    and dead: "\<forall>(n, r) \<in> set L. n \<in> set dead \<longrightarrow> stopped blake2b reach records block_count c0 c H r (d n)"
    and req: "request i64_max blk (round_keys blake2b mul dead (rngs urs)) c = (Inr resp, c')"
    and run: "ingest_tx_out_search_results blake2b order_rest decrypt (tx_out_search_results resp) urs = ((rr, re), urs')"
  obtains d' where "ok c'" "reach c c'" "urs' = urs\<lparr>rngs := advanced blake2b d' L\<rparr>" "rr = passed blake2b decrypt final d d' L"
    "\<forall>(n, r) \<in> set L. d n \<le> d' n \<and> d' n \<le> b n"
    "dead_rngs mul (rngs urs) (rngs urs') = map fst (filter (\<lambda>(n, r). d' n < d n + unat mul) L)"
    "\<forall>(n, r) \<in> set L. n \<in> set dead \<longrightarrow> d' n = d n"
    "\<forall>(n, r) \<in> set L. d' n < d n + unat mul \<longrightarrow>
       stopped blake2b reach records block_count c0 c' (min H (highest_processed_block_count resp)) r (d' n)"
proof -
  obtain miss where resp: "tx_out_search_results resp = map (answer (records c') miss) (round_keys blake2b mul dead (rngs urs))"
    "highest_processed_block_count resp \<le> block_count c'"
    using answers [OF ok(1) req] by auto
  have ok': "ok c'" by (rule ok_request [OF ok(1) req])
  have step: "reach c c'" by (rule reach_request [OF ok(1) req])
  have bound': "\<forall>(n, r) \<in> set L. d n + length L * 1000 \<le> N" using bound by auto
  from round_spec [OF sep valid_keys [OF ok'] bound' mul urs run [unfolded resp(1)]]
  obtain d' where d': "urs' = urs\<lparr>rngs := advanced blake2b d' L\<rparr>" "rr = passed blake2b decrypt (records c') d d' L"
    "\<And>n r. (n, r) \<in> set L \<Longrightarrow> n \<in> set dead \<Longrightarrow> d' n = d n"
    "\<And>n r. (n, r) \<in> set L \<Longrightarrow> d n \<le> d' n \<and> d' n \<le> d n + unat mul \<and> (\<forall>i. d n \<le> i \<and> i < d' n \<longrightarrow> str blake2b r i \<in> dom (records c'))"
    "\<And>n r. (n, r) \<in> set L \<Longrightarrow> n \<notin> set dead \<Longrightarrow> d' n < d n + unat mul \<Longrightarrow> str blake2b r (d' n) \<notin> dom (records c')"
    by blast
  have le: "d' n \<le> b n" if "(n, r) \<in> set L" for n r
  proof (rule ccontr)
    assume "\<not> d' n \<le> b n"
    then have "str blake2b r (b n) \<in> dom (records c')" using d'(4) [OF that] bound that by auto
    moreover have "str blake2b r (b n) \<notin> dom final" using bound that by auto
    ultimately show False using map_le_implies_dom_le [OF records_final [OF ok']] by blast
  qed
  have N: "\<forall>(n, r) \<in> set L. d' n \<le> N \<and> d n + unat mul \<le> N"
    using bound mul le by (cases L) fastforce+
  show thesis
  proof (rule that [of d'])
    show "rr = passed blake2b decrypt final d d' L"
      unfolding d'(2) using d'(4) by (intro passed_submap [OF records_final [OF ok']]) auto
    show "dead_rngs mul (rngs urs) (rngs urs') = map fst (filter (\<lambda>(n, r). d' n < d n + unat mul) L)"
      using dead_rngs_advanced [OF sep N] by (simp add: d'(1) urs)
    have "stopped blake2b reach records block_count c0 c' (min H (highest_processed_block_count resp)) r (d' n)"
      if nr: "(n, r) \<in> set L" and "d' n < d n + unat mul" for n r
    proof (cases "n \<in> set dead")
      case True
      then have "stopped blake2b reach records block_count c0 c H r (d n)" using dead nr by auto
      from stopped_later [OF stopped_min [OF this] step] show ?thesis using d'(3) [OF nr True] by simp
    next
      case False
      then show ?thesis
        unfolding stopped_def using d'(5) [OF nr False that(2)] ok' resp(2) reach_refl reach_trans [OF ok(2) step] by (intro exI [of _ c']) (simp add: min_le_iff_disj)
    qed
    then show "\<forall>(n, r) \<in> set L. d' n < d n + unat mul \<longrightarrow>
       stopped blake2b reach records block_count c0 c' (min H (highest_processed_block_count resp)) r (d' n)"
      by auto
  qed (use ok' step d' le in auto)
qed

text \<open>The number of rounds is bounded by the records that are left and the generators that are live.\<close>

lemma poll_loop_returns:
  fixes decrypt :: "bytes \<Rightarrow> ('be TxOutRecoveryError, TxOutRecord) result"
  assumes "separated blake2b K N L" "ok c" "reach c0 c"
    and "\<forall>(n, r) \<in> set L. d n \<le> b n \<and> b n + length L * 1000 \<le> N \<and> str blake2b r (b n) \<notin> dom final"
    and "0 < unat mul" "unat mul \<le> 1000" "rngs urs = advanced blake2b d L"
    and "distinct dead" "set dead \<subseteq> set (map fst L)"
    and "\<forall>(n, r) \<in> set L. n \<in> set dead \<longrightarrow> stopped blake2b reach records block_count c0 c H r (d n)"
  shows "\<exists>rs es urs' c' d'. poll_loop blake2b order_rest decrypt request mul dead H results errs urs c =
       Some ((results @ rs, es), urs', c') \<and> ok c' \<and> reach c0 c' \<and>
     rngs urs' = advanced blake2b d' L \<and> (\<forall>(n, r) \<in> set L. d n \<le> d' n \<and> d' n \<le> b n) \<and>
     mset rs = mset (passed blake2b decrypt final d d' L) \<and>
     us_next_start_from_user_event_id urs' = us_next_start_from_user_event_id urs \<and>
     (us_highest_processed_block_count urs' = us_highest_processed_block_count urs \<or>
      us_highest_processed_block_count urs < us_highest_processed_block_count urs' \<and>
      (\<forall>(n, r) \<in> set L. stopped blake2b reach records block_count c0 c' (us_highest_processed_block_count urs') r (d' n)))"
  using assms
proof (induction "(\<Sum>(n, r) \<leftarrow> L. b n - d n) + (length L - length dead)"
    arbitrary: c d mul urs dead H results errs rule: less_induct)
  case less
  note sep = \<open>separated blake2b K N L\<close> and urs = \<open>rngs urs = advanced blake2b d L\<close>
  have L: "distinct (map fst L)" using sep by (simp add: separated_def)
  show ?case
  proof (cases "length dead \<ge> length L")
    case True
    then have "set dead = set (map fst L)"
      by (intro distinct_subset_all [OF less.prems(8) L less.prems(9)]) simp
    then have "\<forall>(n, r) \<in> set L. stopped blake2b reach records block_count c0 c H r (d n)" using less.prems(10) by force
    moreover have "poll_loop blake2b order_rest decrypt request mul dead H results errs urs c =
        Some ((results @ [], errs), finish_poll H urs, c)"
      using True urs by (subst poll_loop.simps) simp
    ultimately show ?thesis
      using urs less.prems(2-4)
      by (intro exI [of _ "[]"] exI [of _ errs] exI [of _ "finish_poll H urs"] exI [of _ c] exI [of _ d])
        (auto simp: finish_poll_def)
  next
    case False
    obtain res c1 where req: "request i64_max (us_highest_processed_block_count urs) (round_keys blake2b mul dead (rngs urs)) c = (res, c1)"
      by (metis surj_pair)
    show ?thesis
    proof (cases res)
      case (Inl e)
      have "poll_loop blake2b order_rest decrypt request mul dead H results errs urs c =
          Some ((results @ [], errs @ [PollConn e]), urs, c1)"
        using False urs req Inl by (subst poll_loop.simps) simp
      then show ?thesis
        using urs less.prems(4) ok_request [OF less.prems(2) req] reach_trans [OF less.prems(3) reach_request [OF less.prems(2) req]]
        by (intro exI [of _ "[]"] exI [of _ "errs @ [PollConn e]"] exI [of _ urs] exI [of _ c1] exI [of _ d]) auto
    next
      case (Inr resp)
      obtain rr re urs1 where run:
        "ingest_tx_out_search_results blake2b order_rest decrypt (tx_out_search_results resp) urs = ((rr, re), urs1)"
        by (metis surj_pair)
      let ?dead = "dead_rngs mul (rngs urs) (rngs urs1)"
      let ?H = "min H (highest_processed_block_count resp)"
      from round_honest [OF sep less.prems(2-4,6) urs less.prems(10) req [unfolded Inr] run]
      obtain d1 where d1: "ok c1" "reach c c1" "urs1 = urs\<lparr>rngs := advanced blake2b d1 L\<rparr>" "rr = passed blake2b decrypt final d d1 L"
        "\<forall>(n, r) \<in> set L. d n \<le> d1 n \<and> d1 n \<le> b n"
        "?dead = map fst (filter (\<lambda>(n, r). d1 n < d n + unat mul) L)"
        "\<forall>(n, r) \<in> set L. n \<in> set dead \<longrightarrow> d1 n = d n"
        "\<forall>(n, r) \<in> set L. d1 n < d n + unat mul \<longrightarrow> stopped blake2b reach records block_count c0 c1 ?H r (d1 n)"
        by blast
      have unroll: "poll_loop blake2b order_rest decrypt request mul dead H results errs urs c =
          poll_loop blake2b order_rest decrypt request (next_multiplier mul) ?dead ?H
            (results @ rr) (errs @ map PollTxOutRecovery re) urs1 c1"
        using False urs req Inr run by (subst poll_loop.simps) simp
      have dead: "distinct ?dead" "set ?dead \<subseteq> set (map fst L)"
          "\<forall>(n, r) \<in> set L. n \<in> set ?dead \<longrightarrow> stopped blake2b reach records block_count c0 c1 ?H r (d1 n)"
        using L d1(8) by (auto simp: d1(6) distinct_map_filter)
      have bound: "\<forall>(n, r) \<in> set L. d1 n \<le> b n \<and> b n + length L * 1000 \<le> N \<and> str blake2b r (b n) \<notin> dom final"
        using less.prems(4) d1(5) by auto
      have "(\<Sum>(n, r) \<leftarrow> L. b n - d1 n) + (length L - length ?dead) < (\<Sum>(n, r) \<leftarrow> L. b n - d n) + (length L - length dead)"
        using False progress_measure [OF L less.prems(8,9) _ less.prems(5) d1(5,7)] unfolding d1(6) by simp
      from less.hyps [OF this sep d1(1) reach_trans [OF less.prems(3) d1(2)] bound next_multiplier_range [OF less.prems(5,6)] _ dead,
          of urs1 "results @ rr" "errs @ map PollTxOutRecovery re"]
      obtain rs es urs' c' d' where ih:
          "poll_loop blake2b order_rest decrypt request (next_multiplier mul) ?dead ?H
            (results @ rr) (errs @ map PollTxOutRecovery re) urs1 c1 = Some (((results @ rr) @ rs, es), urs', c')"
          "ok c'" "reach c0 c'" "rngs urs' = advanced blake2b d' L" "\<forall>(n, r) \<in> set L. d1 n \<le> d' n \<and> d' n \<le> b n"
          "mset rs = mset (passed blake2b decrypt final d1 d' L)"
          "us_next_start_from_user_event_id urs' = us_next_start_from_user_event_id urs"
          "us_highest_processed_block_count urs' = us_highest_processed_block_count urs \<or>
           us_highest_processed_block_count urs < us_highest_processed_block_count urs' \<and>
           (\<forall>(n, r) \<in> set L. stopped blake2b reach records block_count c0 c' (us_highest_processed_block_count urs') r (d' n))"
        by (auto simp: d1(3))
      have "mset (rr @ rs) = mset (passed blake2b decrypt final d d' L)"
        using passed_trans [of L d d1 d' blake2b decrypt final] d1(4,5) ih(5,6) by fastforce
      then show ?thesis
        using ih d1(5) unroll
        by (intro exI [of _ "rr @ rs"] exI [of _ es] exI [of _ urs'] exI [of _ c'] exI [of _ d']) force
    qed
  qed
qed

lemma poll_returns:
  fixes box_decrypt :: "'priv \<Rightarrow> bytes \<Rightarrow> ('be, bool \<times> bytes) result"
  assumes ok: "ok c" and req: "request (us_next_start_from_user_event_id urs) (us_highest_processed_block_count urs) [] c = (Inr result, c1)"
    and ing: "ingest_rng_records blake2b K order view_key (rng_records result) [] urs =
      (errs :: ('ce, 'be) TxOutPollingError list, urs1)"
    and sep: "separated blake2b K N (rngs urs1)"
    and bound: "\<forall>(n, r) \<in> set (rngs urs1). b n + length (rngs urs1) * 1000 \<le> N \<and> str blake2b r (b n) \<notin> dom final"
  shows "\<exists>rs es urs' c' d'. poll blake2b K order order_rest box_decrypt dec request view_key urs c =
       Some ((rs, es), urs', c') \<and> ok c' \<and> reach c c' \<and>
     rngs urs' = advanced blake2b d' (rngs urs1) \<and> (\<forall>(n, r) \<in> set (rngs urs1). d' n \<le> b n) \<and>
     mset rs = mset (passed blake2b (decrypt_tx_out_result box_decrypt dec view_key) final (\<lambda>_. 0) d' (rngs urs1)) \<and>
     us_next_start_from_user_event_id urs' = next_start_from_user_event_id result \<and>
     (us_highest_processed_block_count urs' = us_highest_processed_block_count urs1 \<or>
      us_highest_processed_block_count urs1 < us_highest_processed_block_count urs' \<and>
      (\<forall>(n, r) \<in> set (rngs urs1).
         stopped blake2b reach records block_count c c' (us_highest_processed_block_count urs') r (d' n)))"
proof (cases "us_highest_processed_block_count urs1 \<ge> highest_processed_block_count result")
  case True
  let ?urs = "urs1\<lparr>us_next_start_from_user_event_id := next_start_from_user_event_id result\<rparr>"
  have "poll blake2b K order order_rest box_decrypt dec request view_key urs c = Some (([], []), ?urs, c1)"
    using True by (simp add: poll_def req ing)
  then show ?thesis
    using ok_request [OF ok req] reach_request [OF ok req]
    by (intro exI [of _ "[]"] exI [of _ ?urs] exI [of _ c1] exI [of _ "\<lambda>_. 0"]) auto
next
  case False
  let ?urs = "urs1\<lparr>us_next_start_from_user_event_id := next_start_from_user_event_id result\<rparr>"
  have unroll: "poll blake2b K order order_rest box_decrypt dec request view_key urs c =
      poll_loop blake2b order_rest (decrypt_tx_out_result box_decrypt dec view_key) request
        2 [] (highest_processed_block_count result) [] errs ?urs c1"
    using False by (simp add: poll_def req ing)
  have "\<forall>(n, r) \<in> set (rngs urs1). 0 \<le> b n \<and> b n + length (rngs urs1) * 1000 \<le> N \<and> str blake2b r (b n) \<notin> dom final"
    using bound by auto
  from poll_loop_returns [where results = "[]" and errs = errs and d = "\<lambda>_. 0" and mul = 2 and dead = "[]" and urs = ?urs
      and H = "highest_processed_block_count result" and decrypt = "decrypt_tx_out_result box_decrypt dec view_key"
      and order_rest = order_rest, OF sep ok_request [OF ok req] reach_request [OF ok req] this]
  show ?thesis unfolding unroll by simp
qed

end

end
