(* ===== verification/Enclave_Connection.thy ===== *)
theory Enclave_Connection
  imports Fog_Types
begin

text \<open>
  The attested connection of a client to an enclave, \<^verbatim>\<open>src/fog/enclave_connection/src/lib.rs\<close>. The
  key exchange and the cipher (\<^verbatim>\<open>mc_attest_ake\<close>), the cookie jar (\<^verbatim>\<open>cookie\<close>, \<^verbatim>\<open>mc_util_grpc\<close>) and
  \<^verbatim>\<open>attested_call\<close> (\<^verbatim>\<open>mc_connection\<close>) are parameters. The grpc channel is an opaque state \<open>'g\<close> with
  the two calls of the trait \<^verbatim>\<open>EnclaveGrpcChannel\<close>. Of the metadata of a call, a list of headers is
  kept. The two \<^verbatim>\<open>expect\<close> of a missing cipher are the error \<open>Conn_NoCipher\<close>: the caller does not
  continue after them either.
\<close>

record Message =
  msg_channel_id :: bytes
  msg_aad :: bytes
  msg_data :: bytes

type_synonym metadata = "(string \<times> string) list"

datatype ('ge, 'ae, 'ke, 'ue) conn_error =
    Conn_Rpc 'ge
  | Conn_Ake 'ae
  | Conn_Cipher 'ke
  | Conn_InvalidUri 'ue
  | Conn_ProtoDecode
  | Conn_NoCipher

text \<open>The initiator's side of the key exchange, with states \<open>'i\<close>, and the cipher \<open>'k\<close> that it ends in.\<close>

record ('rnd, 'i, 'k, 'report, 'ae, 'ke) initiator_ops =
  ake_initiate :: "'rnd \<Rightarrow> string \<Rightarrow> ('ae, 'i \<times> bytes) result"
  ake_response :: "'rnd \<Rightarrow> bytes \<Rightarrow> 'i \<Rightarrow> ('ae, 'k \<times> 'report) result"
  cipher_binding :: "'k \<Rightarrow> bytes"
  cipher_encrypt :: "bytes \<Rightarrow> bytes \<Rightarrow> 'k \<Rightarrow> ('ke, bytes) result \<times> 'k"
  cipher_decrypt :: "bytes \<Rightarrow> bytes \<Rightarrow> 'k \<Rightarrow> ('ke, bytes) result \<times> 'k"

record 'j cookie_ops =
  cookies_default :: 'j
  update_from_server_metadata :: "metadata option \<Rightarrow> metadata option \<Rightarrow> 'j \<Rightarrow> 'j"
  to_client_metadata :: "'j \<Rightarrow> metadata option"

record ('g, 'ge) grpc_ops =
  grpc_auth :: "bytes \<Rightarrow> metadata \<Rightarrow> 'g \<Rightarrow> ('ge, metadata option \<times> bytes \<times> metadata option) result \<times> 'g"
  grpc_enclave_request :: "Message \<Rightarrow> metadata \<Rightarrow> 'g \<Rightarrow> ('ge, metadata option \<times> Message \<times> metadata option) result \<times> 'g"

record ('g, 'k, 'j, 'ue) EnclaveConnection =
  ec_responder_id :: "('ue, string) result"
  ec_username :: string
  ec_password :: string
  ec_authorization_header :: string
  ec_grpc :: 'g
  attest_cipher :: "'k option"
  ec_cookies :: 'j

definition EnclaveConnection_new ::
  "'j cookie_ops \<Rightarrow> ('ue, string) result \<Rightarrow> string \<Rightarrow> string \<Rightarrow> string \<Rightarrow> 'g \<Rightarrow> ('g, 'k, 'j, 'ue) EnclaveConnection"
where
  "EnclaveConnection_new J responder username password header grpc =
     \<lparr>ec_responder_id = responder, ec_username = username, ec_password = password,
      ec_authorization_header = header, ec_grpc = grpc, attest_cipher = None, ec_cookies = cookies_default J\<rparr>"

definition is_attested :: "('g, 'k, 'j, 'ue) EnclaveConnection \<Rightarrow> bool" where
  "is_attested self \<longleftrightarrow> attest_cipher self \<noteq> None"

definition deattest :: "'j cookie_ops \<Rightarrow> ('g, 'k, 'j, 'ue) EnclaveConnection \<Rightarrow> ('g, 'k, 'j, 'ue) EnclaveConnection" where
  "deattest J self =
     (if is_attested self then self\<lparr>attest_cipher := None, ec_cookies := cookies_default J\<rparr> else self)"

definition call_option :: "'j cookie_ops \<Rightarrow> ('g, 'k, 'j, 'ue) EnclaveConnection \<Rightarrow> metadata" where
  "call_option J self =
     (let metadata_builder = (case to_client_metadata J (ec_cookies self) of Some m \<Rightarrow> m | None \<Rightarrow> [])
      in if ec_username self \<noteq> '''' \<and> ec_password self \<noteq> ''''
         then metadata_builder @ [(''Authorization'', ec_authorization_header self)]
         else metadata_builder)"

definition attest ::
  "('rnd, 'i, 'k, 'report, 'ae, 'ke) initiator_ops \<Rightarrow> 'j cookie_ops \<Rightarrow> ('g, 'ge) grpc_ops \<Rightarrow> 'rnd
     \<Rightarrow> ('g, 'k, 'j, 'ue) EnclaveConnection
     \<Rightarrow> (('ge, 'ae, 'ke, 'ue) conn_error, 'report) result \<times> ('g, 'k, 'j, 'ue) EnclaveConnection"
where
  "attest I J G csprng self =
     (let self = deattest J self
      in case ec_responder_id self of
           Inl e \<Rightarrow> (Err (Conn_InvalidUri e), self)
         | Inr responder \<Rightarrow>
             (case ake_initiate I csprng responder of
                Inl e \<Rightarrow> (Err (Conn_Ake e), self)
              | Inr (initiator, auth_request) \<Rightarrow>
                  (case grpc_auth G auth_request (call_option J self) (ec_grpc self) of
                     (Inl e, g) \<Rightarrow> (Err (Conn_Rpc e), self\<lparr>ec_grpc := g\<rparr>)
                   | (Inr (header, auth_response, trailer), g) \<Rightarrow>
                       (let self = self\<lparr>ec_grpc := g,
                                        ec_cookies := update_from_server_metadata J header trailer (ec_cookies self)\<rparr>
                        in case ake_response I csprng auth_response initiator of
                             Inl e \<Rightarrow> (Err (Conn_Ake e), self)
                           | Inr (cipher, report) \<Rightarrow> (Ok report, self\<lparr>attest_cipher := Some cipher\<rparr>)))))"

text \<open>The closure that \<^verbatim>\<open>encrypted_enclave_request\<close> hands to \<^verbatim>\<open>attested_call\<close>.\<close>

definition enclave_call ::
  "'j cookie_ops \<Rightarrow> ('g, 'ge) grpc_ops \<Rightarrow> Message \<Rightarrow> ('g, 'k, 'j, 'ue) EnclaveConnection
     \<Rightarrow> ('ge, Message) result \<times> ('g, 'k, 'j, 'ue) EnclaveConnection"
where
  "enclave_call J G msg this =
     (case grpc_enclave_request G msg (call_option J this) (ec_grpc this) of
        (Inl e, g) \<Rightarrow> (Err e, this\<lparr>ec_grpc := g\<rparr>)
      | (Inr (header, message, trailer), g) \<Rightarrow>
          (Ok message, this\<lparr>ec_grpc := g,
                            ec_cookies := update_from_server_metadata J header trailer (ec_cookies this)\<rparr>))"

type_synonym ('g, 'k, 'j, 'ge, 'ae, 'ke, 'ue) attested_call =
  "(('g, 'k, 'j, 'ue) EnclaveConnection \<Rightarrow> ('ge, Message) result \<times> ('g, 'k, 'j, 'ue) EnclaveConnection)
     \<Rightarrow> ('g, 'k, 'j, 'ue) EnclaveConnection
     \<Rightarrow> (('ge, 'ae, 'ke, 'ue) conn_error, Message) result \<times> ('g, 'k, 'j, 'ue) EnclaveConnection"

text \<open>The part of \<^verbatim>\<open>encrypted_enclave_request\<close> after the attestation.\<close>

definition attested_request ::
  "('rnd, 'i, 'k, 'report, 'ae, 'ke) initiator_ops \<Rightarrow> 'j cookie_ops \<Rightarrow> ('g, 'ge) grpc_ops
     \<Rightarrow> ('g, 'k, 'j, 'ge, 'ae, 'ke, 'ue) attested_call \<Rightarrow> ('req \<Rightarrow> bytes) \<Rightarrow> (bytes \<Rightarrow> 'resp option)
     \<Rightarrow> 'req \<Rightarrow> bytes \<Rightarrow> ('g, 'k, 'j, 'ue) EnclaveConnection
     \<Rightarrow> (('ge, 'ae, 'ke, 'ue) conn_error, 'resp) result \<times> ('g, 'k, 'j, 'ue) EnclaveConnection"
where
  "attested_request I J G attested_call encode decode plaintext_request aad self =
     (case attest_cipher self of
        None \<Rightarrow> (Err Conn_NoCipher, self)
      | Some k \<Rightarrow>
          (case cipher_encrypt I aad (encode plaintext_request) k of
             (Inl e, k') \<Rightarrow> (Err (Conn_Cipher e), self\<lparr>attest_cipher := Some k'\<rparr>)
           | (Inr ciphertext, k') \<Rightarrow>
               (let msg = \<lparr>msg_channel_id = cipher_binding I k, msg_aad = aad, msg_data = ciphertext\<rparr>
                in case attested_call (enclave_call J G msg) (self\<lparr>attest_cipher := Some k'\<rparr>) of
                     (Inl e, self2) \<Rightarrow> (Err e, self2)
                   | (Inr message, self2) \<Rightarrow>
                       (case attest_cipher self2 of
                          None \<Rightarrow> (Err Conn_NoCipher, self2)
                        | Some k2 \<Rightarrow>
                            (case cipher_decrypt I (msg_aad message) (msg_data message) k2 of
                               (Inl e, k3) \<Rightarrow> (Err (Conn_Cipher e), self2\<lparr>attest_cipher := Some k3\<rparr>)
                             | (Inr plaintext, k3) \<Rightarrow>
                                 (case decode plaintext of
                                    None \<Rightarrow> (Err Conn_ProtoDecode, self2\<lparr>attest_cipher := Some k3\<rparr>)
                                  | Some response \<Rightarrow> (Ok response, self2\<lparr>attest_cipher := Some k3\<rparr>)))))))"

definition encrypted_enclave_request ::
  "('rnd, 'i, 'k, 'report, 'ae, 'ke) initiator_ops \<Rightarrow> 'j cookie_ops \<Rightarrow> ('g, 'ge) grpc_ops
     \<Rightarrow> ('g, 'k, 'j, 'ge, 'ae, 'ke, 'ue) attested_call \<Rightarrow> ('req \<Rightarrow> bytes) \<Rightarrow> (bytes \<Rightarrow> 'resp option) \<Rightarrow> 'rnd
     \<Rightarrow> 'req \<Rightarrow> bytes \<Rightarrow> ('g, 'k, 'j, 'ue) EnclaveConnection
     \<Rightarrow> (('ge, 'ae, 'ke, 'ue) conn_error, 'resp) result \<times> ('g, 'k, 'j, 'ue) EnclaveConnection"
where
  "encrypted_enclave_request I J G attested_call encode decode csprng plaintext_request aad self =
     (if is_attested self then attested_request I J G attested_call encode decode plaintext_request aad self
      else case attest I J G csprng self of
             (Inl e, self') \<Rightarrow> (Err e, self')
           | (Inr report, self') \<Rightarrow> attested_request I J G attested_call encode decode plaintext_request aad self')"

section \<open>What a request guarantees\<close>

text \<open>
  \<^verbatim>\<open>attested_call\<close> on an attested connection runs the call once. It passes the result on, and may
  tear the connection down when the call failed.
\<close>

definition attested_call_law :: "'j cookie_ops \<Rightarrow> ('g, 'k, 'j, 'ge, 'ae, 'ke, 'ue) attested_call \<Rightarrow> bool" where
  "attested_call_law J attested_call \<longleftrightarrow>
     (\<forall>f self. is_attested self \<longrightarrow>
        (case f self of
           (Inr message, self') \<Rightarrow> attested_call f self = (Ok message, self')
         | (Inl e, self') \<Rightarrow> attested_call f self = (Err (Conn_Rpc e), self') \<or>
                            attested_call f self = (Err (Conn_Rpc e), deattest J self')))"

text \<open>
  The two ends of a channel: what the client sealed for a channel is what the enclave opens, and what
  the enclave seals in answer on the same channel is what the client opens.
\<close>

definition channel_laws ::
  "('rnd, 'i, 'k, 'report, 'ae, 'ke) initiator_ops
     \<Rightarrow> (Message \<Rightarrow> 'a \<Rightarrow> ('xe, bytes) result \<times> 'a) \<Rightarrow> (bytes \<Rightarrow> bytes \<Rightarrow> bytes \<Rightarrow> 'a \<Rightarrow> ('xe, bytes) result \<times> 'a) \<Rightarrow> bool"
where
  "channel_laws I open_msg seal_msg \<longleftrightarrow>
     (\<forall>aad pt k ct k' a pt' a'. cipher_encrypt I aad pt k = (Ok ct, k') \<longrightarrow>
        open_msg \<lparr>msg_channel_id = cipher_binding I k, msg_aad = aad, msg_data = ct\<rparr> a = (Ok pt', a') \<longrightarrow> pt' = pt) \<and>
     (\<forall>aad pt k ct k'. cipher_encrypt I aad pt k = (ct, k') \<longrightarrow> cipher_binding I k' = cipher_binding I k) \<and>
     (\<forall>aad pt k ct a a' pt' k'. seal_msg (cipher_binding I k) aad pt a = (Ok ct, a') \<longrightarrow>
        cipher_decrypt I aad ct k = (Ok pt', k') \<longrightarrow> pt' = pt)"

lemma channel_lawsD:
  assumes "channel_laws I open_msg seal_msg"
  shows "cipher_encrypt I aad pt k = (Ok ct, k') \<Longrightarrow>
      open_msg \<lparr>msg_channel_id = cipher_binding I k, msg_aad = aad, msg_data = ct\<rparr> a = (Ok pt', a') \<Longrightarrow> pt' = pt"
    and "cipher_encrypt I aad pt k = (x, k') \<Longrightarrow> cipher_binding I k' = cipher_binding I k"
    and "seal_msg (cipher_binding I k) aad pt a = (Ok ct, a') \<Longrightarrow> cipher_decrypt I aad ct k = (Ok pt', k'') \<Longrightarrow> pt' = pt"
  using assms unfolding channel_laws_def by meson+

text \<open>The calls a client makes on the channel.\<close>

definition calls :: "('g, 'ge) grpc_ops \<Rightarrow> 'g \<Rightarrow> 'g \<Rightarrow> bool" where
  "calls G g g' \<longleftrightarrow>
     (\<exists>m opt. g' = snd (grpc_auth G m opt g)) \<or> (\<exists>m opt. g' = snd (grpc_enclave_request G m opt g))"

lemma callsI:
  "grpc_auth G m opt g = (r, g') \<Longrightarrow> (calls G)\<^sup>*\<^sup>* g g'"
  "grpc_enclave_request G msg opt g = (r', g') \<Longrightarrow> (calls G)\<^sup>*\<^sup>* g g'"
  by (metis calls_def r_into_rtranclp snd_conv)+

lemma deattest_grpc [simp]: "ec_grpc (deattest J self) = ec_grpc self"
  by (simp add: deattest_def)

lemma attest_cases:
  assumes "attest I J G csprng self = (r, self')"
  shows "(calls G)\<^sup>*\<^sup>* (ec_grpc self) (ec_grpc self') \<and> (\<forall>report. r = Ok report \<longrightarrow> is_attested self')"
proof -
  let ?self = "deattest J self"
  show ?thesis
  proof (cases "ec_responder_id ?self")
    case (Inr responder)
    show ?thesis
    proof (cases "ake_initiate I csprng responder")
      case init: (Inr x)
      obtain i req where x: "x = (i, req)" by (cases x)
      obtain y g where g: "grpc_auth G req (call_option J ?self) (ec_grpc self) = (y, g)" by (metis surj_pair)
      show ?thesis
      proof (cases y)
        case (Inl e)
        then show ?thesis using assms Inr init g callsI(1) [OF g] by (auto simp: attest_def Let_def x)
      next
        case y: (Inr z)
        obtain h m t where z: "z = (h, m, t)" by (cases z)
        show ?thesis
          using assms Inr init g callsI(1) [OF g] y
          by (cases "ake_response I csprng m i") (auto simp: attest_def Let_def x z is_attested_def)
      qed
    qed (use assms Inr in \<open>auto simp: attest_def Let_def\<close>)
  qed (use assms in \<open>auto simp: attest_def Let_def\<close>)
qed

text \<open>
  A request leads the channel through calls only, and a response it returns is what came out of
  opening and decoding the answer to one sealed request on the channel.
\<close>

definition answered_by ::
  "('rnd, 'i, 'k, 'report, 'ae, 'ke) initiator_ops \<Rightarrow> ('g, 'ge) grpc_ops \<Rightarrow> ('req \<Rightarrow> bytes) \<Rightarrow> (bytes \<Rightarrow> 'resp option)
     \<Rightarrow> 'req \<Rightarrow> bytes \<Rightarrow> 'resp \<Rightarrow> 'g \<Rightarrow> 'g \<Rightarrow> bool"
where
  "answered_by I G encode decode req aad resp g g' \<longleftrightarrow>
     (\<exists>k ct k' opt h message t pt k''. cipher_encrypt I aad (encode req) k = (Ok ct, k') \<and>
        grpc_enclave_request G \<lparr>msg_channel_id = cipher_binding I k, msg_aad = aad, msg_data = ct\<rparr> opt g =
          (Ok (h, message, t), g') \<and>
        cipher_decrypt I (msg_aad message) (msg_data message) k' = (Ok pt, k'') \<and> decode pt = Some resp)"

lemma attested_request_cases:
  assumes law: "attested_call_law J attested_call"
    and req: "attested_request I J G attested_call encode decode plain aad self = (r, self')"
  shows "(calls G)\<^sup>*\<^sup>* (ec_grpc self) (ec_grpc self') \<and>
         (\<forall>resp. r = Ok resp \<longrightarrow> answered_by I G encode decode plain aad resp (ec_grpc self) (ec_grpc self'))"
proof (cases "attest_cipher self")
  case None
  then show ?thesis using req by (auto simp: attested_request_def)
next
  case (Some k)
  obtain x k' where enc: "cipher_encrypt I aad (encode plain) k = (x, k')" by (metis surj_pair)
  show ?thesis
  proof (cases x)
    case (Inl e)
    then show ?thesis using req Some enc by (auto simp: attested_request_def)
  next
    case (Inr ct)
    define msg where "msg = \<lparr>msg_channel_id = cipher_binding I k, msg_aad = aad, msg_data = ct\<rparr>"
    define s where "s = self\<lparr>attest_cipher := Some k'\<rparr>"
    obtain y g where y: "grpc_enclave_request G msg (call_option J s) (ec_grpc self) = (y, g)" by (metis surj_pair)
    note calls = callsI(2) [OF y]
    have "is_attested s" by (simp add: s_def is_attested_def)
    then have f: "case enclave_call J G msg s of
        (Inr message, self') \<Rightarrow> attested_call (enclave_call J G msg) s = (Ok message, self')
      | (Inl e, self') \<Rightarrow> attested_call (enclave_call J G msg) s = (Err (Conn_Rpc e), self') \<or>
                         attested_call (enclave_call J G msg) s = (Err (Conn_Rpc e), deattest J self')"
      by (rule mp [OF spec [OF spec [OF law [unfolded attested_call_law_def], of "enclave_call J G msg"], of s]])
    have run: "attested_request I J G attested_call encode decode plain aad self =
        (case attested_call (enclave_call J G msg) s of
           (Inl e, self2) \<Rightarrow> (Err e, self2)
         | (Inr message, self2) \<Rightarrow>
             (case attest_cipher self2 of
                None \<Rightarrow> (Err Conn_NoCipher, self2)
              | Some k2 \<Rightarrow>
                  (case cipher_decrypt I (msg_aad message) (msg_data message) k2 of
                     (Inl e, k3) \<Rightarrow> (Err (Conn_Cipher e), self2\<lparr>attest_cipher := Some k3\<rparr>)
                   | (Inr plaintext, k3) \<Rightarrow>
                       (case decode plaintext of
                          None \<Rightarrow> (Err Conn_ProtoDecode, self2\<lparr>attest_cipher := Some k3\<rparr>)
                        | Some response \<Rightarrow> (Ok response, self2\<lparr>attest_cipher := Some k3\<rparr>)))))"
      using Some enc Inr by (simp add: attested_request_def msg_def s_def)
    show ?thesis
    proof (cases y)
      case (Inl e)
      then have "enclave_call J G msg s = (Err e, s\<lparr>ec_grpc := g\<rparr>)"
        using y by (simp add: enclave_call_def s_def)
      then show ?thesis using f req calls unfolding run by (auto simp: s_def)
    next
      case y': (Inr z)
      obtain h message t where z: "z = (h, message, t)" by (cases z)
      obtain c where ec: "enclave_call J G msg s = (Ok message, s\<lparr>ec_grpc := g, ec_cookies := c\<rparr>)"
        using y y' z by (simp add: enclave_call_def s_def)
      then have ac: "attested_call (enclave_call J G msg) s = (Ok message, s\<lparr>ec_grpc := g, ec_cookies := c\<rparr>)"
        using f by simp
      have k': "attest_cipher (s\<lparr>ec_grpc := g, ec_cookies := c\<rparr>) = Some k'" by (simp add: s_def)
      obtain w k3 where w: "cipher_decrypt I (msg_aad message) (msg_data message) k' = (w, k3)" by (metis surj_pair)
      have grpc: "ec_grpc self' = g"
        using req k' w unfolding run ac by (auto split: sum.splits option.splits)
      moreover have "answered_by I G encode decode plain aad resp (ec_grpc self) g" if r: "r = Ok resp" for resp
      proof -
        obtain pt where "w = Ok pt" "decode pt = Some resp"
          using req k' w r unfolding run ac by (auto split: sum.splits option.splits)
        then show ?thesis
          unfolding answered_by_def using enc Inr y y' z w
          by (intro exI [of _ k] exI [of _ ct] exI [of _ k'] exI [of _ "call_option J s"] exI [of _ h]
              exI [of _ message] exI [of _ t] exI [of _ pt] exI [of _ k3]) (simp add: msg_def)
      qed
      ultimately show ?thesis using calls by simp
    qed
  qed
qed

lemma encrypted_enclave_request_cases:
  assumes "attested_call_law J attested_call"
    and "encrypted_enclave_request I J G attested_call encode decode csprng plain aad self = (r, self')"
  obtains g where "(calls G)\<^sup>*\<^sup>* (ec_grpc self) g" "(calls G)\<^sup>*\<^sup>* g (ec_grpc self')"
    "\<And>resp. r = Ok resp \<Longrightarrow> answered_by I G encode decode plain aad resp g (ec_grpc self')"
proof (cases "is_attested self")
  case True
  then have "attested_request I J G attested_call encode decode plain aad self = (r, self')"
    using assms(2) by (simp add: encrypted_enclave_request_def)
  from attested_request_cases [OF assms(1) this] show ?thesis by (intro that [of "ec_grpc self"]) auto
next
  case False
  obtain x self1 where x: "attest I J G csprng self = (x, self1)" by (metis surj_pair)
  note self1 = attest_cases [OF x]
  show ?thesis
  proof (cases x)
    case (Inl e)
    then have "self' = self1" "r = Err e" using False x assms(2) by (auto simp: encrypted_enclave_request_def)
    then show ?thesis using self1 by (intro that [of "ec_grpc self1"]) auto
  next
    case (Inr report)
    then have "attested_request I J G attested_call encode decode plain aad self1 = (r, self')"
      using False x assms(2) by (simp add: encrypted_enclave_request_def)
    from attested_request_cases [OF assms(1) this] show ?thesis using self1 by (intro that [of "ec_grpc self1"]) auto
  qed
qed

end
