(* ===== verification/View_Client.thy ===== *)
theory View_Client
  imports View_Query Polling Enclave_Connection
begin

text \<open>
  A client polling the view server: \<^verbatim>\<open>FogViewGrpcClient\<close> of \<^verbatim>\<open>src/fog/view/connection/src/lib.rs\<close>
  over the attested connection, the grpc handlers of \<^verbatim>\<open>src/fog/view/server/src/fog_view_service.rs\<close>,
  and behind them the view server with its threads, its enclave and the recovery database. The
  contract \<open>view_connection\<close> of the polling loop is discharged for this composition, under every
  interleaving: the server moves on between the calls of the client and between the three reads
  that one query makes.
\<close>

section \<open>The client and the handlers\<close>

definition FogViewGrpcClient_request ::
  "('rnd, 'i, 'k, 'report, 'ae, 'ke) initiator_ops \<Rightarrow> 'j cookie_ops \<Rightarrow> ('g, 'ge) grpc_ops
     \<Rightarrow> ('g, 'k, 'j, 'ge, 'ae, 'ke, 'ue) attested_call \<Rightarrow> (QueryRequest \<Rightarrow> bytes) \<Rightarrow> (QueryRequestAAD \<Rightarrow> bytes)
     \<Rightarrow> (bytes \<Rightarrow> QueryResponse option) \<Rightarrow> 'rnd
     \<Rightarrow> i64 \<Rightarrow> u64 \<Rightarrow> bytes list \<Rightarrow> ('g, 'k, 'j, 'ue) EnclaveConnection
     \<Rightarrow> (('ge, 'ae, 'ke, 'ue) conn_error, QueryResponse) result \<times> ('g, 'k, 'j, 'ue) EnclaveConnection"
where
  "FogViewGrpcClient_request I J G attested_call enc_req enc_aad dec_resp csprng ev blk search_keys conn =
     (let req = \<lparr>get_txos = search_keys\<rparr>;
          req_aad = \<lparr>start_from_user_event_id = ev, start_from_block_index = blk\<rparr>
      in encrypted_enclave_request I J G attested_call enc_req dec_resp csprng req (enc_aad req_aad) conn)"

definition FogViewService_auth ::
  "('a, 'id, 'msg, 'ch, 'ae) ake_ops \<Rightarrow> (metadata \<Rightarrow> (rpc_status, unit) result) \<Rightarrow> metadata \<Rightarrow> bytes
     \<Rightarrow> ('m, 'a) ViewEnclave \<Rightarrow> (rpc_status, bytes) result \<times> ('m, 'a) ViewEnclave"
where
  "FogViewService_auth A authenticate ctx request enclave =
     (case authenticate ctx of
        Inl err \<Rightarrow> (Err err, enclave)
      | Inr _ \<Rightarrow>
          (case ViewEnclave_client_accept A request enclave of
             (Inr (response, _), enclave') \<Rightarrow> (Ok response, enclave')
           | (Inl client_error, enclave') \<Rightarrow> (Err RPC_PERMISSION_DENIED, enclave')))"

text \<open>An enclave that panicked answers the server with an SGX error, which is an internal error.\<close>

definition FogViewService_query ::
  "'m omap_ops \<Rightarrow> ('a, 'id, Message, 'ch, 'ae) ake_ops \<Rightarrow> (bytes \<Rightarrow> QueryRequestAAD option)
     \<Rightarrow> (bytes \<Rightarrow> QueryRequest option) \<Rightarrow> (QueryResponse \<Rightarrow> bytes)
     \<Rightarrow> (user_event_row list \<Rightarrow> user_event_row list) \<Rightarrow> (metadata \<Rightarrow> (rpc_status, unit) result) \<Rightarrow> metadata \<Rightarrow> Message
     \<Rightarrow> DbPollSharedState \<Rightarrow> recovery_db \<Rightarrow> ('m, 'a) ViewEnclave
     \<Rightarrow> (rpc_status, Message) result \<times> recovery_db \<times> ('m, 'a) ViewEnclave"
where
  "FogViewService_query M A dec_aad dec enc scan authenticate ctx request shared_state db enclave =
     (case authenticate ctx of
        Inl err \<Rightarrow> (Err err, db, enclave)
      | Inr _ \<Rightarrow>
          (case query_impl M A dec_aad dec enc scan (msg_aad request) request shared_state db enclave of
             (Some (Inr data), db', enclave') \<Rightarrow>
               (Ok \<lparr>msg_channel_id = [], msg_aad = [], msg_data = data\<rparr>, db', enclave')
           | (Some (Inl err), db', enclave') \<Rightarrow> (Err err, db', enclave')
           | (None, db', enclave') \<Rightarrow> (Err RPC_INTERNAL, db', enclave')))"

section \<open>The server as the channel of the client\<close>

type_synonym ('m, 'a) view_server = "(recovery_db, ('m, 'a) ViewEnclave) view_sys"

text \<open>
  What the composition is built from. \<open>env_progress t\<close> is what the threads, the writers of the
  database and the other clients do at the \<open>t\<close>-th point where they can run, and \<open>env_metadata\<close> the
  headers the proxies in between add to an answer.
\<close>

record ('m, 'a, 'id, 'xe, 'rnd, 'i, 'k, 'report, 'ae, 'ke, 'j, 'ue, 'rep) view_env =
  env_M :: "'m omap_ops"
  env_A :: "('a, 'id, Message, bytes, 'xe) ake_ops"
  env_I :: "('rnd, 'i, 'k, 'report, 'ae, 'ke) initiator_ops"
  env_J :: "'j cookie_ops"
  env_call :: "(('m, 'a) view_server \<times> nat, 'k, 'j, rpc_status, 'ae, 'ke, 'ue) attested_call"
  env_enc_req :: "QueryRequest \<Rightarrow> bytes"
  env_dec_req :: "bytes \<Rightarrow> QueryRequest option"
  env_enc_aad :: "QueryRequestAAD \<Rightarrow> bytes"
  env_dec_aad :: "bytes \<Rightarrow> QueryRequestAAD option"
  env_enc_resp :: "QueryResponse \<Rightarrow> bytes"
  env_dec_resp :: "bytes \<Rightarrow> QueryResponse option"
  env_authenticate :: "metadata \<Rightarrow> (rpc_status, unit) result"
  env_scan_events :: "user_event_row list \<Rightarrow> user_event_row list"
  env_store :: "recovery_db store_ops"
  env_enc_txs :: "ETxOutRecord list \<Rightarrow> bytes"
  env_enc_report :: "'rep \<Rightarrow> bytes"
  env_progress :: "nat \<Rightarrow> ('m, 'a) view_server \<Rightarrow> ('m, 'a) view_server"
  env_metadata :: "nat \<Rightarrow> metadata option"
  env_csprng :: "nat \<Rightarrow> 'rnd"

text \<open>
  \<open>FogViewApiClient\<close> as an \<^verbatim>\<open>EnclaveGrpcChannel\<close>. The handler of a query reads the user events,
  then the published counts, and then calls the enclave; the server moves on in between.
\<close>

definition view_channel ::
  "('m, 'a, 'id, 'xe, 'rnd, 'i, 'k, 'report, 'ae, 'ke, 'j, 'ue, 'rep) view_env
     \<Rightarrow> (('m, 'a) view_server \<times> nat, rpc_status) grpc_ops"
where
  "view_channel E =
     \<lparr>grpc_auth = (\<lambda>msg call_option (s, t).
        let s1 = env_progress E t s
        in case FogViewService_auth (env_A E) (env_authenticate E) call_option msg (v_enclave s1) of
             (r, e) \<Rightarrow> (map_sum id (\<lambda>m. (env_metadata E t, m, env_metadata E (t + 1))) r,
                       (s1\<lparr>v_enclave := e\<rparr>, t + 2))),
      grpc_enclave_request = (\<lambda>msg call_option (s, t).
        let s1 = env_progress E t s; s2 = env_progress E (t + 1) s1; s3 = env_progress E (t + 2) s2
        in case FogViewService_query (env_M E) (env_A E) (env_dec_aad E) (env_dec_req E) (env_enc_resp E)
                  (env_scan_events E) (env_authenticate E) call_option msg (v_poll s2) (v_db s1) (v_enclave s3) of
             (r, _, e) \<Rightarrow> (map_sum id (\<lambda>m. (env_metadata E t, m, env_metadata E (t + 1))) r,
                          (s3\<lparr>v_enclave := e\<rparr>, t + 3)))\<rparr>"

definition view_request ::
  "('m, 'a, 'id, 'xe, 'rnd, 'i, 'k, 'report, 'ae, 'ke, 'j, 'ue, 'rep) view_env
     \<Rightarrow> i64 \<Rightarrow> u64 \<Rightarrow> bytes list \<Rightarrow> (('m, 'a) view_server \<times> nat, 'k, 'j, 'ue) EnclaveConnection
     \<Rightarrow> ((rpc_status, 'ae, 'ke, 'ue) conn_error, QueryResponse) result
        \<times> (('m, 'a) view_server \<times> nat, 'k, 'j, 'ue) EnclaveConnection"
where
  "view_request E ev blk search_keys conn =
     FogViewGrpcClient_request (env_I E) (env_J E) (view_channel E) (env_call E) (env_enc_req E) (env_enc_aad E)
       (env_dec_resp E) (env_csprng E (snd (ec_grpc conn))) ev blk search_keys conn"

section \<open>The server under all interleavings\<close>

definition view_server_step ::
  "('m, 'a, 'id, 'xe, 'rnd, 'i, 'k, 'report, 'ae, 'ke, 'j, 'ue, 'rep) view_env
     \<Rightarrow> ('m, 'a) view_server \<Rightarrow> ('m, 'a) view_server \<Rightarrow> bool"
where
  "view_server_step E =
     view_step (env_store E) (sql_step (env_enc_txs E) (env_enc_report E))
       (ecall_add_records (env_M E) :: _ \<Rightarrow> _ \<Rightarrow> ('xe view_error, unit) result \<times> _)
       (query_step (env_M E) (env_A E) (env_dec_req E) (env_enc_resp E))"

definition server_records :: "('m, 'a) view_server \<Rightarrow> bytes \<rightharpoonup> bytes" where
  "server_records s = records_map (log_records (v_log s))"

definition server_good :: "(bytes \<rightharpoonup> bytes) \<Rightarrow> ('m, 'a) view_server \<Rightarrow> bool" where
  "server_good final s \<longleftrightarrow> \<not> v_worker_stuck s \<and> server_records s \<subseteq>\<^sub>m final"

text \<open>
  What is assumed of the parameters: the oblivious map, the attested call and the sealed channel are
  as documented, decoding inverts encoding, and the database gives its rows in some order.
\<close>

definition view_env_laws ::
  "('m \<Rightarrow> bytes \<rightharpoonup> bytes) \<Rightarrow> ('m, 'a, 'id, 'xe, 'rnd, 'i, 'k, 'report, 'ae, 'ke, 'j, 'ue, 'rep) view_env \<Rightarrow> bool"
where
  "view_env_laws content E \<longleftrightarrow>
     omap_laws KeySize ValueSize (env_M E) content \<and>
     attested_call_law (env_J E) (env_call E) \<and>
     channel_laws (env_I E) (client_decrypt (env_A E)) (client_encrypt (env_A E)) \<and>
     (\<forall>m. channel_id (env_A E) m = msg_channel_id m) \<and>
     (\<forall>q q'. env_dec_req E (env_enc_req E q) = Some q' \<longrightarrow> q' = q) \<and>
     (\<forall>r r'. env_dec_resp E (env_enc_resp E r) = Some r' \<longrightarrow> r' = r) \<and>
     (\<exists>dec scan scan_blocks. permutes scan \<and> env_store E = sql_store dec scan scan_blocks)"

text \<open>
  A connection to a server that was started on the database \<open>db\<close> with a fresh enclave \<open>e0\<close>, moves by
  steps of its own, never fails to load a block, and never holds a record that is not in \<open>final\<close>.
\<close>

definition view_conn_ok ::
  "('m \<Rightarrow> bytes \<rightharpoonup> bytes) \<Rightarrow> ('m, 'a, 'id, 'xe, 'rnd, 'i, 'k, 'report, 'ae, 'ke, 'j, 'ue, 'rep) view_env
     \<Rightarrow> recovery_db \<Rightarrow> ('m, 'a) ViewEnclave \<Rightarrow> (bytes \<rightharpoonup> bytes)
     \<Rightarrow> (('m, 'a) view_server \<times> nat, 'k, 'j, 'ue) EnclaveConnection \<Rightarrow> bool"
where
  "view_conn_ok content E db e0 final conn \<longleftrightarrow>
     view_env_laws content E \<and> db_inv db \<and> nonneg_blocks db \<and>
     (\<exists>capacity. e_tx_out_store e0 = Some (ETxOutStore_new (env_M E) capacity)) \<and>
     (\<forall>t s. (view_server_step E)\<^sup>*\<^sup>* s (env_progress E t s)) \<and>
     (\<forall>t s. server_good final s \<longrightarrow> server_good final (env_progress E t s)) \<and>
     (view_server_step E)\<^sup>*\<^sup>* (view_init db e0) (fst (ec_grpc conn)) \<and>
     server_good final (fst (ec_grpc conn))"

context block_store
begin

lemma published_step:
  assumes "view_step S dbstep add qry s s'" "view_inv dbinv content key_start s"
    and "ps_highest_processed_block_count (v_poll s) = last_highest_processed_block_count (v_enclave_tracker s)"
  shows "ps_highest_processed_block_count (v_poll s') = last_highest_processed_block_count (v_enclave_tracker s') \<and>
         ps_highest_processed_block_count (v_poll s) \<le> ps_highest_processed_block_count (v_poll s')"
  using assms
proof cases
  case vs_finish
  obtain h reason t p where "advance_post (highest_known_block_count (v_enclave_tracker s)) (fs_ingress_keys (v_fetcher s))
       (v_enclave_tracker s) t reason" "h = last_highest_processed_block_count t"
    "finish_tick S s = Some (s\<lparr>v_enclave_tracker := t, v_poll := p, v_worker_pc := W_Tick, v_worker_panicked := False\<rparr>)"
    "ps_highest_processed_block_count p = h"
    using finish_tick_Some [OF assms(2)] by metis
  moreover from this(1) have "last_highest_processed_block_count (v_enclave_tracker s) \<le> last_highest_processed_block_count t"
    by (simp add: advance_post_def Let_def)
  ultimately show ?thesis using vs_finish assms(3) by simp
next
  case (vs_add r todo)
  then show ?thesis
    using assms(3) by (auto simp: add_records_to_enclave_def Let_def split: sum.split option.split prod.split dest: block_processed_Some(2))
next
  case (vs_fetch more_work k b todo s1)
  then show ?thesis using assms(3) by (simp add: fetch_block_def split: sum.split option.split)
qed (use assms(3) in \<open>simp_all add: fetcher_stop_def load_ingress_keys_def begin_load_block_data_def limiter_pass_def
    take_fetched_records_def reset_limiter_def split: sum.split option.split\<close>)

lemma published_mono:
  assumes "(view_step S dbstep add qry)\<^sup>*\<^sup>* s s'" "view_reachable S dbstep add qry db e s" "dbinv db"
  shows "ps_highest_processed_block_count (v_poll s) \<le> ps_highest_processed_block_count (v_poll s')"
proof -
  let ?V = "view_step S dbstep add qry"
  let ?P = "\<lambda>s. ps_highest_processed_block_count (v_poll s) = last_highest_processed_block_count (v_enclave_tracker s)"
  have inv: "view_inv dbinv content key_start s" if "view_reachable S dbstep add qry db e s" for s
    by (rule view_inv_reachable [OF that assms(3)])
  have P: "?P s" if "view_reachable S dbstep add qry db e s" for s
    using that unfolding view_reachable_def
  proof (induction rule: rtranclp_induct)
    case base
    show ?case by (simp add: view_init_def BlockTracker_new_def)
  next
    case (step y z)
    then show ?case using published_step [OF step.hyps(2) inv] by (simp add: view_reachable_def)
  qed
  from assms(1) have "view_reachable S dbstep add qry db e s' \<and>
      ps_highest_processed_block_count (v_poll s) \<le> ps_highest_processed_block_count (v_poll s')"
  proof (induction rule: rtranclp_induct)
    case base
    show ?case using assms(2) by simp
  next
    case (step y z)
    then show ?case
      using published_step [OF step.hyps(2) inv P] by (auto simp: view_reachable_def)
  qed
  then show ?thesis by blast
qed

end

section \<open>The contract of the polling loop\<close>

lemma server_enclave_holds:
  assumes "view_conn_ok content E db e0 final conn" "(view_server_step E)\<^sup>*\<^sup>* (view_init db e0) s" "\<not> v_worker_stuck s"
  shows "enclave_holds content (log_records (v_log s)) (v_enclave s)"
proof -
  have ok: "omap_laws KeySize ValueSize (env_M E) content" "db_inv db" "nonneg_blocks db"
      "\<exists>capacity. e_tx_out_store e0 = Some (ETxOutStore_new (env_M E) capacity)"
    using assms(1) by (simp_all add: view_conn_ok_def view_env_laws_def)
  obtain dec scan scan_blocks where store: "permutes scan" "env_store E = sql_store dec scan scan_blocks"
    using assms(1) by (auto simp: view_conn_ok_def view_env_laws_def)
  note bs = sql_block_store [OF store(1), of dec scan_blocks "env_enc_txs E" "env_enc_report E"]
  have "sql_inv db" using ok by (simp add: sql_inv_def)
  note loaded = mp [OF block_store.enclave_log_reachable [OF bs
        assms(2) [unfolded view_server_step_def store(2), folded view_reachable_def] this] assms(3)]
  have "enclave_holds content [] e0"
    using ok(4) ETxOutStore_new_inv [OF ok(1)] by (auto simp: enclave_holds_def)
  then show ?thesis by (rule loads_holds [OF ok(1) _ loaded])
qed

lemma server_published_mono:
  assumes "view_conn_ok content E db e0 final conn" "(view_server_step E)\<^sup>*\<^sup>* (view_init db e0) s" "(view_server_step E)\<^sup>*\<^sup>* s s'"
  shows "ps_highest_processed_block_count (v_poll s) \<le> ps_highest_processed_block_count (v_poll s')"
proof -
  obtain dec scan scan_blocks where store: "permutes scan" "env_store E = sql_store dec scan scan_blocks"
    using assms(1) by (auto simp: view_conn_ok_def view_env_laws_def)
  note bs = sql_block_store [OF store(1), of dec scan_blocks "env_enc_txs E" "env_enc_report E"]
  have "sql_inv db" using assms(1) by (simp add: view_conn_ok_def sql_inv_def)
  with assms(2,3) show ?thesis
    unfolding view_server_step_def store(2)
    by (intro block_store.published_mono [OF bs]) (auto simp: view_reachable_def)
qed

text \<open>Every call of a client keeps the server in a good state.\<close>

lemma query_impl_enclave:
  "snd (snd (query_impl M A dec_aad dec enc scan aad msg p db e)) = e \<or>
   query_step M A dec enc e (snd (snd (query_impl M A dec_aad dec enc scan aad msg p db e)))"
  by (auto simp: query_impl_def query_step_def split_beta split: option.split sum.split)

lemma FogViewService_query_enclave:
  assumes "FogViewService_query M A dec_aad dec enc scan authenticate ctx msg p db e = (r, db', e')"
  shows "e' = e \<or> query_step M A dec enc e e'"
  using assms query_impl_enclave [of M A dec_aad dec enc scan "msg_aad msg" msg p db e]
  by (auto simp: FogViewService_query_def split: sum.splits option.splits prod.splits)

lemma FogViewService_auth_enclave:
  assumes "FogViewService_auth A authenticate ctx msg e = (r, e')"
  shows "e' = e \<or> query_step M A dec enc e e'"
  using assms by (auto simp: FogViewService_auth_def query_step_def split: sum.splits prod.splits) (metis snd_conv)+

lemma server_good_enclave [simp]: "server_good final (s\<lparr>v_enclave := e\<rparr>) = server_good final s"
  by (simp add: server_good_def server_records_def)

lemma server_client_step:
  assumes "e = v_enclave s \<or> query_step (env_M E) (env_A E) (env_dec_req E) (env_enc_resp E) (v_enclave s) e"
  shows "(view_server_step E)\<^sup>*\<^sup>* s (s\<lparr>v_enclave := e\<rparr>)"
  using assms unfolding view_server_step_def by (auto intro: vs_query)

lemma calls_ok:
  assumes ok: "view_conn_ok content E db e0 final conn" and "(calls (view_channel E))\<^sup>*\<^sup>* g g'"
    and g: "server_good final (fst g)"
  shows "(view_server_step E)\<^sup>*\<^sup>* (fst g) (fst g') \<and> server_good final (fst g')"
  using assms(2) g
proof (induction rule: rtranclp_induct)
  case (step y z)
  obtain s t where y: "y = (s, t)" by (cases y)
  have s: "(view_server_step E)\<^sup>*\<^sup>* (fst g) s" "server_good final s" using step.IH [OF step.prems] y by auto
  have prog: "(view_server_step E)\<^sup>*\<^sup>* (fst g) (env_progress E t s) \<and> server_good final (env_progress E t s)"
    if "(view_server_step E)\<^sup>*\<^sup>* (fst g) s" "server_good final s" for s t
    using ok that unfolding view_conn_ok_def by (meson rtranclp_trans)
  let ?s1 = "env_progress E t s"
  let ?s3 = "env_progress E (t + 2) (env_progress E (t + 1) ?s1)"
  have *: "(view_server_step E)\<^sup>*\<^sup>* (fst g) (s'\<lparr>v_enclave := e\<rparr>) \<and> server_good final (s'\<lparr>v_enclave := e\<rparr>)"
    if "(view_server_step E)\<^sup>*\<^sup>* (fst g) s' \<and> server_good final s'"
      "e = v_enclave s' \<or> query_step (env_M E) (env_A E) (env_dec_req E) (env_enc_resp E) (v_enclave s') e" for s' e
    using that server_client_step [OF that(2)] by (auto intro: rtranclp_trans)
  from step.hyps(2) consider m opt where "z = snd (grpc_auth (view_channel E) m opt (s, t))"
    | m opt where "z = snd (grpc_enclave_request (view_channel E) m opt (s, t))"
    by (auto simp: calls_def y)
  then show ?case
  proof cases
    case 1
    obtain r e where f: "FogViewService_auth (env_A E) (env_authenticate E) opt m (v_enclave ?s1) = (r, e)"
      by (metis surj_pair)
    then have "fst z = ?s1\<lparr>v_enclave := e\<rparr>" by (simp add: 1 view_channel_def Let_def)
    then show ?thesis using * [OF prog [OF s] FogViewService_auth_enclave [OF f]] by simp
  next
    case 2
    obtain r db' e where f: "FogViewService_query (env_M E) (env_A E) (env_dec_aad E) (env_dec_req E) (env_enc_resp E)
        (env_scan_events E) (env_authenticate E) opt m (v_poll (env_progress E (t + 1) ?s1)) (v_db ?s1) (v_enclave ?s3) = (r, db', e)"
      by (metis surj_pair)
    then have "fst z = ?s3\<lparr>v_enclave := e\<rparr>" by (simp add: 2 view_channel_def Let_def)
    then show ?thesis using * [OF _ FogViewService_query_enclave [OF f]] prog s by simp
  qed
qed simp

lemma response_of_fields [simp]:
  "tx_out_search_results (response_of u results) = results"
  "highest_processed_block_count (response_of u results) = uq_highest_processed_block_count u"
  by (simp_all add: response_of_def split: prod.split)

lemma enclave_query_Ok:
  assumes "enclave_query M A dec enc msg u e = (Some (Ok data), e')"
  obtains pt a req where "client_decrypt A msg (ve_ake e) = (Ok pt, a)" "dec pt = Some req"
proof -
  obtain x a where x: "client_decrypt A msg (ve_ake e) = (x, a)" by (metis surj_pair)
  then show thesis
    using assms that by (cases x) (auto simp: enclave_query_def split: option.splits)
qed

lemma FogViewService_query_Ok:
  assumes "FogViewService_query M A dec_aad dec enc scan authenticate ctx msg p db e = (Ok message, db', e')"
  obtains data events next_id where "message = \<lparr>msg_channel_id = [], msg_aad = [], msg_data = data\<rparr>"
    "enclave_query M A dec enc msg (untrusted_response events next_id p) e = (Some (Ok data), e')"
proof -
  obtain r db1 e1 where q: "query_impl M A dec_aad dec enc scan (msg_aad msg) msg p db e = (r, db1, e1)"
    by (metis surj_pair)
  then obtain data where r: "r = Some (Ok data)" "message = \<lparr>msg_channel_id = [], msg_aad = [], msg_data = data\<rparr>" "e' = e1"
    using assms by (auto simp: FogViewService_query_def split: sum.splits option.splits)
  obtain events next_id where "enclave_query M A dec enc msg (untrusted_response events next_id p) e = (Some (Ok data), e1)"
    using q unfolding r(1) query_impl_def
    by (auto simp: map_option_case split: option.splits sum.splits prod.splits)
  then show thesis using that r by blast
qed

lemma answered_by_server:
  assumes ok: "view_conn_ok content E db e0 final conn"
    and g: "(view_server_step E)\<^sup>*\<^sup>* (view_init db e0) (fst g)" "server_good final (fst g)"
    and ans: "answered_by (env_I E) (view_channel E) (env_enc_req E) (env_dec_resp E) \<lparr>get_txos = keys\<rparr> aad resp g g'"
  shows "(\<exists>miss. tx_out_search_results resp = map (answer (server_records (fst g')) miss) keys) \<and>
         highest_processed_block_count resp \<le> ps_highest_processed_block_count (v_poll (fst g'))"
proof -
  have laws: "omap_laws KeySize ValueSize (env_M E) content"
      "channel_laws (env_I E) (client_decrypt (env_A E)) (client_encrypt (env_A E))"
      "\<And>m. channel_id (env_A E) m = msg_channel_id m"
      "\<And>q q'. env_dec_req E (env_enc_req E q) = Some q' \<Longrightarrow> q' = q"
      "\<And>r r'. env_dec_resp E (env_enc_resp E r) = Some r' \<Longrightarrow> r' = r"
    using ok by (auto simp: view_conn_ok_def view_env_laws_def)
  obtain s t where st: "g = (s, t)" by (cases g)
  define s1 where "s1 = env_progress E t s"
  define s2 where "s2 = env_progress E (t + 1) s1"
  define s3 where "s3 = env_progress E (t + 2) s2"
  have steps: "(view_server_step E)\<^sup>*\<^sup>* s s2" "(view_server_step E)\<^sup>*\<^sup>* s2 s3" "server_good final s3"
    using ok g(2) unfolding view_conn_ok_def s1_def s2_def s3_def by (auto simp: st intro: rtranclp_trans)
  then have reach: "(view_server_step E)\<^sup>*\<^sup>* (view_init db e0) s2" "(view_server_step E)\<^sup>*\<^sup>* (view_init db e0) s3"
    using g(1) by (auto simp: st intro: rtranclp_trans)
  obtain k ct k' opt h message tr pt k'' where sealed: "cipher_encrypt (env_I E) aad (env_enc_req E \<lparr>get_txos = keys\<rparr>) k = (Ok ct, k')"
      and req: "grpc_enclave_request (view_channel E) \<lparr>msg_channel_id = cipher_binding (env_I E) k, msg_aad = aad, msg_data = ct\<rparr> opt (s, t) =
          (Ok (h, message, tr), g')"
      and opened: "cipher_decrypt (env_I E) (msg_aad message) (msg_data message) k' = (Ok pt, k'')" "env_dec_resp E pt = Some resp"
    using ans by (auto simp: answered_by_def st)
  let ?msg = "\<lparr>msg_channel_id = cipher_binding (env_I E) k, msg_aad = aad, msg_data = ct\<rparr>"
  obtain r db' e where q: "FogViewService_query (env_M E) (env_A E) (env_dec_aad E) (env_dec_req E) (env_enc_resp E)
      (env_scan_events E) (env_authenticate E) opt ?msg (v_poll s2) (v_db s1) (v_enclave s3) = (r, db', e)" by (metis surj_pair)
  then have g': "fst g' = s3\<lparr>v_enclave := e\<rparr>" and r: "r = Ok message"
    using req unfolding s1_def s2_def s3_def by (cases r; auto simp: view_channel_def Let_def)+
  obtain data events next_id where data: "message = \<lparr>msg_channel_id = [], msg_aad = [], msg_data = data\<rparr>"
      "enclave_query (env_M E) (env_A E) (env_dec_req E) (env_enc_resp E) ?msg (untrusted_response events next_id (v_poll s2)) (v_enclave s3) =
         (Some (Ok data), e)"
    using FogViewService_query_Ok [OF q [unfolded r]] .
  obtain pt' a q where dec: "client_decrypt (env_A E) ?msg (ve_ake (v_enclave s3)) = (Ok pt', a)" "env_dec_req E pt' = Some q"
    using enclave_query_Ok [OF data(2)] .
  have q: "q = \<lparr>get_txos = keys\<rparr>"
    using laws(4) channel_lawsD(1) [OF laws(2) sealed dec(1)] dec(2) by blast
  have "enclave_holds content (log_records (v_log s3)) (v_enclave s3)"
    using server_enclave_holds [OF ok reach(2)] steps(3) by (simp add: server_good_def)
  from enclave_query_answers [where dec = "env_dec_req E" and enc = "env_enc_resp E"
      and u = "untrusted_response events next_id (v_poll s2)", OF laws(1) this dec]
  obtain miss where miss: "fst (enclave_query (env_M E) (env_A E) (env_dec_req E) (env_enc_resp E) ?msg
        (untrusted_response events next_id (v_poll s2)) (v_enclave s3)) =
      Some (case_sum (\<lambda>x. Err (VE_AttestEnclave x)) Ok
        (fst (client_encrypt (env_A E) (cipher_binding (env_I E) k) []
          (env_enc_resp E (response_of (untrusted_response events next_id (v_poll s2)) (map (answer (server_records s3) miss) keys))) a)))"
    by (auto simp: q laws(3) server_records_def)
  let ?resp = "response_of (untrusted_response events next_id (v_poll s2)) (map (answer (server_records s3) miss) keys)"
  obtain a' where enc: "client_encrypt (env_A E) (cipher_binding (env_I E) k') [] (env_enc_resp E ?resp) a = (Ok data, a')"
  proof (cases "client_encrypt (env_A E) (cipher_binding (env_I E) k) [] (env_enc_resp E ?resp) a")
    case (Pair x a')
    moreover have "cipher_binding (env_I E) k' = cipher_binding (env_I E) k"
      by (rule channel_lawsD(2) [OF laws(2) sealed])
    ultimately show thesis using miss data(2) that by (cases x) auto
  qed
  then have "pt = env_enc_resp E ?resp"
    using channel_lawsD(3) [OF laws(2), of k' "[]"] opened(1) by (simp add: data(1))
  then have "resp = ?resp" using opened(2) laws(5) by simp
  moreover have "server_records (fst g') = server_records s3" "v_poll (fst g') = v_poll s3"
    by (simp_all add: g' server_records_def)
  ultimately show ?thesis
    using server_published_mono [OF ok reach(1) steps(2)] by (auto simp: untrusted_response_def)
qed

lemma view_request_cases:
  assumes ok: "view_conn_ok content E db e0 final conn" and req: "view_request E ev blk keys conn = (r, conn')"
  shows "view_conn_ok content E db e0 final conn' \<and>
     (view_server_step E)\<^sup>*\<^sup>* (fst (ec_grpc conn)) (fst (ec_grpc conn')) \<and>
     (\<forall>resp. r = Ok resp \<longrightarrow>
        (\<exists>miss. tx_out_search_results resp = map (answer (server_records (fst (ec_grpc conn'))) miss) keys) \<and>
        highest_processed_block_count resp \<le> ps_highest_processed_block_count (v_poll (fst (ec_grpc conn'))))"
proof -
  have law: "attested_call_law (env_J E) (env_call E)" and good: "server_good final (fst (ec_grpc conn))"
    and reach: "(view_server_step E)\<^sup>*\<^sup>* (view_init db e0) (fst (ec_grpc conn))"
    using ok by (simp_all add: view_conn_ok_def view_env_laws_def)
  obtain g where g: "(calls (view_channel E))\<^sup>*\<^sup>* (ec_grpc conn) g" "(calls (view_channel E))\<^sup>*\<^sup>* g (ec_grpc conn')"
    "\<And>resp. r = Ok resp \<Longrightarrow> answered_by (env_I E) (view_channel E) (env_enc_req E) (env_dec_resp E) \<lparr>get_txos = keys\<rparr>
       (env_enc_aad E \<lparr>start_from_user_event_id = ev, start_from_block_index = blk\<rparr>) resp g (ec_grpc conn')"
    using encrypted_enclave_request_cases [OF law req [unfolded view_request_def FogViewGrpcClient_request_def Let_def]] by metis
  have g1: "(view_server_step E)\<^sup>*\<^sup>* (view_init db e0) (fst g)" "server_good final (fst g)"
    using calls_ok [OF ok g(1) good] reach by auto
  note g2 = calls_ok [OF ok rtranclp_trans [OF g(1,2)] good]
  have "(view_server_step E)\<^sup>*\<^sup>* (view_init db e0) (fst (ec_grpc conn'))"
    using rtranclp_trans [OF reach conjunct1 [OF g2]] .
  with ok g2 have "view_conn_ok content E db e0 final conn'" unfolding view_conn_ok_def by blast
  then show ?thesis using answered_by_server [OF ok g1 g(3)] g2 by blast
qed

interpretation client: view_connection "view_request E" "view_conn_ok content E db e0 final"
  "\<lambda>conn. server_records (fst (ec_grpc conn))"
  "\<lambda>conn. ps_highest_processed_block_count (v_poll (fst (ec_grpc conn)))" final
  "\<lambda>conn conn'. (view_server_step E)\<^sup>*\<^sup>* (fst (ec_grpc conn)) (fst (ec_grpc conn'))"
  for E content db e0 final
proof
  fix c c' ev blk keys resp res k
  assume ok: "view_conn_ok content E db e0 final c"
  { assume "view_request E ev blk keys c = (Inr resp, c')"
    from view_request_cases [OF ok this]
    show "(\<exists>miss. tx_out_search_results resp = map (answer (server_records (fst (ec_grpc c'))) miss) keys) \<and>
        highest_processed_block_count resp \<le> ps_highest_processed_block_count (v_poll (fst (ec_grpc c')))" by simp }
  { assume "view_request E ev blk keys c = (res, c')"
    from view_request_cases [OF ok this] show "view_conn_ok content E db e0 final c'"
      "(view_server_step E)\<^sup>*\<^sup>* (fst (ec_grpc c)) (fst (ec_grpc c'))" by simp_all }
  have good: "server_good final (fst (ec_grpc c))" using ok by (simp add: view_conn_ok_def)
  then show "server_records (fst (ec_grpc c)) \<subseteq>\<^sub>m final" by (simp add: server_good_def)
  assume k: "k \<in> dom (server_records (fst (ec_grpc c)))"
  have "enclave_holds content (log_records (v_log (fst (ec_grpc c)))) (v_enclave (fst (ec_grpc c)))"
    using server_enclave_holds [OF ok] good ok by (simp add: server_good_def view_conn_ok_def)
  then show "length k = KeySize \<and> \<not> zero_key k"
    using k by (auto simp: enclave_holds_def server_records_def records_map_def dom_map_of_conv_image_fst)
qed (auto intro: rtranclp_trans)

end
