(* ===== verification/Poll_Props.thy ===== *)
theory Poll_Props
  imports View_Client
begin

text \<open>
  Properties of a client that polls the view server through an attested connection.
\<close>

section \<open>A sample connection\<close>

definition poll_hash :: "bytes \<Rightarrow> bytes" where
  "poll_hash bs =
     (let c = drop (length bs - 8) bs
      in if from_le_bytes c = 0 then replicate 16 7 @ replicate 48 0 else take 64 (c @ replicate 64 0))"

definition poll_ake :: "(unit, unit, Message, bytes, unit) ake_ops" where
  "poll_ake = \<lparr>ake_init = (\<lambda>_ a. (Ok (), a)), client_accept = (\<lambda>_ a. (Ok ([], []), a)),
               client_close = (\<lambda>_ a. (Ok (), a)), channel_id = msg_channel_id,
               client_decrypt = (\<lambda>m a. (Ok (msg_data m), a)), client_encrypt = (\<lambda>_ _ m a. (Ok m, a))\<rparr>"

definition poll_initiator :: "(unit, unit, unit, unit, unit, unit) initiator_ops" where
  "poll_initiator = \<lparr>ake_initiate = (\<lambda>_ _. Ok ((), [])), ake_response = (\<lambda>_ _ _. Ok ((), ())), cipher_binding = (\<lambda>_. []),
                     cipher_encrypt = (\<lambda>_ m k. (Ok m, k)), cipher_decrypt = (\<lambda>_ m k. (Ok m, k))\<rparr>"

definition poll_cookies :: "unit cookie_ops" where
  "poll_cookies = \<lparr>cookies_default = (), update_from_server_metadata = (\<lambda>_ _ j. j), to_client_metadata = (\<lambda>_. None)\<rparr>"

definition poll_call ::
  "('g, unit, unit, rpc_status, unit, unit, unit) attested_call"
where
  "poll_call f self = (case f self of (r, self') \<Rightarrow> (map_sum Conn_Rpc id r, self'))"

definition poll_enclave :: "(nat \<times> (bytes \<times> bytes) list, unit) ViewEnclave" where
  "poll_enclave = snd (ViewEnclave_init table_ops poll_ake () 8 (ViewEnclave_new ()))"

definition poll_add ::
  "ETxOutRecord list \<Rightarrow> (nat \<times> (bytes \<times> bytes) list, unit) ViewEnclave
     \<Rightarrow> (unit view_error, unit) result \<times> (nat \<times> (bytes \<times> bytes) list, unit) ViewEnclave"
where
  "poll_add = ecall_add_records table_ops"

definition poll_server :: "(nat \<times> (bytes \<times> bytes) list, unit) view_server" where
  "poll_server = the (finish_tick wit_store (run_loaded poll_add poll_enclave))"

text \<open>The answer to the first request of a poll.\<close>

definition poll_resp :: QueryResponse where
  "poll_resp = response_of (untrusted_response [] i64_max (v_poll poll_server)) []"

definition poll_rng :: VersionedKexRng where
  "poll_rng = V0 (BufferedKexRng_from_secret (KexRng20201124 poll_hash) (replicate 32 0))"

definition poll_resp1 :: QueryResponse where
  "poll_resp1 = response_of (untrusted_response [] i64_max (v_poll poll_server))
     (map (answer [replicate 16 7 \<mapsto> [1, 2, 3]] 3) [str poll_hash poll_rng 0, str poll_hash poll_rng 1])"

function dec_keys :: "bytes \<Rightarrow> bytes list option" where
  "dec_keys [] = Some []"
| "dec_keys (n # bs) =
     (if unat n \<le> length bs then map_option ((#) (take (unat n) bs)) (dec_keys (drop (unat n) bs)) else None)"
  by pat_completeness auto
termination by (relation "measure length") auto

definition enc_keys :: "bytes list \<Rightarrow> bytes" where
  "enc_keys ks = (if \<forall>k \<in> set ks. length k < 256 then concat (map (\<lambda>k. of_nat (length k) # k) ks) else [255])"

definition poll_env ::
  "(nat \<times> (bytes \<times> bytes) list, unit, unit, unit, unit, unit, unit, unit, unit, unit, unit, unit, bytes) view_env"
where
  "poll_env =
     \<lparr>env_M = table_ops, env_A = poll_ake, env_I = poll_initiator, env_J = poll_cookies, env_call = poll_call,
      env_enc_req = (\<lambda>q. enc_keys (get_txos q)),
      env_dec_req = (\<lambda>bs. map_option (\<lambda>ks. \<lparr>get_txos = ks\<rparr>) (dec_keys bs)),
      env_enc_aad = (\<lambda>_. []), env_dec_aad = (\<lambda>_. Some \<lparr>start_from_user_event_id = i64_max, start_from_block_index = 0\<rparr>),
      env_enc_resp = (\<lambda>r. if r = poll_resp then [1] else if r = poll_resp1 then [2] else []),
      env_dec_resp = (\<lambda>bs. if bs = [1] then Some poll_resp else if bs = [2] then Some poll_resp1 else None),
      env_authenticate = (\<lambda>_. Ok ()), env_scan_events = (\<lambda>xs. xs), env_store = wit_store,
      env_enc_txs = sample_enc, env_enc_report = sample_enc_report, env_progress = (\<lambda>_ s. s),
      env_metadata = (\<lambda>_. None), env_csprng = (\<lambda>_. ())\<rparr>"

lemma dec_enc_keys: "dec_keys (enc_keys ks) = Some ks' \<Longrightarrow> ks' = ks"
proof (cases "\<forall>k \<in> set ks. length k < 256")
  case True
  then have "dec_keys (concat (map (\<lambda>k. of_nat (length k) # k) ks)) = Some ks"
    by (induction ks) (simp_all add: unat_of_nat_u8)
  then show "dec_keys (enc_keys ks) = Some ks' \<Longrightarrow> ks' = ks" using True by (simp add: enc_keys_def)
qed (simp add: enc_keys_def)

lemma poll_added:
  obtains e' where "poll_add sample_txs poll_enclave = (Ok (), e')" "e_tx_out_store e' \<noteq> None"
proof -
  obtain st where "add_record table_ops (replicate 16 7) [1, 2, 3] (ETxOutStore_new table_ops 8) = (Some (Ok ()), st)"
    using table_write_empty by (simp add: add_record_def ETxOutStore_new_def KeySize_def ValueSize_def Let_def)
  then have "poll_add sample_txs poll_enclave = (Ok (), poll_enclave\<lparr>e_tx_out_store := Some st\<rparr>)"
    by (simp add: poll_add_def ecall_add_records_def add_records_def poll_enclave_def ViewEnclave_init_def poll_ake_def sample_txs_def)
  then show thesis using that by simp
qed

lemma poll_env_laws: "view_env_laws (\<lambda>m. map_of (snd m)) poll_env"
proof -
  have "attested_call_law poll_cookies poll_call"
    by (auto simp: attested_call_law_def poll_call_def split: prod.split sum.split)
  moreover have "channel_laws poll_initiator (client_decrypt poll_ake) (client_encrypt poll_ake)"
    by (simp add: channel_laws_def poll_initiator_def poll_ake_def)
  moreover have "\<exists>dec scan scan_blocks. permutes scan \<and> wit_store = sql_store dec scan scan_blocks"
    unfolding wit_store_def using permutes_id by blast
  ultimately show ?thesis
    using table_laws dec_enc_keys by (auto simp: view_env_laws_def poll_env_def poll_ake_def)
qed

lemma poll_server:
  "(view_server_step poll_env)\<^sup>*\<^sup>* (view_init sample_db3 poll_enclave) poll_server"
  "server_good [replicate 16 7 \<mapsto> [1, 2, 3]] poll_server" "ps_highest_processed_block_count (v_poll poll_server) = 6"
  "e_tx_out_store (v_enclave poll_server) \<noteq> None"
proof -
  obtain e' where add: "poll_add sample_txs poll_enclave = (Ok (), e')" "e_tx_out_store e' \<noteq> None" by (rule poll_added)
  note added = run_added [where add = poll_add, OF add(1)]
  obtain s' where s': "finish_tick wit_store (run_loaded poll_add poll_enclave) = Some s'"
    "ps_highest_processed_block_count (v_poll s') = 6"
    using run_published [where add = poll_add, OF add(1)] .
  then have eq: "poll_server = s'" by (simp add: poll_server_def)
  show "ps_highest_processed_block_count (v_poll poll_server) = 6" using s' eq by simp
  let ?V = "view_server_step poll_env"
  have "?V\<^sup>*\<^sup>* (view_init sample_db3 poll_enclave) (run_loaded poll_add poll_enclave)"
    using run_reachable unfolding view_reachable_def view_server_step_def poll_add_def by (simp add: poll_env_def)
  moreover have "?V (run_loaded poll_add poll_enclave) s'"
    unfolding view_server_step_def using added s'(1) by (intro vs_finish) (simp_all add: poll_env_def)
  ultimately show "?V\<^sup>*\<^sup>* (view_init sample_db3 poll_enclave) poll_server" unfolding eq by simp
  have "v_log s' = v_log (run_loaded poll_add poll_enclave)" "\<not> v_worker_stuck s'"
    "v_enclave s' = e'"
    using s'(1) added by (auto simp: finish_tick_def split: option.splits prod.splits)
  then show "server_good [replicate 16 7 \<mapsto> [1, 2, 3]] poll_server"
    unfolding eq using added by (simp add: server_good_def server_records_def log_records_def sample_txs_def map_le_def)
  show "e_tx_out_store (v_enclave poll_server) \<noteq> None"
    unfolding eq using add(2) \<open>v_enclave s' = e'\<close> by simp
qed

definition poll_conn ::
  "((nat \<times> (bytes \<times> bytes) list, unit) view_server \<times> nat, unit, unit, unit) EnclaveConnection"
where
  "poll_conn = (EnclaveConnection_new poll_cookies (Ok [CHR 0x76]) [] [] [] (poll_server, 0))\<lparr>attest_cipher := Some ()\<rparr>"

lemma poll_conn_ok: "view_conn_ok (\<lambda>m. map_of (snd m)) poll_env sample_db3 poll_enclave [replicate 16 7 \<mapsto> [1, 2, 3]]
    poll_conn"
proof -
  have "nonneg_blocks sample_db3" by (simp add: nonneg_blocks_def sample_eqs)
  moreover have "e_tx_out_store poll_enclave = Some (ETxOutStore_new table_ops 8)"
    by (simp add: poll_enclave_def ViewEnclave_init_def poll_ake_def)
  moreover have "env_M poll_env = table_ops" "env_progress poll_env = (\<lambda>_ s. s)" by (simp_all add: poll_env_def)
  ultimately show ?thesis
    using poll_env_laws poll_server sample_inv(4)
    by (auto simp: view_conn_ok_def poll_conn_def EnclaveConnection_new_def)
qed

lemma poll_env_sels:
  "env_M poll_env = table_ops" "env_A poll_env = poll_ake" "env_I poll_env = poll_initiator" "env_J poll_env = poll_cookies"
  "env_call poll_env = poll_call" "env_authenticate poll_env = (\<lambda>_. Ok ())" "env_scan_events poll_env = (\<lambda>xs. xs)"
  "env_progress poll_env = (\<lambda>_ s. s)" "env_metadata poll_env = (\<lambda>_. None)" "env_enc_req poll_env \<lparr>get_txos = []\<rparr> = []"
  "env_enc_aad poll_env a = []" "env_dec_resp poll_env [1] = Some poll_resp"
  by (simp_all add: poll_env_def enc_keys_def)

lemma poll_first_answer:
  "grpc_enclave_request (view_channel poll_env) \<lparr>msg_channel_id = [], msg_aad = [], msg_data = []\<rparr> opt (poll_server, t) =
     (Ok (None, \<lparr>msg_channel_id = [], msg_aad = [], msg_data = [1]\<rparr>, None), (poll_server, t + 3))"
proof -
  obtain st where st: "e_tx_out_store (v_enclave poll_server) = Some st" using poll_server(4) by blast
  have "query_impl table_ops poll_ake (env_dec_aad poll_env) (env_dec_req poll_env) (env_enc_resp poll_env) (\<lambda>xs. xs) []
      \<lparr>msg_channel_id = [], msg_aad = [], msg_data = []\<rparr> (v_poll poll_server) (v_db poll_server) (v_enclave poll_server) =
      (Some (Ok [1]), v_db poll_server, v_enclave poll_server)"
    using st by (simp add: query_impl_def poll_env_def search_user_events_def enclave_query_def poll_ake_def poll_resp_def)
  then show ?thesis
    by (simp add: view_channel_def FogViewService_query_def poll_env_sels)
qed

lemma poll_first_request:
  "\<exists>c1. view_request poll_env i64_max 0 [] poll_conn = (Ok poll_resp, c1)"
proof -
  have "\<exists>c1. enclave_call poll_cookies (view_channel poll_env) \<lparr>msg_channel_id = [], msg_aad = [], msg_data = []\<rparr> (poll_conn\<lparr>attest_cipher := Some ()\<rparr>) =
      (Ok \<lparr>msg_channel_id = [], msg_aad = [], msg_data = [1]\<rparr>, c1) \<and>
      attest_cipher c1 = Some ()"
    by (simp add: enclave_call_def poll_conn_def EnclaveConnection_new_def poll_first_answer)
  moreover have "attest_cipher poll_conn = Some ()" by (simp add: poll_conn_def)
  ultimately show ?thesis
    by (auto simp: view_request_def FogViewGrpcClient_request_def encrypted_enclave_request_def attested_request_def
        is_attested_def poll_env_sels poll_initiator_def poll_call_def Let_def)
qed

lemma poll_stream:
  "str poll_hash poll_rng i = take 16 (poll_hash (domain_tag @ replicate 32 0 @ to_le_bytes (of_nat i)))"
  by (simp add: str_def poll_rng_def KexRng20201124_def buffered_defs)

lemma poll_outputs:
  "str poll_hash poll_rng 0 = replicate 16 7"
  "0 < i \<Longrightarrow> i \<le> 2000 \<Longrightarrow> str poll_hash poll_rng i = to_le_bytes (of_nat i) @ replicate 8 0"
proof -
  show "str poll_hash poll_rng 0 = replicate 16 7"
    by (simp add: poll_stream poll_hash_def Let_def)
  assume "0 < i" "i \<le> 2000"
  then have "unat (of_nat i :: u64) = i" by (intro unat_of_nat_u64) simp
  then have "(of_nat i :: u64) \<noteq> 0" using \<open>0 < i\<close> by auto
  then show "str poll_hash poll_rng i = to_le_bytes (of_nat i) @ replicate 8 0"
    by (simp add: poll_stream poll_hash_def Let_def)
qed

lemma poll_separated: "separated poll_hash toy_kex 2000 [([1], poll_rng)]"
proof -
  have size: "blake2b_size poll_hash" by (simp add: blake2b_size_def poll_hash_def Let_def)
  have "versioned_wf poll_hash toy_kex poll_rng"
    unfolding poll_rng_def by (rule from_secret_wf [OF size]) (simp add: toy_kex_def)
  moreover have "inj_on (str poll_hash poll_rng) {..2000}"
  proof (rule inj_onI)
    have ne: "str poll_hash poll_rng k \<noteq> replicate 16 7" if "0 < k" "k \<le> 2000" for k
    proof
      assume "str poll_hash poll_rng k = replicate 16 7"
      then have "last (str poll_hash poll_rng k) = 7" by (simp add: last_replicate)
      then show False by (simp add: poll_outputs(2) [OF that])
    qed
    fix i j
    assume ij: "i \<in> {..2000}" "j \<in> {..2000}" "str poll_hash poll_rng i = str poll_hash poll_rng j"
    consider "i = 0" "j = 0" | "i = 0" "0 < j" | "0 < i" "j = 0" | "0 < i" "0 < j" by blast
    then show "i = j"
    proof cases
      case 2
      then show ?thesis using ne [of j] ij poll_outputs(1) by (metis atMost_iff)
    next
      case 3
      then show ?thesis using ne [of i] ij poll_outputs(1) by (metis atMost_iff)
    next
      case 4
      have "to_le_bytes (of_nat i) @ replicate 8 0 = to_le_bytes (of_nat j) @ replicate 8 0"
        using ij(3) unfolding poll_outputs(2) [OF 4(1) ij(1) [unfolded atMost_iff]] poll_outputs(2) [OF 4(2) ij(2) [unfolded atMost_iff]] .
      then have "(of_nat i :: u64) = of_nat j" by (metis append_same_eq from_to_le_bytes)
      then have "unat (of_nat i :: u64) = unat (of_nat j :: u64)" by (rule arg_cong)
      moreover have "i < 2 ^ 64" "j < 2 ^ 64" using ij(1,2) by simp_all
      ultimately show ?thesis using unat_of_nat_u64 by metis
    qed simp
  qed
  moreover have "VersionedKexRng_index poll_rng = 0" by (simp add: poll_rng_def buffered_defs)
  ultimately show ?thesis by (simp add: separated_def)
qed

section \<open>Properties\<close>

text \<open>
  C12: a client's poll of the view server ends and is complete. Whatever the threads of the server,
  the writers of the database and other clients do in the meantime, the loop returns; the records it
  returns are exactly those of the outputs its generators passed, each once; every generator stops at
  or before the first of its outputs that never gets a record; and if the client raises its count of
  processed blocks, then for every generator there was a moment during the poll when the server had
  processed that many blocks and did not hold the next output, so no record of an earlier block is
  left behind.
\<close>

theorem poll_complete:
  fixes box_decrypt :: "'priv \<Rightarrow> bytes \<Rightarrow> ('be, bool \<times> bytes) result"
    and errs :: "((rpc_status, 'ae, 'ke, 'ue) conn_error, 'be) TxOutPollingError list"
    and E :: "('m, 'a, 'id, 'xe, 'rnd, 'i, 'k, 'report, 'ae, 'ke, 'j, 'ue, 'rep) view_env"
    and c :: "(('m, 'a) view_server \<times> nat, 'k, 'j, 'ue) EnclaveConnection"
  assumes "view_conn_ok content E db e0 final c"
    and "view_request E (us_next_start_from_user_event_id urs) (us_highest_processed_block_count urs) [] c = (Ok result, c1)"
    and "ingest_rng_records blake2b K order view_key (rng_records result) [] urs = (errs, urs1)"
    and "separated blake2b K N (rngs urs1)"
    and "\<forall>(n, r) \<in> set (rngs urs1). b n + length (rngs urs1) * 1000 \<le> N \<and> str blake2b r (b n) \<notin> dom final"
  shows "\<exists>rs es urs' c' d'. poll blake2b K order order_rest box_decrypt dec (view_request E) view_key urs c =
       Some ((rs, es), urs', c') \<and>
     rngs urs' = advanced blake2b d' (rngs urs1) \<and> (\<forall>(n, r) \<in> set (rngs urs1). d' n \<le> b n) \<and>
     mset rs = mset (passed blake2b (decrypt_tx_out_result box_decrypt dec view_key) final (\<lambda>_. 0) d' (rngs urs1)) \<and>
     us_next_start_from_user_event_id urs' = next_start_from_user_event_id result \<and>
     (us_highest_processed_block_count urs' = us_highest_processed_block_count urs1 \<or>
      us_highest_processed_block_count urs1 < us_highest_processed_block_count urs' \<and>
      (\<forall>(n, r) \<in> set (rngs urs1).
         \<exists>s. (view_server_step E)\<^sup>*\<^sup>* (fst (ec_grpc c)) s \<and> (view_server_step E)\<^sup>*\<^sup>* s (fst (ec_grpc c')) \<and>
             us_highest_processed_block_count urs' \<le> ps_highest_processed_block_count (v_poll s) \<and>
             str blake2b r (d' n) \<notin> dom (server_records s)))"
proof -
  from client.poll_returns [where order_rest = order_rest and box_decrypt = box_decrypt and dec = dec and b = b, OF assms]
  obtain rs es urs' c' d' where "poll blake2b K order order_rest box_decrypt dec (view_request E) view_key urs c =
       Some ((rs, es), urs', c')"
     "rngs urs' = advanced blake2b d' (rngs urs1)" "\<forall>(n, r) \<in> set (rngs urs1). d' n \<le> b n"
     "mset rs = mset (passed blake2b (decrypt_tx_out_result box_decrypt dec view_key) final (\<lambda>_. 0) d' (rngs urs1))"
     "us_next_start_from_user_event_id urs' = next_start_from_user_event_id result"
     "us_highest_processed_block_count urs' = us_highest_processed_block_count urs1 \<or>
      us_highest_processed_block_count urs1 < us_highest_processed_block_count urs' \<and>
      (\<forall>(n, r) \<in> set (rngs urs1). stopped blake2b
         (\<lambda>conn conn'. (view_server_step E)\<^sup>*\<^sup>* (fst (ec_grpc conn)) (fst (ec_grpc conn')))
         (\<lambda>conn. server_records (fst (ec_grpc conn)))
         (\<lambda>conn. ps_highest_processed_block_count (v_poll (fst (ec_grpc conn)))) c c'
         (us_highest_processed_block_count urs') r (d' n))"
    by blast
  then show ?thesis
    by (intro exI [of _ rs] exI [of _ es] exI [of _ urs'] exI [of _ c'] exI [of _ d']) (fastforce simp: stopped_def)
qed

definition poll_urs :: UserRngSet where
  "poll_urs = \<lparr>rngs = [([1], poll_rng)], us_highest_processed_block_count = 0, us_next_start_from_user_event_id = i64_max\<rparr>"

theorem poll_complete_witness:
  "\<exists>rs es urs' c' d. poll poll_hash toy_kex (\<lambda>xs. xs) (\<lambda>xs. xs) (\<lambda>_ ct. Ok (True, ct)) (\<lambda>_. None) (view_request poll_env) 5
       poll_urs poll_conn = Some ((rs :: TxOutRecord list, es :: (_, unit) TxOutPollingError list), urs', c') \<and>
     rngs urs' = advanced poll_hash d [([1], poll_rng)] \<and> d [1] \<le> 1"
proof -
  obtain c1 where "view_request poll_env i64_max 0 [] poll_conn = (Ok poll_resp, c1)" using poll_first_request by blast
  then have req: "view_request poll_env (us_next_start_from_user_event_id poll_urs) (us_highest_processed_block_count poll_urs)
      [] poll_conn = (Ok poll_resp, c1)" by (simp add: poll_urs_def)
  have ing: "ingest_rng_records poll_hash toy_kex (\<lambda>xs. xs) 5 (rng_records poll_resp) [] poll_urs = ([], poll_urs)"
    by (simp add: poll_resp_def response_of_def untrusted_response_def)
  have "str poll_hash poll_rng 1 \<noteq> replicate 16 7"
    using separatedD(4) [OF poll_separated, of "[1]" poll_rng "[1]" poll_rng 1 0] poll_outputs(1) by auto
  with poll_complete [OF poll_conn_ok req ing, of 2000 "\<lambda>_. 1"] poll_separated
  show ?thesis by (fastforce simp: poll_urs_def)
qed

end
