(* ===== verification/Controller_State.thy ===== *)
theory Controller_State
  imports Fog_Prelude
begin

text \<open>
  The state of the ingest controller, \<^verbatim>\<open>src/fog/ingest/server/src/controller_state.rs\<close>, and its
  summary (\<^verbatim>\<open>IngestSummary\<close> of \<^verbatim>\<open>src/fog/api\<close>). Peer URIs are values of an ordered type, and what
  \<^verbatim>\<open>mc_util_uri\<close> says of them is a parameter; a \<^verbatim>\<open>BTreeSet\<close> is the ascending list of its
  elements. Log messages and metrics are left out.
\<close>

section \<open>Sets in order and URIs\<close>

definition btree_set :: "'a::linorder list \<Rightarrow> 'a list" where
  "btree_set xs = remdups (sort xs)"

definition is_btree_set :: "'a::linorder list \<Rightarrow> bool" where
  "is_btree_set xs \<longleftrightarrow> sorted xs \<and> distinct xs"

record 'uri uri_ops =
  responder_id :: "'uri \<Rightarrow> (string, string) result"
  uri_to_string :: "'uri \<Rightarrow> string"
  uri_from_str :: "string \<Rightarrow> (string, 'uri) result"

section \<open>The state\<close>

datatype IngestMode = Idle | Active

record 'uri IngestControllerState =
  cs_mode :: IngestMode
  cs_next_block_index :: u64
  cs_pubkey_expiry_window :: u64
  cs_ingest_invocation_id :: "i64 option"
  cs_peers :: "'uri list"

datatype StateChangeError =
    CannotSetNextBlockIndex IngestMode
  | CannotReducePubkeyExpiry IngestMode u64 u64

definition IngestControllerState_new :: "u64 \<Rightarrow> 'uri list \<Rightarrow> 'uri IngestControllerState" where
  "IngestControllerState_new window config_peers =
     \<lparr>cs_mode = Idle, cs_next_block_index = 0, cs_pubkey_expiry_window = window,
      cs_ingest_invocation_id = None, cs_peers = config_peers\<rparr>"

definition is_idle :: "'uri IngestControllerState \<Rightarrow> bool" where
  "is_idle st \<longleftrightarrow> cs_mode st = Idle"

definition is_active :: "'uri IngestControllerState \<Rightarrow> bool" where
  "is_active st \<longleftrightarrow> cs_mode st = Active"

definition set_active :: "'uri IngestControllerState \<Rightarrow> 'uri IngestControllerState" where
  "set_active st = st\<lparr>cs_mode := Active\<rparr>"

definition set_idle :: "'uri IngestControllerState \<Rightarrow> 'uri IngestControllerState" where
  "set_idle st = st\<lparr>cs_mode := Idle\<rparr>"

text \<open>\<open>None\<close> is the failed assertion. The addition wraps: the release profile has no overflow checks.\<close>

definition increment_next_block_index :: "'uri IngestControllerState \<Rightarrow> 'uri IngestControllerState option" where
  "increment_next_block_index st =
     (if is_idle st then None else Some (st\<lparr>cs_next_block_index := cs_next_block_index st + 1\<rparr>))"

definition set_next_block_index ::
  "u64 \<Rightarrow> 'uri IngestControllerState \<Rightarrow> (StateChangeError, unit) result \<times> 'uri IngestControllerState"
where
  "set_next_block_index new_val st =
     (if cs_mode st = Idle then (Ok (), st\<lparr>cs_next_block_index := new_val\<rparr>)
      else (Err (CannotSetNextBlockIndex (cs_mode st)), st))"

definition set_pubkey_expiry_window ::
  "u64 \<Rightarrow> 'uri IngestControllerState \<Rightarrow> (StateChangeError, unit) result \<times> 'uri IngestControllerState"
where
  "set_pubkey_expiry_window val st =
     (if cs_mode st = Idle then (Ok (), st\<lparr>cs_pubkey_expiry_window := val\<rparr>)
      else let old_val = cs_pubkey_expiry_window st in
        if old_val > val then (Err (CannotReducePubkeyExpiry (cs_mode st) old_val val), st)
        else (Ok (), st\<lparr>cs_pubkey_expiry_window := val\<rparr>))"

definition set_peers :: "'uri list \<Rightarrow> 'uri IngestControllerState \<Rightarrow> 'uri IngestControllerState" where
  "set_peers new_peers st =
     (let added = filter (\<lambda>p. p \<notin> set (cs_peers st)) new_peers;
          removed = filter (\<lambda>p. p \<notin> set new_peers) (cs_peers st)
      in if added \<noteq> [] \<or> removed \<noteq> [] then st\<lparr>cs_peers := new_peers\<rparr> else st)"

section \<open>The summary\<close>

record IngestSummary =
  sm_mode :: IngestMode
  sm_next_block_index :: u64
  sm_pubkey_expiry_window :: u64
  sm_ingest_invocation_id :: i64
  sm_peers :: "string list"
  sm_ingress_pubkey :: bytes
  sm_egress_pubkey :: bytes
  sm_kex_rng_version :: u32

text \<open>A field that is not set has the default of protobuf.\<close>

definition state_summary :: "'uri uri_ops \<Rightarrow> 'uri IngestControllerState \<Rightarrow> IngestSummary" where
  "state_summary U st =
     \<lparr>sm_mode = cs_mode st, sm_next_block_index = cs_next_block_index st,
      sm_pubkey_expiry_window = cs_pubkey_expiry_window st,
      sm_ingest_invocation_id = (case cs_ingest_invocation_id st of Some iid \<Rightarrow> iid | None \<Rightarrow> 0),
      sm_peers = map (uri_to_string U) (cs_peers st),
      sm_ingress_pubkey = [], sm_egress_pubkey = [], sm_kex_rng_version = 0\<rparr>"

definition get_sorted_peers :: "'uri::linorder uri_ops \<Rightarrow> IngestSummary \<Rightarrow> (string, 'uri list) result" where
  "get_sorted_peers U summary =
     (case collect (map (uri_from_str U) (sm_peers summary)) of
        Inl e \<Rightarrow> Err e
      | Inr uris \<Rightarrow> Ok (btree_set uris))"

section \<open>Lemmas\<close>

lemma btree_set_is_btree_set [simp]: "is_btree_set (btree_set xs)"
  by (simp add: is_btree_set_def btree_set_def)

lemma set_btree_set [simp]: "set (btree_set xs) = set xs"
  by (simp add: btree_set_def)

lemma btree_set_id: "is_btree_set xs \<Longrightarrow> btree_set xs = xs"
  by (simp add: is_btree_set_def btree_set_def sorted_sort_id distinct_remdups_id)

lemma btree_set_eqI: "is_btree_set xs \<Longrightarrow> is_btree_set ys \<Longrightarrow> set xs = set ys \<Longrightarrow> xs = ys"
  by (auto simp: is_btree_set_def intro: sorted_distinct_set_unique)

lemma set_peers_sets:
  fixes new_peers :: "'uri::linorder list"
  assumes "is_btree_set new_peers" "is_btree_set (cs_peers st)"
  shows "set_peers new_peers st = st\<lparr>cs_peers := new_peers\<rparr>"
proof (cases "set new_peers = set (cs_peers st)")
  case True
  with btree_set_eqI [OF assms] have "new_peers = cs_peers st" by blast
  then show ?thesis by (simp add: set_peers_def)
next
  case False
  then show ?thesis by (auto simp: set_peers_def filter_empty_conv)
qed

text \<open>What is relied on of a URI: its text parses back to it.\<close>

definition uri_laws :: "'uri uri_ops \<Rightarrow> bool" where
  "uri_laws U \<longleftrightarrow> (\<forall>u. uri_from_str U (uri_to_string U u) = Ok u)"

lemma get_sorted_peers_summary:
  assumes "uri_laws U" "is_btree_set ps" "sm_peers summary = map (uri_to_string U) ps"
  shows "get_sorted_peers U summary = Ok ps"
proof -
  have "collect (map (uri_from_str U) (map (uri_to_string U) ps)) = Ok ps"
    using collect_map_Ok [of ps "uri_from_str U \<circ> uri_to_string U" id] assms(1) by (simp add: uri_laws_def)
  then show ?thesis using assms by (simp add: get_sorted_peers_def btree_set_id)
qed

end
