(* ===== verification/Fog_Run.thy ===== *)
theory Fog_Run
  imports Fog_Prelude
begin

text \<open>
  Handlers of a server that share a state: a handler maps the state to \<open>Returns\<close> with its result
  and the state after it, to \<open>Panics\<close> with the state at the panic, or to \<open>None\<close> when it never
  returns, because it waits for a lock that is never released or retries forever. \<open>wp\<close> is the
  weakest precondition of a handler for a condition on a normal return and one on a panic; its first
  argument says whether a handler that never returns is accepted. The rules of \<open>wp_simps\<close> push it
  through the combinators.
\<close>

section \<open>Handlers\<close>

datatype ('s, 'a) outcome = Panics 's | Returns 'a 's

type_synonym ('s, 'a) run = "'s \<Rightarrow> ('s, 'a) outcome option"

definition ret :: "'a \<Rightarrow> ('s, 'a) run" where
  "ret x s = Some (Returns x s)"

definition panic :: "('s, 'a) run" where
  "panic s = Some (Panics s)"

definition gets :: "('s \<Rightarrow> 'a) \<Rightarrow> ('s, 'a) run" where
  "gets f s = Some (Returns (f s) s)"

definition modify :: "('s \<Rightarrow> 's) \<Rightarrow> ('s, unit) run" where
  "modify f s = Some (Returns () (f s))"

definition bnd :: "('s, 'a) run \<Rightarrow> ('a \<Rightarrow> ('s, 'b) run) \<Rightarrow> ('s, 'b) run" where
  "bnd m f s =
     (case m s of
        None \<Rightarrow> None
      | Some (Panics s') \<Rightarrow> Some (Panics s')
      | Some (Returns x s') \<Rightarrow> f x s')"

text \<open>The operator \<^verbatim>\<open>?\<close>, with the conversion of the error: an error ends the handler.\<close>

definition attempt ::
  "('e \<Rightarrow> 'f) \<Rightarrow> ('s, ('e, 'a) result) run \<Rightarrow> ('a \<Rightarrow> ('s, ('f, 'b) result) run) \<Rightarrow> ('s, ('f, 'b) result) run"
where
  "attempt conv m f = bnd m (\<lambda>r. case r of Inl e \<Rightarrow> ret (Err (conv e)) | Inr x \<Rightarrow> f x)"

text \<open>\<^verbatim>\<open>expect\<close>.\<close>

definition expect :: "('s, ('e, 'a) result) run \<Rightarrow> ('s, 'a) run" where
  "expect m = bnd m (\<lambda>r. case r of Inl e \<Rightarrow> panic | Inr x \<Rightarrow> ret x)"

text \<open>A loop over a list whose body can leave with an error.\<close>

fun for_each :: "('x \<Rightarrow> ('s, ('e, unit) result) run) \<Rightarrow> 'x list \<Rightarrow> ('s, ('e, unit) result) run" where
  "for_each f [] = ret (Ok ())"
| "for_each f (x # xs) = attempt (\<lambda>e. e) (f x) (\<lambda>_. for_each f xs)"

text \<open>A loop that repeats a call until it succeeds.\<close>

partial_function (option) retry :: "('s \<Rightarrow> ('s, ('e, 'a) result) outcome option) \<Rightarrow> 's \<Rightarrow> ('s, 'a) outcome option"
where
  "retry m s =
     (case m s of
        None \<Rightarrow> None
      | Some (Panics s') \<Rightarrow> Some (Panics s')
      | Some (Returns (Inr x) s') \<Rightarrow> Some (Returns x s')
      | Some (Returns (Inl e) s') \<Rightarrow> retry m s')"

declare retry.simps [code]

section \<open>Weakest preconditions\<close>

named_theorems wp_simps

definition wp :: "bool \<Rightarrow> ('s, 'a) run \<Rightarrow> ('a \<Rightarrow> 's \<Rightarrow> bool) \<Rightarrow> ('s \<Rightarrow> bool) \<Rightarrow> 's \<Rightarrow> bool" where
  "wp t m Q R s =
     (case m s of None \<Rightarrow> t | Some (Panics s') \<Rightarrow> R s' | Some (Returns x s') \<Rightarrow> Q x s')"

lemma wp_ret [wp_simps]: "wp t (ret x) Q R = Q x"
  by (simp add: fun_eq_iff wp_def ret_def)

lemma wp_panic [wp_simps]: "wp t panic Q R = R"
  by (simp add: fun_eq_iff wp_def panic_def)

lemma wp_gets [wp_simps]: "wp t (gets f) Q R = (\<lambda>s. Q (f s) s)"
  by (simp add: fun_eq_iff wp_def gets_def)

lemma wp_modify [wp_simps]: "wp t (modify f) Q R = (\<lambda>s. Q () (f s))"
  by (simp add: fun_eq_iff wp_def modify_def)

lemma wp_bnd [wp_simps]: "wp t (bnd m f) Q R = wp t m (\<lambda>x. wp t (f x) Q R) R"
  by (simp add: fun_eq_iff wp_def bnd_def split: option.splits outcome.splits)

lemma wp_attempt [wp_simps]:
  "wp t (attempt conv m f) Q R = wp t m (\<lambda>r. case r of Inl e \<Rightarrow> Q (Err (conv e)) | Inr x \<Rightarrow> wp t (f x) Q R) R"
  unfolding attempt_def wp_bnd
  by (rule arg_cong [where f = "\<lambda>q. wp t m q R"]) (auto simp: wp_ret fun_eq_iff split: sum.splits)

lemma wp_expect [wp_simps]:
  "wp t (expect m) Q R = wp t m (\<lambda>r. case r of Inl e \<Rightarrow> R | Inr x \<Rightarrow> Q x) R"
  unfolding expect_def wp_bnd
  by (rule arg_cong [where f = "\<lambda>q. wp t m q R"]) (auto simp: wp_ret wp_panic fun_eq_iff split: sum.splits)

lemma wp_mono:
  assumes "wp t m Q R s" "\<And>x s'. Q x s' \<Longrightarrow> Q' x s'" "\<And>s'. R s' \<Longrightarrow> R' s'" "t \<Longrightarrow> t'"
  shows "wp t' m Q' R' s"
  using assms by (auto simp: wp_def split: option.splits outcome.splits)

lemma wp_conj: "wp t m Q R s \<Longrightarrow> wp t m Q' R' s \<Longrightarrow> wp t m (\<lambda>x s. Q x s \<and> Q' x s) (\<lambda>s. R s \<and> R' s) s"
  by (auto simp: wp_def split: option.splits outcome.splits)

lemma wp_True [simp]: "wp True m (\<lambda>_ _. True) (\<lambda>_. True) s"
  by (auto simp: wp_def split: option.splits outcome.splits)

text \<open>What a known outcome of a handler satisfies.\<close>

lemma wp_Returns: "wp t m Q R s \<Longrightarrow> m s = Some (Returns x s') \<Longrightarrow> Q x s'"
  by (simp add: wp_def)

lemma wp_total: "wp False m Q R s \<Longrightarrow> \<exists>out. m s = Some out"
  by (auto simp: wp_def split: option.splits)

lemma wp_for_each:
  assumes "\<And>x s. x \<in> set xs \<Longrightarrow> I s \<Longrightarrow> wp t (f x) (\<lambda>_. I) R s" "I s" "\<And>x s. I s \<Longrightarrow> Q x s"
  shows "wp t (for_each f xs) Q R s"
  using assms(1,2)
proof (induction xs arbitrary: s)
  case Nil
  then show ?case using assms(3) by (simp add: wp_simps)
next
  case (Cons x xs)
  have "wp t (f x) (\<lambda>r. case r of Inl e \<Rightarrow> Q (Err e) | Inr _ \<Rightarrow> wp t (for_each f xs) Q R) R s"
    by (rule wp_mono [OF Cons.prems(1)]) (use Cons assms(3) in \<open>auto split: sum.splits\<close>)
  then show ?case by (simp add: wp_simps)
qed

text \<open>A loop keeps what each failed attempt keeps, and it ends when the attempts run down a measure.\<close>

lemma wp_retry_unfold:
  "wp t (retry m) Q R s = wp t m (\<lambda>r s'. case r of Inl e \<Rightarrow> wp t (retry m) Q R s' | Inr x \<Rightarrow> Q x s') R s"
proof (cases "m s")
  case None
  then show ?thesis by (simp add: wp_def retry.simps [of m s])
next
  case (Some out)
  show ?thesis
  proof (cases out)
    case (Returns r s')
    then show ?thesis using Some by (cases r) (simp_all add: wp_def retry.simps [of m s])
  qed (use Some in \<open>simp add: wp_def retry.simps [of m s]\<close>)
qed

lemma wp_retry:
  assumes step: "\<And>s. I s \<Longrightarrow> wp True m (\<lambda>r s'. case r of Inl e \<Rightarrow> I s' | Inr x \<Rightarrow> Q x s') R s" and "I s"
  shows "wp True (retry m) Q R s"
proof -
  have "m' = m \<longrightarrow> I s \<longrightarrow> (case out of Panics s' \<Rightarrow> R s' | Returns x s' \<Rightarrow> Q x s')"
    if "retry m' s = Some out" for m' s out
  proof (rule retry.raw_induct [OF _ that])
    fix rec m' s out
    assume ih: "\<And>m' s y. rec m' s = Some y \<Longrightarrow>
        m' = m \<longrightarrow> I s \<longrightarrow> (case y of Panics s' \<Rightarrow> R s' | Returns x s' \<Rightarrow> Q x s')"
      and body: "(case m' s of None \<Rightarrow> None | Some (Panics s') \<Rightarrow> Some (Panics s')
        | Some (Returns (Inr x) s') \<Rightarrow> Some (Returns x s') | Some (Returns (Inl e) s') \<Rightarrow> rec m' s') = Some out"
    show "m' = m \<longrightarrow> I s \<longrightarrow> (case out of Panics s' \<Rightarrow> R s' | Returns x s' \<Rightarrow> Q x s')"
    proof (intro impI)
      assume "m' = m" "I s"
      with step [of s] body ih [of m] show "case out of Panics s' \<Rightarrow> R s' | Returns x s' \<Rightarrow> Q x s'"
        by (fastforce simp: wp_def split: option.splits outcome.splits sum.splits)
    qed
  qed
  then show ?thesis using \<open>I s\<close> by (auto simp: wp_def split: option.splits)
qed

lemma wp_retry_total:
  assumes "\<And>s. I s \<Longrightarrow> wp t m (\<lambda>r s'. case r of Inl e \<Rightarrow> I s' \<and> \<mu> s' < (\<mu> s :: nat) | Inr x \<Rightarrow> Q x s') R s" "I s"
  shows "wp t (retry m) Q R s"
  using assms(2)
proof (induction "\<mu> s" arbitrary: s rule: less_induct)
  case less
  have "wp t m (\<lambda>r s'. case r of Inl e \<Rightarrow> I s' \<and> \<mu> s' < \<mu> s | Inr x \<Rightarrow> Q x s') R s"
    by (rule assms(1) [OF less.prems])
  then have "wp t m (\<lambda>r s'. case r of Inl e \<Rightarrow> wp t (retry m) Q R s' | Inr x \<Rightarrow> Q x s') R s"
    by (rule wp_mono) (use less.hyps in \<open>auto split: sum.splits\<close>)
  then show ?case by (subst wp_retry_unfold)
qed

section \<open>Conditions that a handler keeps\<close>

text \<open>\<open>keeps P m\<close>: when \<open>m\<close> returns, \<open>P\<close> still holds. The rules follow the structure of a handler.\<close>

named_theorems keeps_intros

definition keeps :: "('s \<Rightarrow> bool) \<Rightarrow> ('s, 'x) run \<Rightarrow> bool" where
  "keeps P m \<longleftrightarrow> (\<forall>s x s'. P s \<longrightarrow> m s = Some (Returns x s') \<longrightarrow> P s')"

lemma keepsD: "keeps P m \<Longrightarrow> P s \<Longrightarrow> m s = Some (Returns x s') \<Longrightarrow> P s'"
  unfolding keeps_def by blast

lemma keeps_wp: "keeps P m \<Longrightarrow> P s \<Longrightarrow> wp True m (\<lambda>_. P) (\<lambda>_. True) s"
  by (auto simp: keeps_def wp_def split: option.splits outcome.splits)

lemma keepsI: "(\<And>s. P s \<Longrightarrow> wp True m (\<lambda>_. P) (\<lambda>_. True) s) \<Longrightarrow> keeps P m"
  unfolding keeps_def by (meson wp_Returns)

lemma keeps_ret [keeps_intros]: "keeps P (ret x)"
  by (simp add: keeps_def ret_def)

lemma keeps_panic [keeps_intros]: "keeps P panic"
  by (simp add: keeps_def panic_def)

lemma keeps_gets [keeps_intros]: "keeps P (gets f)"
  by (simp add: keeps_def gets_def)

lemma keeps_modify: "(\<And>s. P s \<Longrightarrow> P (f s)) \<Longrightarrow> keeps P (modify f)"
  by (simp add: keeps_def modify_def)

lemma keeps_bnd [keeps_intros]:
  assumes "keeps P m" "\<And>x. keeps P (f x)"
  shows "keeps P (bnd m f)"
proof (rule keepsI)
  fix s assume "P s"
  from keeps_wp [OF assms(1) this] show "wp True (bnd m f) (\<lambda>_. P) (\<lambda>_. True) s"
    unfolding wp_bnd by (rule wp_mono) (simp_all add: keeps_wp [OF assms(2)])
qed

lemma keeps_attempt [keeps_intros]: "keeps P m \<Longrightarrow> (\<And>x. keeps P (f x)) \<Longrightarrow> keeps P (attempt conv m f)"
  unfolding attempt_def by (intro keeps_bnd) (auto split: sum.splits intro: keeps_ret)

lemma keeps_expect [keeps_intros]: "keeps P m \<Longrightarrow> keeps P (expect m)"
  unfolding expect_def by (intro keeps_bnd) (auto split: sum.splits intro: keeps_ret keeps_panic)

lemma keeps_for_each [keeps_intros]: "(\<And>x. x \<in> set xs \<Longrightarrow> keeps P (f x)) \<Longrightarrow> keeps P (for_each f xs)"
  by (induction xs) (auto intro: keeps_ret keeps_attempt)

lemma keeps_retry [keeps_intros]:
  assumes "keeps P m"
  shows "keeps P (retry m)"
proof (rule keepsI)
  fix s assume "P s"
  then show "wp True (retry m) (\<lambda>_. P) (\<lambda>_. True) s"
  proof (rule wp_retry [where I = P, rotated])
    fix s1 assume "P s1"
    from keeps_wp [OF assms this] show "wp True m (\<lambda>r s'. case r of Inl e \<Rightarrow> P s' | Inr x \<Rightarrow> P s') (\<lambda>_. True) s1"
      by (rule wp_mono) (auto split: sum.splits)
  qed
qed

lemma keeps_if [keeps_intros]: "keeps P m \<Longrightarrow> keeps P m' \<Longrightarrow> keeps P (if b then m else m')"
  by simp

lemma keeps_option [keeps_intros]: "(\<And>x. keeps P (f x)) \<Longrightarrow> keeps P m \<Longrightarrow> keeps P (case opt of None \<Rightarrow> m | Some x \<Rightarrow> f x)"
  by (simp split: option.splits)

lemma keeps_sum [keeps_intros]: "(\<And>x. keeps P (f x)) \<Longrightarrow> (\<And>x. keeps P (g x)) \<Longrightarrow> keeps P (case r of Inl x \<Rightarrow> f x | Inr x \<Rightarrow> g x)"
  by (simp split: sum.splits)

lemma keeps_prod [keeps_intros]: "(\<And>x y. keeps P (f x y)) \<Longrightarrow> keeps P (case p of (x, y) \<Rightarrow> f x y)"
  by (simp split: prod.splits)

end
