(* ===== verification/Ingest_Enclave.thy ===== *)
theory Ingest_Enclave
  imports Oblivious_Map Kex_Rng
begin

text \<open>
  The ingest enclave, \<^verbatim>\<open>src/fog/ingest/enclave/impl\<close>: the table of per-user counters in an
  oblivious map (\<^verbatim>\<open>rng_store.rs\<close>), and the calls that process transactions and manage keys
  (\<^verbatim>\<open>lib.rs\<close>).

  The arguments \<open>M\<close> (oblivious map), \<open>K\<close> (key exchange), \<open>C\<close> (randomness, fog hints, crypto
  box, sealing) and \<open>P\<close> (peer sessions) stand for crates outside this repository. The random
  source \<^verbatim>\<open>McRng\<close> is the state \<open>'g\<close>. A panic is \<open>None\<close> or \<open>Panicked\<close>.
\<close>

section \<open>The counter table (\<^verbatim>\<open>rng_store.rs\<close>)\<close>

record 'm RngStore =
  rs_omap :: "'m option"
  rs_desired_capacity :: u64

definition RngStore_new :: "'m omap_ops \<Rightarrow> u64 \<Rightarrow> 'm RngStore" where
  "RngStore_new M desired_capacity =
     \<lparr>rs_omap = Some (om_create M desired_capacity), rs_desired_capacity = desired_capacity\<rparr>"

definition RngStore_capacity :: "'m omap_ops \<Rightarrow> 'm RngStore \<Rightarrow> u64" where
  "RngStore_capacity M self = (case rs_omap self of None \<Rightarrow> 0 | Some omap \<Rightarrow> om_capacity M omap)"

definition RngStore_clear :: "'m omap_ops \<Rightarrow> 'm RngStore \<Rightarrow> 'm RngStore" where
  "RngStore_clear M self =
     (let dropped = self\<lparr>rs_omap := None\<rparr>
      in dropped\<lparr>rs_omap := Some (om_create M (rs_desired_capacity dropped))\<rparr>)"

definition kex_rng_algo_version :: "KexRngCore \<Rightarrow> u32" where
  "kex_rng_algo_version core = VERSION_ID core"

text \<open>The key under which a shared secret is stored: its first byte is inverted.\<close>

fun flip_first :: "bytes \<Rightarrow> bytes" where
  "flip_first [] = []"
| "flip_first (b # bs) = NOT b # bs"

text \<open>The callback that reads the counter, computes the output and stores the next counter.\<close>

definition bump_counter :: "KexRngCore \<Rightarrow> bytes \<Rightarrow> bytes \<Rightarrow> bytes \<times> bytes" where
  "bump_counter core shared_secret counter_buf =
     (let counter_val = from_le_bytes counter_buf
      in (core_prf core shared_secret counter_val, to_le_bytes (counter_val + 1)))"

definition next_rng_output ::
  "'m omap_ops \<Rightarrow> KexRngCore \<Rightarrow> bytes \<Rightarrow> 'm RngStore \<Rightarrow> ((bool \<times> bytes) \<times> 'm RngStore) option"
where
  "next_rng_output M core shared_secret self =
     (case rs_omap self of
        None \<Rightarrow> None
      | Some omap \<Rightarrow>
          (case om_access_and_insert M (flip_first shared_secret) (replicate 8 0)
                  (\<lambda>_. bump_counter core shared_secret) omap of
             ((result_code, out), omap') \<Rightarrow>
               Some ((result_code = OMAP_OVERFLOW, out), self\<lparr>rs_omap := Some omap'\<rparr>)))"

section \<open>The enclave (\<^verbatim>\<open>lib.rs\<close>)\<close>

definition MAX_CHUNK_RETRIES :: nat where
  "MAX_CHUNK_RETRIES = 10"

text \<open>
  \<open>hint_decrypt\<close> is \<^verbatim>\<open>FogHint::ct_decrypt\<close> on the bytes of the view public key in the hint that is
  passed by reference; \<open>box_encrypt\<close> is the encryption of \<^verbatim>\<open>VersionedCryptoBox\<close>.
\<close>

record ('g, 'priv, 'pub) enclave_crypto =
  random_private :: "'g \<Rightarrow> 'priv \<times> 'g"
  random_public :: "'g \<Rightarrow> 'pub \<times> 'g"
  hint_decrypt :: "'priv \<Rightarrow> bytes \<Rightarrow> bytes \<Rightarrow> bool \<times> bytes"
  box_encrypt :: "'g \<Rightarrow> 'pub \<Rightarrow> bytes \<Rightarrow> bytes option \<times> 'g"
  private_bytes :: "'priv \<Rightarrow> bytes"
  private_try_from :: "bytes \<Rightarrow> (KeyError, 'priv) result"
  seal_raw :: "bytes \<Rightarrow> bytes option"
  unseal_raw :: "bytes \<Rightarrow> bytes option"

record ('a, 'id, 'peer, 'pmsg, 'ae) peer_ops =
  peer_state_init :: "'id \<Rightarrow> 'a \<Rightarrow> ('ae, unit) result \<times> 'a"
  is_peer_known :: "'peer \<Rightarrow> 'a \<Rightarrow> ('ae, bool) result"
  peer_encrypt :: "'peer \<Rightarrow> bytes \<Rightarrow> bytes \<Rightarrow> 'a \<Rightarrow> ('ae, 'pmsg) result \<times> 'a"
  peer_decrypt :: "'pmsg \<Rightarrow> 'a \<Rightarrow> ('ae, bytes) result \<times> 'a"

record TxsForIngest =
  chunk_block_index :: u64
  global_txo_index :: u64
  redacted_txs :: "TxOut list"
  chunk_timestamp :: u64

record ('m, 'g, 'priv, 'a) SgxIngestEnclave =
  ingress_key :: 'priv
  egress_key :: 'priv
  rng_store :: "'m RngStore option"
  mc_rng :: 'g
  ie_ake :: 'a

datatype 'ae ingest_enclave_error =
    IE_Attest 'ae
  | IE_AttestNotFound
  | IE_Key KeyError
  | IE_Sealing
  | IE_ChunkTooBig nat nat u64

datatype ingest_outcome = Rows "ETxOutRecord list" | Overflowed | Panicked

definition SgxIngestEnclave_new ::
  "('g, 'priv, 'pub) enclave_crypto \<Rightarrow> 'a \<Rightarrow> 'g \<Rightarrow> ('m, 'g, 'priv, 'a) SgxIngestEnclave"
where
  "SgxIngestEnclave_new C a g =
     (let (ingress, g1) = random_private C g;
          (egress, g2) = random_private C g1
      in \<lparr>ingress_key = ingress, egress_key = egress, rng_store = None, mc_rng = g2, ie_ake = a\<rparr>)"

definition tx_out_record :: "(bytes \<Rightarrow> u32) \<Rightarrow> TxsForIngest \<Rightarrow> nat \<Rightarrow> TxOut \<Rightarrow> TxOutRecord" where
  "tx_out_record crc32 chunk index txo =
     TxOutRecord_new (FogTxOut_from crc32 txo)
       \<lparr>global_index = global_txo_index chunk + of_nat index, fm_block_index = chunk_block_index chunk,
        fm_timestamp = chunk_timestamp chunk\<rparr>"

text \<open>
  The loop of \<^verbatim>\<open>attempt_ingest_txs\<close> over the remaining transactions, the first of which has the
  given index in the chunk. \<open>enc\<close> is the serialisation of a \<^verbatim>\<open>TxOutRecord\<close>.
\<close>

fun attempt_ingest_from ::
  "('g, 'priv, 'pub) enclave_crypto \<Rightarrow> ('rnd, 'priv, 'pub) Kex \<Rightarrow> 'm omap_ops \<Rightarrow> KexRngCore \<Rightarrow> (bytes \<Rightarrow> u32)
     \<Rightarrow> (TxOutRecord \<Rightarrow> bytes) \<Rightarrow> TxsForIngest \<Rightarrow> 'priv \<Rightarrow> 'priv \<Rightarrow> nat \<Rightarrow> TxOut list \<Rightarrow> 'g \<Rightarrow> 'm RngStore
     \<Rightarrow> ingest_outcome \<times> 'g \<times> 'm RngStore"
where
  "attempt_ingest_from C K M core crc32 enc chunk ingress egress index [] g store = (Rows [], g, store)"
| "attempt_ingest_from C K M core crc32 enc chunk ingress egress index (txo # txs) g store =
     (let (random_user, g1) = random_public C g;
          user_id = snd (hint_decrypt C ingress (e_fog_hint txo) (Public_bytes K random_user))
      in case Public_try_from K user_id of
           Inl _ \<Rightarrow> attempt_ingest_from C K M core crc32 enc chunk ingress egress (Suc index) txs g1 store
         | Inr view_pubkey \<Rightarrow>
             (case next_rng_output M core (key_exchange K egress view_pubkey) store of
                None \<Rightarrow> (Panicked, g1, store)
              | Some ((overflow, rng_output), store1) \<Rightarrow>
                  if overflow then (Overflowed, g1, store1)
                  else (case box_encrypt C g1 view_pubkey (enc (tx_out_record crc32 chunk index txo)) of
                          (None, g2) \<Rightarrow> (Panicked, g2, store1)
                        | (Some p, g2) \<Rightarrow>
                            (case attempt_ingest_from C K M core crc32 enc chunk ingress egress (Suc index) txs g2 store1 of
                               (Rows rows, g3, store2) \<Rightarrow>
                                 (Rows (\<lparr>search_key = rng_output, payload = p\<rparr> # rows), g3, store2)
                             | (other, g3, store2) \<Rightarrow> (other, g3, store2)))))"

definition attempt_ingest_txs ::
  "('g, 'priv, 'pub) enclave_crypto \<Rightarrow> ('rnd, 'priv, 'pub) Kex \<Rightarrow> 'm omap_ops \<Rightarrow> KexRngCore \<Rightarrow> (bytes \<Rightarrow> u32)
     \<Rightarrow> (TxOutRecord \<Rightarrow> bytes) \<Rightarrow> TxsForIngest \<Rightarrow> 'priv \<Rightarrow> 'priv \<Rightarrow> 'g \<Rightarrow> 'm RngStore
     \<Rightarrow> ingest_outcome \<times> 'g \<times> 'm RngStore"
where
  "attempt_ingest_txs C K M core crc32 enc chunk ingress egress =
     attempt_ingest_from C K M core crc32 enc chunk ingress egress 0 (redacted_txs chunk)"

definition egress_pubkey :: "('rnd, 'priv, 'pub) Kex \<Rightarrow> KexRngCore \<Rightarrow> 'priv \<Rightarrow> KexRngPubkey" where
  "egress_pubkey K core egress =
     \<lparr>kp_public_key = Public_bytes K (Public_from K egress), kp_version = kex_rng_algo_version core\<rparr>"

text \<open>The retry loop of \<^verbatim>\<open>ingest_txs\<close>; the first argument is \<^verbatim>\<open>chunk_retries\<close>.\<close>

fun ingest_loop ::
  "nat \<Rightarrow> ('g, 'priv, 'pub) enclave_crypto \<Rightarrow> ('rnd, 'priv, 'pub) Kex \<Rightarrow> 'm omap_ops \<Rightarrow> KexRngCore \<Rightarrow> (bytes \<Rightarrow> u32)
     \<Rightarrow> (TxOutRecord \<Rightarrow> bytes) \<Rightarrow> TxsForIngest \<Rightarrow> 'priv \<Rightarrow> KexRngPubkey option \<Rightarrow> 'priv \<Rightarrow> 'g \<Rightarrow> 'm RngStore
     \<Rightarrow> ('ae ingest_enclave_error, ETxOutRecord list \<times> KexRngPubkey option) result option \<times> 'priv \<times> 'g \<times> 'm RngStore"
where
  "ingest_loop retries C K M core crc32 enc chunk ingress new_pubkey egress g store =
     (case attempt_ingest_txs C K M core crc32 enc chunk ingress egress g store of
        (Panicked, g1, store1) \<Rightarrow> (None, egress, g1, store1)
      | (Rows rows, g1, store1) \<Rightarrow> (Some (Ok (rows, new_pubkey)), egress, g1, store1)
      | (Overflowed, g1, store1) \<Rightarrow>
          (case retries of
             0 \<Rightarrow> (Some (Err (IE_ChunkTooBig (length (redacted_txs chunk)) MAX_CHUNK_RETRIES
                            (RngStore_capacity M store1))), egress, g1, store1)
           | Suc retries' \<Rightarrow>
               (let (egress', g2) = random_private C g1
                in ingest_loop retries' C K M core crc32 enc chunk ingress (Some (egress_pubkey K core egress')) egress'
                     g2 (RngStore_clear M store1))))"

definition ingest_txs ::
  "('g, 'priv, 'pub) enclave_crypto \<Rightarrow> ('rnd, 'priv, 'pub) Kex \<Rightarrow> 'm omap_ops \<Rightarrow> KexRngCore \<Rightarrow> (bytes \<Rightarrow> u32)
     \<Rightarrow> (TxOutRecord \<Rightarrow> bytes) \<Rightarrow> TxsForIngest \<Rightarrow> ('m, 'g, 'priv, 'a) SgxIngestEnclave
     \<Rightarrow> ('ae ingest_enclave_error, ETxOutRecord list \<times> KexRngPubkey option) result option
        \<times> ('m, 'g, 'priv, 'a) SgxIngestEnclave"
where
  "ingest_txs C K M core crc32 enc chunk self =
     (case rng_store self of
        None \<Rightarrow> (None, self)
      | Some store \<Rightarrow>
          (case ingest_loop MAX_CHUNK_RETRIES C K M core crc32 enc chunk (ingress_key self) None (egress_key self)
                  (mc_rng self) store of
             (r, egress', g', store') \<Rightarrow>
               (r, self\<lparr>egress_key := egress', mc_rng := g', rng_store := Some store'\<rparr>)))"

definition enclave_init ::
  "('g, 'priv, 'pub) enclave_crypto \<Rightarrow> 'm omap_ops \<Rightarrow> ('a, 'id, 'peer, 'pmsg, 'ae) peer_ops \<Rightarrow> 'id \<Rightarrow> bytes option \<Rightarrow> u64
     \<Rightarrow> ('m, 'g, 'priv, 'a) SgxIngestEnclave \<Rightarrow> ('ae ingest_enclave_error, unit) result \<times> ('m, 'g, 'priv, 'a) SgxIngestEnclave"
where
  "enclave_init C M P responder_id sealed_key desired_capacity self =
     (case peer_state_init P responder_id (ie_ake self) of
        (Inl e, a) \<Rightarrow> (Err (IE_Attest e), self\<lparr>ie_ake := a\<rparr>)
      | (Inr _, a) \<Rightarrow>
          (let self1 = self\<lparr>ie_ake := a\<rparr>;
               self2 = (\<lambda>s. s\<lparr>rng_store := Some (RngStore_new M desired_capacity)\<rparr>)
           in case sealed_key of
                None \<Rightarrow> (Ok (), self2 self1)
              | Some sealed \<Rightarrow>
                  (case unseal_raw C sealed of
                     None \<Rightarrow> (Err IE_Sealing, self1)
                   | Some raw \<Rightarrow>
                       (case private_try_from C raw of
                          Inl e \<Rightarrow> (Err (IE_Key e), self1)
                        | Inr new_key \<Rightarrow> (Ok (), self2 (self1\<lparr>ingress_key := new_key\<rparr>))))))"

definition get_ingress_pubkey :: "('rnd, 'priv, 'pub) Kex \<Rightarrow> ('m, 'g, 'priv, 'a) SgxIngestEnclave \<Rightarrow> 'pub" where
  "get_ingress_pubkey K self = Public_from K (ingress_key self)"

definition seal_private_key :: "('g, 'priv, 'pub) enclave_crypto \<Rightarrow> 'priv \<Rightarrow> ('ae ingest_enclave_error, bytes) result" where
  "seal_private_key C src =
     (case seal_raw C (private_bytes C src) of None \<Rightarrow> Err IE_Sealing | Some s \<Rightarrow> Ok s)"

definition get_sealed_ingress_private_key ::
  "('g, 'priv, 'pub) enclave_crypto \<Rightarrow> ('rnd, 'priv, 'pub) Kex \<Rightarrow> ('m, 'g, 'priv, 'a) SgxIngestEnclave
     \<Rightarrow> ('ae ingest_enclave_error, bytes \<times> bytes) result"
where
  "get_sealed_ingress_private_key C K self =
     (case seal_private_key C (ingress_key self) of
        Inl e \<Rightarrow> Err e
      | Inr sealed \<Rightarrow> Ok (sealed, Public_bytes K (Public_from K (ingress_key self))))"

definition get_ingress_private_key ::
  "('g, 'priv, 'pub) enclave_crypto \<Rightarrow> ('rnd, 'priv, 'pub) Kex \<Rightarrow> ('a, 'id, 'peer, 'pmsg, 'ae) peer_ops \<Rightarrow> 'peer
     \<Rightarrow> ('m, 'g, 'priv, 'a) SgxIngestEnclave
     \<Rightarrow> ('ae ingest_enclave_error, 'pmsg \<times> bytes) result \<times> ('m, 'g, 'priv, 'a) SgxIngestEnclave"
where
  "get_ingress_private_key C K P peer self =
     (case is_peer_known P peer (ie_ake self) of
        Inl e \<Rightarrow> (Err (IE_Attest e), self)
      | Inr known \<Rightarrow>
          if \<not> known then (Err IE_AttestNotFound, self)
          else (case peer_encrypt P peer [] (private_bytes C (ingress_key self)) (ie_ake self) of
                  (Inl e, a) \<Rightarrow> (Err (IE_Attest e), self\<lparr>ie_ake := a\<rparr>)
                | (Inr msg, a) \<Rightarrow>
                    (Ok (msg, Public_bytes K (Public_from K (ingress_key self))), self\<lparr>ie_ake := a\<rparr>)))"

definition set_ingress_private_key ::
  "('g, 'priv, 'pub) enclave_crypto \<Rightarrow> ('rnd, 'priv, 'pub) Kex \<Rightarrow> ('a, 'id, 'peer, 'pmsg, 'ae) peer_ops \<Rightarrow> 'pmsg
     \<Rightarrow> ('m, 'g, 'priv, 'a) SgxIngestEnclave
     \<Rightarrow> ('ae ingest_enclave_error, 'pub \<times> bytes) result \<times> ('m, 'g, 'priv, 'a) SgxIngestEnclave"
where
  "set_ingress_private_key C K P msg self =
     (case peer_decrypt P msg (ie_ake self) of
        (Inl e, a) \<Rightarrow> (Err (IE_Attest e), self\<lparr>ie_ake := a\<rparr>)
      | (Inr raw, a) \<Rightarrow>
          (case private_try_from C raw of
             Inl e \<Rightarrow> (Err (IE_Key e), self\<lparr>ie_ake := a\<rparr>)
           | Inr new_priv_key \<Rightarrow>
               (case seal_private_key C new_priv_key of
                  Inl e \<Rightarrow> (Err e, self\<lparr>ie_ake := a\<rparr>)
                | Inr sealed \<Rightarrow>
                    (Ok (Public_from K new_priv_key, sealed), self\<lparr>ie_ake := a, ingress_key := new_priv_key\<rparr>))))"

definition get_kex_rng_pubkey ::
  "('rnd, 'priv, 'pub) Kex \<Rightarrow> KexRngCore \<Rightarrow> ('m, 'g, 'priv, 'a) SgxIngestEnclave \<Rightarrow> KexRngPubkey option"
where
  "get_kex_rng_pubkey K core self =
     (case rng_store self of None \<Rightarrow> None | Some _ \<Rightarrow> Some (egress_pubkey K core (egress_key self)))"

definition new_keys ::
  "('g, 'priv, 'pub) enclave_crypto \<Rightarrow> 'm omap_ops \<Rightarrow> ('m, 'g, 'priv, 'a) SgxIngestEnclave
     \<Rightarrow> unit option \<times> ('m, 'g, 'priv, 'a) SgxIngestEnclave"
where
  "new_keys C M self =
     (case rng_store self of
        None \<Rightarrow> (None, self)
      | Some store \<Rightarrow>
          (let (ingress, g1) = random_private C (mc_rng self);
               (egress, g2) = random_private C g1
           in (Some (), self\<lparr>ingress_key := ingress, egress_key := egress, mc_rng := g2,
                             rng_store := Some (RngStore_clear M store)\<rparr>)))"

definition new_egress_key ::
  "('g, 'priv, 'pub) enclave_crypto \<Rightarrow> 'm omap_ops \<Rightarrow> ('m, 'g, 'priv, 'a) SgxIngestEnclave
     \<Rightarrow> unit option \<times> ('m, 'g, 'priv, 'a) SgxIngestEnclave"
where
  "new_egress_key C M self =
     (case rng_store self of
        None \<Rightarrow> (None, self)
      | Some store \<Rightarrow>
          (let (egress, g1) = random_private C (mc_rng self)
           in (Some (), self\<lparr>egress_key := egress, mc_rng := g1, rng_store := Some (RngStore_clear M store)\<rparr>)))"

declare ingest_loop.simps [simp del]

section \<open>Counters\<close>

text \<open>
  What is relied on of the key exchange in the curve group: secrets have 32 bytes, and none is the
  encoding that the inversion of the first byte turns into the unsupported key of zeroes.
\<close>

definition secret_laws :: "('rnd, 'priv, 'pub) Kex \<Rightarrow> bool" where
  "secret_laws K \<longleftrightarrow>
     (\<forall>a p. length (key_exchange K a p) = 32 \<and> \<not> zero_key (flip_first (key_exchange K a p)))"

definition rng_counter :: "('m \<Rightarrow> bytes \<rightharpoonup> bytes) \<Rightarrow> 'm RngStore \<Rightarrow> bytes \<Rightarrow> u64" where
  "rng_counter content store s =
     (case rs_omap store of
        None \<Rightarrow> 0
      | Some m \<Rightarrow> (case content m (flip_first s) of None \<Rightarrow> 0 | Some buf \<Rightarrow> from_le_bytes buf))"

lemma length_flip_first [simp]: "length (flip_first s) = length s"
  by (cases s) simp_all

lemma flip_first_inject [simp]: "flip_first s = flip_first t \<longleftrightarrow> s = t"
  by (cases s; cases t) simp_all

lemma fresh_counters:
  assumes "omap_laws ks vs M content"
  shows "rng_counter content (RngStore_new M n) s = 0" "rs_omap (RngStore_new M n) \<noteq> None"
    and "rng_counter content (RngStore_clear M store) s = 0" "rs_omap (RngStore_clear M store) \<noteq> None"
  using assms
  by (simp_all add: rng_counter_def RngStore_new_def RngStore_clear_def omap_simps Let_def)

lemma next_rng_output_spec:
  assumes laws: "omap_laws 32 8 M content" and s: "length s = 32" "\<not> zero_key (flip_first s)"
    and store: "rs_omap store \<noteq> None"
  obtains overflow out store' where "next_rng_output M core s store = Some ((overflow, out), store')"
    "rs_omap store' \<noteq> None"
    "\<not> overflow \<Longrightarrow> out = core_prf core s (rng_counter content store s) \<and>
       rng_counter content store' = (rng_counter content store)(s := rng_counter content store s + 1)"
proof -
  obtain m where m: "rs_omap store = Some m" using store by blast
  obtain c out m' where acc: "om_access_and_insert M (flip_first s) (replicate 8 0)
      (\<lambda>_. bump_counter core s) m = ((c, out), m')" by (metis surj_pair)
  have nxt: "next_rng_output M core s store = Some ((c = OMAP_OVERFLOW, out), store\<lparr>rs_omap := Some m'\<rparr>)"
    by (simp add: next_rng_output_def m acc)
  have "out = core_prf core s (rng_counter content store s) \<and>
       rng_counter content (store\<lparr>rs_omap := Some m'\<rparr>) =
         (rng_counter content store)(s := rng_counter content store s + 1)" if "c \<noteq> OMAP_OVERFLOW"
  proof (rule omap_access [OF laws _ _ s(2) acc])
    fix v
    assume "(out, v) = bump_counter core s (case content m (flip_first s) of None \<Rightarrow> replicate 8 0 | Some w \<Rightarrow> w)"
      "content m' = (content m)(flip_first s \<mapsto> v)"
    then show ?thesis
      by (auto simp: bump_counter_def Let_def rng_counter_def m fun_eq_iff split: option.splits)
  qed (use s that in auto)
  with nxt that show thesis by simp
qed

section \<open>What an attempt produces\<close>

text \<open>
  A delivery \<open>(p, t)\<close> is a record \<open>t\<close> for the recipient with view public key \<open>p\<close>. \<open>rows_ok\<close>
  says what the rows of a list of deliveries are: the search keys are drawn from the counters
  \<open>ctr\<close>, each draw of a recipient incrementing its counter, and the payload is the record
  encrypted for the recipient.
\<close>

fun rows_ok ::
  "('g, 'priv, 'pub) enclave_crypto \<Rightarrow> ('rnd, 'priv, 'pub) Kex \<Rightarrow> KexRngCore \<Rightarrow> (TxOutRecord \<Rightarrow> bytes)
     \<Rightarrow> 'priv \<Rightarrow> (bytes \<Rightarrow> u64) \<Rightarrow> ('pub \<times> TxOutRecord) list \<Rightarrow> ETxOutRecord list \<Rightarrow> bool"
where
  "rows_ok C K core enc egress ctr [] rows \<longleftrightarrow> rows = []"
| "rows_ok C K core enc egress ctr ((p, t) # ds) rows \<longleftrightarrow>
     (\<exists>r rows'. rows = r # rows' \<and>
        search_key r = core_prf core (key_exchange K egress p) (ctr (key_exchange K egress p)) \<and>
        (\<exists>g. fst (box_encrypt C g p (enc t)) = Some (payload r)) \<and>
        rows_ok C K core enc egress
          (ctr(key_exchange K egress p := ctr (key_exchange K egress p) + 1)) ds rows')"

fun drawn :: "('rnd, 'priv, 'pub) Kex \<Rightarrow> 'priv \<Rightarrow> ('pub \<times> TxOutRecord) list \<Rightarrow> (bytes \<Rightarrow> u64) \<Rightarrow> bytes \<Rightarrow> u64" where
  "drawn K egress [] ctr = ctr"
| "drawn K egress ((p, t) # ds) ctr =
     drawn K egress ds (ctr(key_exchange K egress p := ctr (key_exchange K egress p) + 1))"

text \<open>An entry \<open>(j, p)\<close> is the delivery of transaction \<open>j\<close> of a chunk to \<open>p\<close>.\<close>

definition deliveries :: "(bytes \<Rightarrow> u32) \<Rightarrow> TxsForIngest \<Rightarrow> (nat \<times> 'pub) list \<Rightarrow> ('pub \<times> TxOutRecord) list" where
  "deliveries crc32 chunk entries = map (\<lambda>(j, p). (p, tx_out_record crc32 chunk j (redacted_txs chunk ! j))) entries"

text \<open>The view public key a hint gives, when the random default is \<open>u\<close>.\<close>

definition hint_recipient ::
  "('g, 'priv, 'pub) enclave_crypto \<Rightarrow> ('rnd, 'priv, 'pub) Kex \<Rightarrow> 'priv \<Rightarrow> TxOut \<Rightarrow> 'pub \<Rightarrow> (KeyError, 'pub) result"
where
  "hint_recipient C K ingress txo u =
     Public_try_from K (snd (hint_decrypt C ingress (e_fog_hint txo) (Public_bytes K u)))"

text \<open>
  The entries of a chunk from a position on: they are in order, every entry is for the recipient of
  its hint, and every transaction whose hint gives a key has its entry.
\<close>

definition entries_ok ::
  "('g, 'priv, 'pub) enclave_crypto \<Rightarrow> ('rnd, 'priv, 'pub) Kex \<Rightarrow> 'priv \<Rightarrow> TxOut list \<Rightarrow> nat \<Rightarrow> (nat \<times> 'pub) list \<Rightarrow> bool"
where
  "entries_ok C K ingress txs start entries \<longleftrightarrow>
     sorted_wrt (<) (map fst entries) \<and>
     (\<forall>(j, p) \<in> set entries. start \<le> j \<and> j < length txs \<and> (\<exists>u. hint_recipient C K ingress (txs ! j) u = Ok p)) \<and>
     (\<forall>j p. start \<le> j \<and> j < length txs \<and> (\<forall>u. hint_recipient C K ingress (txs ! j) u = Ok p) \<longrightarrow> (j, p) \<in> set entries)"

lemma entries_ok_Cons:
  assumes "entries_ok C K ingress txs (Suc i) entries" "i < length txs" "hint_recipient C K ingress (txs ! i) u = Ok p"
  shows "entries_ok C K ingress txs i ((i, p) # entries)"
  unfolding entries_ok_def
proof (intro conjI allI impI ballI)
  show "sorted_wrt (<) (map fst ((i, p) # entries))"
    using assms(1) by (auto simp: entries_ok_def)
next
  fix x
  assume "x \<in> set ((i, p) # entries)"
  then show "case x of (j, p) \<Rightarrow> i \<le> j \<and> j < length txs \<and> (\<exists>u. hint_recipient C K ingress (txs ! j) u = Ok p)"
    using assms by (auto simp: entries_ok_def)
next
  fix j q
  assume *: "i \<le> j \<and> j < length txs \<and> (\<forall>u. hint_recipient C K ingress (txs ! j) u = Ok q)"
  show "(j, q) \<in> set ((i, p) # entries)"
  proof (cases "j = i")
    case True
    with * have "hint_recipient C K ingress (txs ! i) u = Ok q" by blast
    with True assms(3) show ?thesis by simp
  next
    case False
    with * assms(1) show ?thesis by (auto simp: entries_ok_def)
  qed
qed

lemma entries_ok_skip:
  assumes "entries_ok C K ingress txs (Suc i) entries" "hint_recipient C K ingress (txs ! i) u = Err e"
  shows "entries_ok C K ingress txs i entries"
  unfolding entries_ok_def
proof (intro conjI allI impI)
  show "sorted_wrt (<) (map fst entries)" using assms(1) by (simp add: entries_ok_def)
  show "\<forall>(j, p) \<in> set entries. i \<le> j \<and> j < length txs \<and> (\<exists>u. hint_recipient C K ingress (txs ! j) u = Ok p)"
    using assms(1) by (auto simp: entries_ok_def)
  fix j q
  assume *: "i \<le> j \<and> j < length txs \<and> (\<forall>u. hint_recipient C K ingress (txs ! j) u = Ok q)"
  then have "j \<noteq> i" using assms(2) by (metis sum.distinct(1))
  with * assms(1) show "(j, q) \<in> set entries" by (simp add: entries_ok_def)
qed

definition attempt_post ::
  "('g, 'priv, 'pub) enclave_crypto \<Rightarrow> ('rnd, 'priv, 'pub) Kex \<Rightarrow> KexRngCore \<Rightarrow> (bytes \<Rightarrow> u32) \<Rightarrow> (TxOutRecord \<Rightarrow> bytes)
     \<Rightarrow> ('m \<Rightarrow> bytes \<rightharpoonup> bytes) \<Rightarrow> TxsForIngest \<Rightarrow> 'priv \<Rightarrow> 'priv \<Rightarrow> nat \<Rightarrow> 'm RngStore \<Rightarrow> ETxOutRecord list \<Rightarrow> 'm RngStore \<Rightarrow> bool"
where
  "attempt_post C K core crc32 enc content chunk ingress egress i store rows store' \<longleftrightarrow>
     (\<exists>entries. entries_ok C K ingress (redacted_txs chunk) i entries \<and>
        rows_ok C K core enc egress (rng_counter content store) (deliveries crc32 chunk entries) rows \<and>
        rng_counter content store' = drawn K egress (deliveries crc32 chunk entries) (rng_counter content store))"

lemma attempt_post_Cons:
  assumes "attempt_post C K core crc32 enc content chunk ingress egress (Suc i) store1 rows store2"
    and "i < length (redacted_txs chunk)" "hint_recipient C K ingress (redacted_txs chunk ! i) u = Ok p"
    and "out = core_prf core (key_exchange K egress p) (rng_counter content store (key_exchange K egress p))"
    and "rng_counter content store1 = (rng_counter content store)
           (key_exchange K egress p := rng_counter content store (key_exchange K egress p) + 1)"
    and "fst (box_encrypt C g p (enc (tx_out_record crc32 chunk i (redacted_txs chunk ! i)))) = Some pl"
  shows "attempt_post C K core crc32 enc content chunk ingress egress i store
           (\<lparr>search_key = out, payload = pl\<rparr> # rows) store2"
proof -
  obtain entries where "entries_ok C K ingress (redacted_txs chunk) (Suc i) entries"
      "rows_ok C K core enc egress (rng_counter content store1) (deliveries crc32 chunk entries) rows"
      "rng_counter content store2 = drawn K egress (deliveries crc32 chunk entries) (rng_counter content store1)"
    using assms(1) by (auto simp: attempt_post_def)
  then show ?thesis
    unfolding attempt_post_def using assms(2-6) entries_ok_Cons
    by (intro exI [of _ "(i, p) # entries"]) (auto simp: deliveries_def)
qed

lemma attempt_ingest_from_spec:
  assumes laws: "omap_laws 32 8 M content" "secret_laws K"
    and "rs_omap store \<noteq> None" "drop i (redacted_txs chunk) = txs"
    and "attempt_ingest_from C K M core crc32 enc chunk ingress egress i txs g store = (r, g', store')"
  shows "rs_omap store' \<noteq> None \<and>
     (case r of Rows rows \<Rightarrow> attempt_post C K core crc32 enc content chunk ingress egress i store rows store'
      | Overflowed \<Rightarrow> True
      | Panicked \<Rightarrow> \<exists>g p m. fst (box_encrypt C g p m) = None)"
  using assms(3-)
proof (induction txs arbitrary: i g store r g' store')
  case Nil
  then have "length (redacted_txs chunk) \<le> i" by simp
  then have "entries_ok C K ingress (redacted_txs chunk) i []" by (simp add: entries_ok_def)
  with Nil show ?case by (auto simp: attempt_post_def deliveries_def intro!: exI [of _ "[]"])
next
  case (Cons txo txs)
  have i: "i < length (redacted_txs chunk)" "redacted_txs chunk ! i = txo" "drop (Suc i) (redacted_txs chunk) = txs"
    using Cons.prems(2) by (auto simp: drop_Suc tl_drop [symmetric] nth_via_drop not_less dest: arg_cong [of _ _ length])
  obtain u g1 where u: "random_public C g = (u, g1)" by (metis surj_pair)
  have run: "(case hint_recipient C K ingress txo u of
           Inl _ \<Rightarrow> attempt_ingest_from C K M core crc32 enc chunk ingress egress (Suc i) txs g1 store
         | Inr p \<Rightarrow>
             (case next_rng_output M core (key_exchange K egress p) store of
                None \<Rightarrow> (Panicked, g1, store)
              | Some ((overflow, rng_output), store1) \<Rightarrow>
                  if overflow then (Overflowed, g1, store1)
                  else (case box_encrypt C g1 p (enc (tx_out_record crc32 chunk i txo)) of
                          (None, g2) \<Rightarrow> (Panicked, g2, store1)
                        | (Some pl, g2) \<Rightarrow>
                            (case attempt_ingest_from C K M core crc32 enc chunk ingress egress (Suc i) txs g2 store1 of
                               (Rows rows, g3, store2) \<Rightarrow> (Rows (\<lparr>search_key = rng_output, payload = pl\<rparr> # rows), g3, store2)
                             | (other, g3, store2) \<Rightarrow> (other, g3, store2))))) = (r, g', store')"
    using Cons.prems(3) u by (simp add: hint_recipient_def Let_def)
  show ?case
  proof (cases "hint_recipient C K ingress txo u")
    case (Inl e)
    with run have "attempt_ingest_from C K M core crc32 enc chunk ingress egress (Suc i) txs g1 store = (r, g', store')"
      by simp
    from Cons.IH [OF Cons.prems(1) i(3) this] show ?thesis
      using entries_ok_skip [of C K ingress "redacted_txs chunk" i _ u e] Inl i(2)
      by (auto simp: attempt_post_def split: ingest_outcome.splits)
  next
    case (Inr p)
    let ?s = "key_exchange K egress p"
    have s: "length ?s = 32" "\<not> zero_key (flip_first ?s)" using laws(2) by (auto simp: secret_laws_def)
    obtain ov out store1 where nxt: "next_rng_output M core ?s store = Some ((ov, out), store1)" "rs_omap store1 \<noteq> None"
      "\<not> ov \<Longrightarrow> out = core_prf core ?s (rng_counter content store ?s) \<and>
         rng_counter content store1 = (rng_counter content store)(?s := rng_counter content store ?s + 1)"
      using next_rng_output_spec [OF laws(1) s Cons.prems(1)] by metis
    show ?thesis
    proof (cases ov)
      case True
      with run Inr nxt show ?thesis by auto
    next
      case False
      obtain b g2 where b: "box_encrypt C g1 p (enc (tx_out_record crc32 chunk i txo)) = (b, g2)" by (metis surj_pair)
      obtain r2 g3 store2 where rec:
        "attempt_ingest_from C K M core crc32 enc chunk ingress egress (Suc i) txs g2 store1 = (r2, g3, store2)"
        by (metis surj_pair)
      note ih = Cons.IH [OF nxt(2) i(3) rec]
      show ?thesis
      proof (cases b)
        case None
        then have "fst (box_encrypt C g1 p (enc (tx_out_record crc32 chunk i txo))) = None" using b by simp
        moreover have "r = Panicked" "store' = store1" using run Inr nxt(1) False b None by auto
        ultimately show ?thesis using nxt(2) by auto
      next
        case (Some pl)
        have "attempt_post C K core crc32 enc content chunk ingress egress i store
            (\<lparr>search_key = out, payload = pl\<rparr> # rows) store2" if "r2 = Rows rows" for rows
          using ih that i Inr nxt(3) [OF False] b Some
          by (intro attempt_post_Cons [where ?store1.0 = store1 and u = u and p = p and g = g1]) auto
        then show ?thesis
          using run Inr nxt False b Some rec ih by (cases r2) auto
      qed
    qed
  qed
qed

lemma attempt_ingest_txs_spec:
  assumes "omap_laws 32 8 M content" "secret_laws K" "rs_omap store \<noteq> None"
    and "attempt_ingest_txs C K M core crc32 enc chunk ingress egress g store = (r, g', store')"
  shows "rs_omap store' \<noteq> None"
    and "r = Rows rows \<Longrightarrow> attempt_post C K core crc32 enc content chunk ingress egress 0 store rows store'"
    and "r = Panicked \<Longrightarrow> \<exists>g p m. fst (box_encrypt C g p m) = None"
  using attempt_ingest_from_spec [OF assms(1-3) _ assms(4) [unfolded attempt_ingest_txs_def]] by auto

text \<open>
  The result of the retry loop: rows for the key it began with, or, after an overflow, rows for a
  new egress key and an empty table, or the error after the last retry.
\<close>

definition loop_post ::
  "('g, 'priv, 'pub) enclave_crypto \<Rightarrow> ('rnd, 'priv, 'pub) Kex \<Rightarrow> KexRngCore \<Rightarrow> (bytes \<Rightarrow> u32) \<Rightarrow> (TxOutRecord \<Rightarrow> bytes)
     \<Rightarrow> ('m \<Rightarrow> bytes \<rightharpoonup> bytes) \<Rightarrow> TxsForIngest \<Rightarrow> 'priv \<Rightarrow> 'priv \<Rightarrow> KexRngPubkey option \<Rightarrow> 'm RngStore
     \<Rightarrow> ('ae ingest_enclave_error, ETxOutRecord list \<times> KexRngPubkey option) result option \<Rightarrow> 'priv \<Rightarrow> 'm RngStore \<Rightarrow> bool"
where
  "loop_post C K core crc32 enc content chunk ingress egress pk store r egress' store' \<longleftrightarrow>
     (case r of
        None \<Rightarrow> False
      | Some (Inl e) \<Rightarrow> \<exists>c. e = IE_ChunkTooBig (length (redacted_txs chunk)) MAX_CHUNK_RETRIES c
      | Some (Inr (rows, pk')) \<Rightarrow>
          pk' = pk \<and> egress' = egress \<and> attempt_post C K core crc32 enc content chunk ingress egress 0 store rows store' \<or>
          pk' = Some (egress_pubkey K core egress') \<and>
          (\<exists>fresh. (\<forall>s. rng_counter content fresh s = 0) \<and>
                   attempt_post C K core crc32 enc content chunk ingress egress' 0 fresh rows store'))"

lemma loop_post_retry:
  assumes "loop_post C K core crc32 enc content chunk ingress egress1 (Some (egress_pubkey K core egress1)) fresh r egress' store'"
    and "\<forall>s. rng_counter content fresh s = 0"
  shows "loop_post C K core crc32 enc content chunk ingress egress pk store r egress' store'"
  using assms by (auto simp: loop_post_def split: option.splits sum.splits)

lemma ingest_loop_spec:
  assumes "omap_laws 32 8 M content" "secret_laws K" "\<And>g p m. fst (box_encrypt C g p m) \<noteq> None"
    and "rs_omap store \<noteq> None"
    and "ingest_loop n C K M core crc32 enc chunk ingress pk egress g store = (r, egress', g', store')"
  shows "rs_omap store' \<noteq> None \<and>
     loop_post C K core crc32 enc content chunk ingress egress pk store r egress' store'"
  using assms(4,5)
proof (induction n arbitrary: pk egress g store)
  case (0 pk egress g store)
  obtain a g1 store1 where at: "attempt_ingest_txs C K M core crc32 enc chunk ingress egress g store = (a, g1, store1)"
    by (metis surj_pair)
  note spec = attempt_ingest_txs_spec [OF assms(1,2) 0(1) at]
  show ?case
    using 0 at spec assms(3) by (cases a) (auto simp: ingest_loop.simps [of 0] loop_post_def)
next
  case (Suc n pk egress g store)
  obtain a g1 store1 where at: "attempt_ingest_txs C K M core crc32 enc chunk ingress egress g store = (a, g1, store1)"
    by (metis surj_pair)
  note spec = attempt_ingest_txs_spec [OF assms(1,2) Suc.prems(1) at]
  show ?case
  proof (cases a)
    case (Rows rows)
    then show ?thesis using Suc.prems at spec by (auto simp: ingest_loop.simps [of "Suc n"] loop_post_def)
  next
    case Panicked
    then show ?thesis using spec(3) assms(3) by blast
  next
    case Overflowed
    obtain egress1 g2 where rp: "random_private C g1 = (egress1, g2)" by (metis surj_pair)
    have "ingest_loop n C K M core crc32 enc chunk ingress (Some (egress_pubkey K core egress1)) egress1 g2
        (RngStore_clear M store1) = (r, egress', g', store')"
      using Suc.prems(2) at Overflowed rp by (simp add: ingest_loop.simps [of "Suc n"])
    from Suc.IH [OF fresh_counters(4) [OF assms(1)] this]
    have "rs_omap store' \<noteq> None" and post: "loop_post C K core crc32 enc content chunk ingress egress1
        (Some (egress_pubkey K core egress1)) (RngStore_clear M store1) r egress' store'" by auto
    have "\<forall>s. rng_counter content (RngStore_clear M store1) s = 0"
      using fresh_counters(3) [OF assms(1)] by simp
    from loop_post_retry [OF post this] show ?thesis
      using \<open>rs_omap store' \<noteq> None\<close> by simp
  qed
qed

section \<open>The search keys of a sequence of calls\<close>

text \<open>The secrets and counters at which the search keys of a sequence of secrets are drawn.\<close>

fun draws :: "(bytes \<Rightarrow> u64) \<Rightarrow> bytes list \<Rightarrow> (bytes \<times> u64) list" where
  "draws ctr [] = []"
| "draws ctr (s # ss) = (s, ctr s) # draws (ctr(s := ctr s + 1)) ss"

definition recipient_secret :: "('rnd, 'priv, 'pub) Kex \<Rightarrow> 'priv \<Rightarrow> 'pub \<times> TxOutRecord \<Rightarrow> bytes" where
  "recipient_secret K egress d = key_exchange K egress (fst d)"

lemma rows_ok_keys:
  "rows_ok C K core enc egress ctr ds rows \<Longrightarrow>
     map search_key rows = map (\<lambda>(s, c). core_prf core s c) (draws ctr (map (recipient_secret K egress) ds))"
  by (induction ds arbitrary: ctr rows) (auto simp: recipient_secret_def)

lemma rows_ok_length: "rows_ok C K core enc egress ctr ds rows \<Longrightarrow> length rows = length ds"
  by (induction ds arbitrary: ctr rows) auto

lemma rows_ok_append:
  "rows_ok C K core enc egress ctr ds rows \<Longrightarrow>
   rows_ok C K core enc egress (drawn K egress ds ctr) ds' rows' \<Longrightarrow>
   rows_ok C K core enc egress ctr (ds @ ds') (rows @ rows')"
  by (induction ds arbitrary: ctr rows) (auto, blast)

lemma drawn_append: "drawn K egress (ds @ ds') ctr = drawn K egress ds' (drawn K egress ds ctr)"
  by (induction ds arbitrary: ctr) auto

lemma length_draws [simp]: "length (draws ctr ss) = length ss"
  by (induction ss arbitrary: ctr) auto

lemma draws_nth:
  "i < length ss \<Longrightarrow> draws ctr ss ! i = (ss ! i, ctr (ss ! i) + of_nat (count_list (take i ss) (ss ! i)))"
proof (induction ss arbitrary: i ctr)
  case (Cons s ss)
  then show ?case by (cases i) (auto simp: algebra_simps)
qed simp

lemma upt_shift_counter:
  "map (\<lambda>i. c + of_nat i) [0..<Suc n] = c # map (\<lambda>i. c + 1 + of_nat i) [0..<n]" for c :: u64
  by (subst upt_conv_Cons, simp) (simp add: map_Suc_upt [symmetric] comp_def add.assoc del: upt_Suc)

lemma draws_of:
  "map snd (filter (\<lambda>(t, c). t = s) (draws ctr ss)) = map (\<lambda>i. ctr s + of_nat i) [0..<count_list ss s]"
proof (induction ss arbitrary: ctr)
  case (Cons t ss)
  then show ?case by (auto simp: upt_shift_counter simp del: upt_Suc)
qed simp

lemma count_list_take_less:
  assumes "i < j" "j \<le> length xs" "xs ! i = x"
  shows "count_list (take i xs) x < count_list (take j xs) x"
proof -
  have "take j xs = take i xs @ x # take (j - Suc i) (drop (Suc i) xs)"
    using assms id_take_nth_drop [of i "take j xs"] by (simp add: min_def drop_take)
  then show ?thesis by simp
qed

lemma draws_distinct:
  assumes "length ss < 2 ^ 64"
  shows "distinct (draws ctr ss)"
proof -
  have "draws ctr ss ! i \<noteq> draws ctr ss ! j" if ij: "i < j" "j < length ss" for i j
  proof
    assume "draws ctr ss ! i = draws ctr ss ! j"
    then have eq: "ss ! i = ss ! j" "(of_nat (count_list (take i ss) (ss ! j)) :: u64) = of_nat (count_list (take j ss) (ss ! j))"
      using ij by (auto simp: draws_nth)
    have "count_list (take i ss) (ss ! j) < count_list (take j ss) (ss ! j)"
      using count_list_take_less [of i j ss] ij eq(1) by simp
    moreover have "count_list (take j ss) (ss ! j) < 2 ^ 64"
      using count_le_length [of "take j ss" "ss ! j"] ij assms by simp
    ultimately show False
      using arg_cong [OF eq(2), of unat] unat_of_nat_u64 by simp
  qed
  then show ?thesis
    by (auto simp: distinct_conv_nth elim!: linorder_neqE_nat) (metis)
qed

text \<open>
  The rows that successful calls of \<^verbatim>\<open>ingest_txs\<close> produce as long as none of them rotates the
  egress key.
\<close>

inductive ingests ::
  "('g, 'priv, 'pub) enclave_crypto \<Rightarrow> ('rnd, 'priv, 'pub) Kex \<Rightarrow> 'm omap_ops \<Rightarrow> KexRngCore \<Rightarrow> (bytes \<Rightarrow> u32)
     \<Rightarrow> (TxOutRecord \<Rightarrow> bytes) \<Rightarrow> ('m, 'g, 'priv, 'a) SgxIngestEnclave \<Rightarrow> TxsForIngest list \<Rightarrow> ETxOutRecord list
     \<Rightarrow> ('m, 'g, 'priv, 'a) SgxIngestEnclave \<Rightarrow> bool"
  for C K M core crc32 enc e
where
  ingests_nil: "ingests C K M core crc32 enc e [] [] e"
| ingests_step:
    "\<lbrakk>ingests C K M core crc32 enc e chunks rows e';
      ingest_txs C K M core crc32 enc chunk e' = ((Some (Ok (new, None))
        :: (unit ingest_enclave_error, ETxOutRecord list \<times> KexRngPubkey option) result option), e'')\<rbrakk>
     \<Longrightarrow> ingests C K M core crc32 enc e (chunks @ [chunk]) (rows @ new) e''"

definition enclave_store_ok :: "('m, 'g, 'priv, 'a) SgxIngestEnclave \<Rightarrow> bool" where
  "enclave_store_ok e \<longleftrightarrow> (\<exists>store. rng_store e = Some store \<and> rs_omap store \<noteq> None)"

definition enclave_counter :: "('m \<Rightarrow> bytes \<rightharpoonup> bytes) \<Rightarrow> ('m, 'g, 'priv, 'a) SgxIngestEnclave \<Rightarrow> bytes \<Rightarrow> u64" where
  "enclave_counter content e s = (case rng_store e of None \<Rightarrow> 0 | Some store \<Rightarrow> rng_counter content store s)"

text \<open>The deliveries of a list of chunks.\<close>

fun chunks_delivered ::
  "('g, 'priv, 'pub) enclave_crypto \<Rightarrow> ('rnd, 'priv, 'pub) Kex \<Rightarrow> (bytes \<Rightarrow> u32) \<Rightarrow> 'priv \<Rightarrow> TxsForIngest list
     \<Rightarrow> ('pub \<times> TxOutRecord) list \<Rightarrow> bool"
where
  "chunks_delivered C K crc32 ingress [] ds \<longleftrightarrow> ds = []"
| "chunks_delivered C K crc32 ingress (chunk # chunks) ds \<longleftrightarrow>
     (\<exists>entries ds'. ds = deliveries crc32 chunk entries @ ds' \<and>
        entries_ok C K ingress (redacted_txs chunk) 0 entries \<and> chunks_delivered C K crc32 ingress chunks ds')"

lemma chunks_delivered_snoc:
  "chunks_delivered C K crc32 ingress chunks ds \<Longrightarrow> entries_ok C K ingress (redacted_txs chunk) 0 entries \<Longrightarrow>
   chunks_delivered C K crc32 ingress (chunks @ [chunk]) (ds @ deliveries crc32 chunk entries)"
proof (induction chunks arbitrary: ds)
  case (Cons c chunks)
  then obtain en ds' where "ds = deliveries crc32 c en @ ds'" "entries_ok C K ingress (redacted_txs c) 0 en"
      "chunks_delivered C K crc32 ingress chunks ds'" by auto
  with Cons.IH [OF this(3) Cons.prems(2)] show ?case by auto
qed auto

lemma ingest_txs_post:
  assumes "omap_laws 32 8 M content" "secret_laws K" "\<And>g p m. fst (box_encrypt C g p m) \<noteq> None"
    and "rng_store e = Some store" "rs_omap store \<noteq> None"
    and "ingest_txs C K M core crc32 enc chunk e = (r, e')"
  shows "\<exists>store'. rng_store e' = Some store' \<and> rs_omap store' \<noteq> None \<and> ingress_key e' = ingress_key e \<and>
           loop_post C K core crc32 enc content chunk (ingress_key e) (egress_key e) None store r (egress_key e') store'"
proof -
  obtain egress' g' store' where loop: "ingest_loop MAX_CHUNK_RETRIES C K M core crc32 enc chunk (ingress_key e) None
      (egress_key e) (mc_rng e) store = (r, egress', g', store')"
      "e' = e\<lparr>egress_key := egress', mc_rng := g', rng_store := Some store'\<rparr>"
    using assms(4,6) by (auto simp: ingest_txs_def split: prod.splits)
  with ingest_loop_spec [OF assms(1,2,3,5) loop(1)] show ?thesis by simp
qed

lemma ingests_rows:
  assumes laws: "omap_laws 32 8 M content" "secret_laws K" "\<And>g p m. fst (box_encrypt C g p m) \<noteq> None"
    and "enclave_store_ok e" "ingests C K M core crc32 enc e chunks rows e'"
  shows "enclave_store_ok e' \<and> egress_key e' = egress_key e \<and> ingress_key e' = ingress_key e \<and>
     (\<exists>ds. chunks_delivered C K crc32 (ingress_key e) chunks ds \<and>
           rows_ok C K core enc (egress_key e) (enclave_counter content e) ds rows \<and>
           enclave_counter content e' = drawn K (egress_key e) ds (enclave_counter content e))"
  using assms(5)
proof (induction rule: ingests.induct)
  case ingests_nil
  then show ?case using assms(4) by (auto intro!: exI [of _ "[]"])
next
  case (ingests_step chunks rows e' chunk new e'')
  then obtain ds where ds: "chunks_delivered C K crc32 (ingress_key e) chunks ds"
      "rows_ok C K core enc (egress_key e) (enclave_counter content e) ds rows"
      "enclave_counter content e' = drawn K (egress_key e) ds (enclave_counter content e)"
    and e': "egress_key e' = egress_key e" "ingress_key e' = ingress_key e" by blast
  obtain store where store: "rng_store e' = Some store" "rs_omap store \<noteq> None"
    using ingests_step.IH by (auto simp: enclave_store_ok_def)
  from ingest_txs_post [OF laws store ingests_step.hyps(2)]
  obtain store' where store': "rng_store e'' = Some store'" "rs_omap store' \<noteq> None" "ingress_key e'' = ingress_key e'"
      "loop_post C K core crc32 enc content chunk (ingress_key e') (egress_key e') None store
        (Some (Ok (new, None)) :: (unit ingest_enclave_error, ETxOutRecord list \<times> KexRngPubkey option) result option)
        (egress_key e'') store'" by blast
  then have eg: "egress_key e'' = egress_key e" and
    post: "attempt_post C K core crc32 enc content chunk (ingress_key e) (egress_key e) 0 store new store'"
    using e' by (auto simp: loop_post_def)
  have ctr: "enclave_counter content e' = rng_counter content store" "enclave_counter content e'' = rng_counter content store'"
    using store(1) store'(1) by (simp_all add: enclave_counter_def fun_eq_iff)
  from post obtain en where en: "entries_ok C K (ingress_key e) (redacted_txs chunk) 0 en"
      "rows_ok C K core enc (egress_key e) (enclave_counter content e') (deliveries crc32 chunk en) new"
      "enclave_counter content e'' = drawn K (egress_key e) (deliveries crc32 chunk en) (enclave_counter content e')"
    unfolding attempt_post_def ctr by blast
  have "chunks_delivered C K crc32 (ingress_key e) (chunks @ [chunk]) (ds @ deliveries crc32 chunk en)"
    by (rule chunks_delivered_snoc [OF ds(1) en(1)])
  moreover have "rows_ok C K core enc (egress_key e) (enclave_counter content e) (ds @ deliveries crc32 chunk en) (rows @ new)"
    using rows_ok_append [OF ds(2)] en(2) ds(3) by metis
  moreover have "enclave_counter content e'' = drawn K (egress_key e) (ds @ deliveries crc32 chunk en) (enclave_counter content e)"
    using en(3) ds(3) by (metis drawn_append)
  ultimately show ?case
    using eg e' store' by (auto simp: enclave_store_ok_def)
qed

section \<open>Properties\<close>

text \<open>
  C13: \<^verbatim>\<open>ingest_txs\<close> always returns. It keeps the ingress key, and it either makes the rows of the
  chunk with the egress key and the counters it had, or it announces a new egress key, the one it
  holds afterwards, and all the rows are made with that key and counters that start from zero, or
  it gives up with \<^verbatim>\<open>ChunkTooBig\<close>. Rows of two egress keys are never mixed.
\<close>

theorem ingest_txs_spec:
  assumes "omap_laws 32 8 M content" "secret_laws K" "\<And>g p m. fst (box_encrypt C g p m) \<noteq> None"
    and "rng_store e = Some store" "rs_omap store \<noteq> None"
  shows "\<exists>(r :: ('ae ingest_enclave_error, ETxOutRecord list \<times> KexRngPubkey option) result) e' store'.
     ingest_txs C K M core crc32 enc chunk e = (Some r, e') \<and>
     rng_store e' = Some store' \<and> rs_omap store' \<noteq> None \<and> ingress_key e' = ingress_key e \<and>
     (case r of
        Inl err \<Rightarrow> \<exists>c. err = IE_ChunkTooBig (length (redacted_txs chunk)) 10 c
      | Inr (rows, None) \<Rightarrow>
          egress_key e' = egress_key e \<and>
          attempt_post C K core crc32 enc content chunk (ingress_key e) (egress_key e) 0 store rows store'
      | Inr (rows, Some pk) \<Rightarrow>
          get_kex_rng_pubkey K core e' = Some pk \<and>
          (\<exists>fresh. (\<forall>s. rng_counter content fresh s = 0) \<and>
             attempt_post C K core crc32 enc content chunk (ingress_key e) (egress_key e') 0 fresh rows store'))"
proof -
  obtain r :: "('ae ingest_enclave_error, ETxOutRecord list \<times> KexRngPubkey option) result option" and e'
    where run: "ingest_txs C K M core crc32 enc chunk e = (r, e')" by (metis surj_pair)
  from ingest_txs_post [OF assms run] obtain store' where store': "rng_store e' = Some store'" "rs_omap store' \<noteq> None"
      "ingress_key e' = ingress_key e"
      and post: "loop_post C K core crc32 enc content chunk (ingress_key e) (egress_key e) None store r (egress_key e') store'"
    by blast
  obtain r' where r': "r = Some r'" using post by (cases r) (auto simp: loop_post_def)
  show ?thesis
    using run store' post unfolding r'
    by (intro exI [of _ r'] exI [of _ e'] exI [of _ store'])
       (auto simp: loop_post_def MAX_CHUNK_RETRIES_def get_kex_rng_pubkey_def split: sum.splits option.splits)
qed

text \<open>A toy instance: the random source is a counter, the hint is the recipient's key in clear.\<close>

definition toy_crypto :: "(u8, u8, u8) enclave_crypto" where
  "toy_crypto =
     \<lparr>random_private = (\<lambda>g. (g, g + 1)), random_public = (\<lambda>g. (g, g + 1)),
      hint_decrypt = (\<lambda>k hint u. case hint of [] \<Rightarrow> (False, u) | p # _ \<Rightarrow> (True, [p])),
      box_encrypt = (\<lambda>g p m. (Some (p # m), g + 1)),
      private_bytes = (\<lambda>a. [a]), private_try_from = (\<lambda>bs. case bs of [a] \<Rightarrow> Ok a | _ \<Rightarrow> Err InvalidPublicKey),
      seal_raw = Some, unseal_raw = Some\<rparr>"

definition toy_tx :: "u8 \<Rightarrow> TxOut" where
  "toy_tx p = \<lparr>amount = \<lparr>commitment = [], masked_value = 0\<rparr>, target_key = [], public_key = [], e_fog_hint = [p]\<rparr>"

definition toy_chunk :: TxsForIngest where
  "toy_chunk = \<lparr>chunk_block_index = 3, global_txo_index = 40, redacted_txs = [toy_tx 5, toy_tx 6, toy_tx 5], chunk_timestamp = 9\<rparr>"

definition toy_ingest :: "(nat \<times> (bytes \<times> bytes) list, u8, u8, unit) SgxIngestEnclave" where
  "toy_ingest = \<lparr>ingress_key = 1, egress_key = 2, rng_store = Some (RngStore_new table_ops 8), mc_rng = 50, ie_ake = ()\<rparr>"

lemma toy_ingest_laws:
  "secret_laws toy_kex" "fst (box_encrypt toy_crypto g p m) \<noteq> None"
  by (simp_all add: secret_laws_def toy_kex_def toy_crypto_def zero_key_def)

theorem ingest_txs_spec_witness:
  "\<exists>r e'. ingest_txs toy_crypto toy_kex table_ops (KexRng20201124 toy_blake2b) (\<lambda>_. 0) (\<lambda>_. []) toy_chunk toy_ingest =
     (Some r :: (unit ingest_enclave_error, ETxOutRecord list \<times> KexRngPubkey option) result option, e') \<and> ingress_key e' = 1"
  using ingest_txs_spec [OF table_laws toy_ingest_laws, of toy_ingest "RngStore_new table_ops 8"]
    fresh_counters(2) [OF table_laws, of 8]
  by (fastforce simp: toy_ingest_def)

text \<open>
  C14: search keys are never reused. As long as the egress key is not rotated, the search keys of
  all rows of all calls are the pseudorandom function at pairwise different pairs of a secret and a
  counter, and for every recipient they are the first outputs of the recipient's generator in
  order, without gaps: exactly the sequence that the client's generator runs through.
\<close>

theorem search_keys_never_reused:
  assumes "omap_laws 32 8 M content" "secret_laws K" "\<And>g p m. fst (box_encrypt C g p m) \<noteq> None"
    and "enclave_store_ok e" "enclave_counter content e = (\<lambda>_. 0)"
    and "ingests C K M core crc32 enc e chunks rows e'" "length rows < 2 ^ 64"
  shows "egress_key e' = egress_key e \<and>
     (\<exists>ds. chunks_delivered C K crc32 (ingress_key e) chunks ds \<and>
        rows_ok C K core enc (egress_key e) (\<lambda>_. 0) ds rows \<and>
        (let ss = map (recipient_secret K (egress_key e)) ds; ps = draws (\<lambda>_. 0) ss
         in map search_key rows = map (\<lambda>(s, c). core_prf core s c) ps \<and> distinct ps \<and>
            (\<forall>s. map snd (filter (\<lambda>(t, c). t = s) ps) = map of_nat [0..<count_list ss s])))"
proof -
  from ingests_rows [OF assms(1-4,6)]
  obtain ds where ds: "egress_key e' = egress_key e" "chunks_delivered C K crc32 (ingress_key e) chunks ds"
      "rows_ok C K core enc (egress_key e) (\<lambda>_. 0) ds rows"
    unfolding assms(5) by blast
  have "length ds < 2 ^ 64" using rows_ok_length [OF ds(3)] assms(7) by simp
  then show ?thesis
    using ds rows_ok_keys [OF ds(3)] draws_distinct draws_of
    by (intro conjI exI [of _ ds]) (auto simp: Let_def)
qed

theorem search_keys_never_reused_witness:
  "\<exists>rows e'. ingests toy_crypto toy_kex table_ops (KexRng20201124 toy_blake2b) (\<lambda>_. 0) (\<lambda>_. []) toy_ingest [toy_chunk] rows e' \<and>
     egress_key e' = 2 \<and> length rows = 3"
proof -
  let ?core = "KexRng20201124 toy_blake2b"
  obtain rows e' where run: "ingest_txs toy_crypto toy_kex table_ops ?core (\<lambda>_. 0) (\<lambda>_. []) toy_chunk toy_ingest =
      (Some (Ok (rows, None)) :: (unit ingest_enclave_error, ETxOutRecord list \<times> KexRngPubkey option) result option, e')"
      "length rows = 3"
    by (simp add: ingest_txs_def toy_ingest_def ingest_loop.simps MAX_CHUNK_RETRIES_def attempt_ingest_txs_def toy_chunk_def
        toy_tx_def toy_crypto_def toy_kex_def next_rng_output_def RngStore_new_def table_ops_def table_access_def
        table_write_def bump_counter_def zero_key_def)
  have ok: "enclave_store_ok toy_ingest" "enclave_counter (\<lambda>m. map_of (snd m)) toy_ingest = (\<lambda>_. 0)"
    using fresh_counters(1) [OF table_laws [of 32 8]]
    by (simp_all add: enclave_store_ok_def enclave_counter_def toy_ingest_def fun_eq_iff)
       (simp_all add: RngStore_new_def)
  have "ingests toy_crypto toy_kex table_ops ?core (\<lambda>_. 0) (\<lambda>_. []) toy_ingest ([] @ [toy_chunk]) ([] @ rows) e'"
    by (rule ingests_step [OF ingests_nil run(1)])
  then show ?thesis
    using search_keys_never_reused [OF table_laws toy_ingest_laws ok, of ?core "\<lambda>_. 0" "\<lambda>_. []" "[toy_chunk]" rows e'] run(2)
    by (auto simp: toy_ingest_def)
qed

text \<open>
  What is relied on for moving a key between enclaves: a private key parses back from its bytes,
  and what was sealed unseals to itself.
\<close>

definition key_laws :: "('g, 'priv, 'pub) enclave_crypto \<Rightarrow> bool" where
  "key_laws C \<longleftrightarrow>
     (\<forall>a. private_try_from C (private_bytes C a) = Ok a) \<and> (\<forall>m s. seal_raw C m = Some s \<longrightarrow> unseal_raw C s = Some m)"

text \<open>
  C31: the ingress key survives its backup. The key that one enclave gives to a peer, over a
  channel that delivers what was encrypted, is the ingress key of the peer afterwards, whose egress
  key and counters are untouched; the public key reported on both sides is the same; and an
  enclave restarted with the sealed key that the peer returned has that ingress key and an empty
  counter table. An unknown peer gets nothing.
\<close>

theorem ingress_key_backup:
  assumes "key_laws C" "omap_laws 32 8 M content"
    and "get_ingress_private_key C K P peer a = (Ok (msg, pub), a')"
    and "\<forall>e. peer_encrypt P peer [] (private_bytes C (ingress_key a)) (ie_ake a) = (Ok msg, e) \<longrightarrow>
             fst (peer_decrypt P msg (ie_ake b)) = Ok (private_bytes C (ingress_key a))"
    and "seal_raw C (private_bytes C (ingress_key a)) = Some sealed"
    and "fst (peer_state_init P rid (ie_ake c)) = Ok ()"
  shows "is_peer_known P peer (ie_ake a) = Ok True \<and>
     (\<exists>b'. set_ingress_private_key C K P msg b = (Ok (Public_from K (ingress_key a), sealed), b') \<and>
        ingress_key b' = ingress_key a \<and> egress_key b' = egress_key b \<and> rng_store b' = rng_store b \<and>
        pub = Public_bytes K (get_ingress_pubkey K b')) \<and>
     (\<exists>c' store. enclave_init C M P rid (Some sealed) n c = (Ok (), c') \<and> ingress_key c' = ingress_key a \<and>
        rng_store c' = Some store \<and> (\<forall>s. rng_counter content store s = 0))"
proof -
  have known: "is_peer_known P peer (ie_ake a) = Ok True"
    and "fst (peer_encrypt P peer [] (private_bytes C (ingress_key a)) (ie_ake a)) = Ok msg"
    and pub: "pub = Public_bytes K (Public_from K (ingress_key a))"
    using assms(3) by (auto simp: get_ingress_private_key_def split: sum.splits if_splits prod.splits)
  then have "fst (peer_decrypt P msg (ie_ake b)) = Ok (private_bytes C (ingress_key a))"
    using assms(4) by (metis prod.collapse)
  then obtain x where dec: "peer_decrypt P msg (ie_ake b) = (Ok (private_bytes C (ingress_key a)), x)"
    by (metis prod.collapse)
  obtain y where init: "peer_state_init P rid (ie_ake c) = (Ok (), y)"
    using assms(6) by (metis prod.collapse)
  have laws: "private_try_from C (private_bytes C (ingress_key a)) = Ok (ingress_key a)"
      "unseal_raw C sealed = Some (private_bytes C (ingress_key a))"
    using assms(1,5) by (auto simp: key_laws_def)
  show ?thesis
    using known pub dec init laws assms(5) fresh_counters(1) [OF assms(2)]
    by (auto simp: set_ingress_private_key_def enclave_init_def seal_private_key_def get_ingress_pubkey_def Let_def)
qed

definition toy_peers :: "(unit, unit, unit, bytes, unit) peer_ops" where
  "toy_peers = \<lparr>peer_state_init = (\<lambda>_ a. (Ok (), a)), is_peer_known = (\<lambda>_ _. Ok True),
     peer_encrypt = (\<lambda>_ _ m a. (Ok m, a)), peer_decrypt = (\<lambda>m a. (Ok m, a))\<rparr>"

theorem ingress_key_backup_witness:
  "\<exists>b'. set_ingress_private_key toy_crypto toy_kex toy_peers [1] (toy_ingest\<lparr>ingress_key := 9\<rparr>) = (Ok (1, [1]), b') \<and>
        ingress_key b' = 1 \<and> egress_key b' = 2"
proof -
  have laws: "key_laws toy_crypto" by (simp add: key_laws_def toy_crypto_def)
  have get: "get_ingress_private_key toy_crypto toy_kex toy_peers () toy_ingest = (Ok ([1], [1]), toy_ingest)"
    by (simp add: get_ingress_private_key_def toy_peers_def toy_crypto_def toy_kex_def toy_ingest_def)
  show ?thesis
    using ingress_key_backup [OF laws table_laws get, where b = "toy_ingest\<lparr>ingress_key := 9\<rparr>" and sealed = "[1]" and rid = "()" and c = toy_ingest]
    by (auto simp: toy_peers_def toy_crypto_def toy_kex_def toy_ingest_def)
qed

end
