(* ===== verification/Ingest_Controller.thy ===== *)
theory Ingest_Controller
  imports Controller_State Fog_Run Ingest_Enclave Recovery_Db Enclave_Connection "HOL-Library.AList"
begin

text \<open>
  The ingest controller, \<^verbatim>\<open>src/fog/ingest/server/src/controller.rs\<close>, with the peer connection it
  opens (\<^verbatim>\<open>connection.rs\<close>), over the modelled enclave and the modelled recovery database.

  A handler is a \<open>run\<close> on the controller: \<open>with_state\<close> is a scope that holds the mutex of the
  controller state, and asking for it while it is held never returns. Between two calls of a handler
  to the database the other servers can write to it: \<open>others\<close>. The peers' servers, the network
  client, the attestation of a peer session, the report cache and the disk are parameters, over an
  opaque world \<open>'w\<close>; their errors are strings. The release profile has no overflow checks, so
  additions wrap.
\<close>

section \<open>Errors (\<^verbatim>\<open>error.rs\<close>, \<^verbatim>\<open>connection_error.rs\<close>)\<close>

datatype PeerConnError =
    PC_Attestation string
  | PC_ChannelSend
  | PC_Grpc string
  | PC_RetryInternal string
  | PC_Serialization
  | PC_Enclave "string ingest_enclave_error"
  | UnexpectedKeyInEnclave bytes

datatype 'uri PeerBackupError =
    AnotherActivePeer 'uri
  | FailedRemoteKeyBackup 'uri
  | FailedRemoteSetPeers 'uri
  | PB_Connection PeerConnError
  | PeerSentBadURI string
  | PB_Conversion string
  | CreatingNewIngressKey

datatype 'uri SetPeersError =
    SP_ResponderId string
  | MissingOurResponderId string "(string \<times> 'uri) list"

datatype 'uri RestoreStateError =
    RS_Enclave "string ingest_enclave_error"
  | RS_Connection PeerConnError
  | RS_ReportCache string
  | RS_Backup "'uri PeerBackupError"
  | IngressKeyMismatch bytes bytes
  | InvalidPeerUri string
  | RS_ResponderId string
  | RS_SetPeers "'uri SetPeersError"
  | RS_ServerNotIdle
  | RS_Conversion string

datatype 'uri IngestServiceError =
    IS_Enclave "string ingest_enclave_error"
  | IS_LedgerDb string
  | IS_RecoveryDb db_error
  | IS_Serialization
  | IS_Connection PeerConnError
  | IS_ReportCache string
  | IS_ReportableEnclave string
  | IS_UriConversion string
  | IS_Backup "'uri PeerBackupError"
  | ServerNotIdle
  | KeyAlreadyRetired bytes
  | PublishReport
  | IS_Io string
  | IS_Grpc string

section \<open>Configuration, outside world and controller\<close>

record 'uri IngestServerConfig =
  cfg_max_transactions :: nat
  cfg_omap_capacity :: u64
  cfg_local_node_id :: string
  cfg_peers :: "'uri list"
  cfg_pubkey_expiry_window :: u64
  cfg_fog_report_id :: string
  cfg_state_file :: bool

text \<open>
  The peer handshake in the enclave (\<^verbatim>\<open>mc_crypto_ake_enclave\<close>), the grpc clients of a peer, the two
  uses of \<^verbatim>\<open>attested_call\<close> (which may attest again), the report cache and the report it left in the
  enclave, and whether an access to the state file succeeds.
\<close>

record ('a, 'w, 'uri, 'rep) peer_net =
  ake_peer_init :: "string \<Rightarrow> 'a \<Rightarrow> (string, bytes) result \<times> 'a"
  ake_peer_connect :: "string \<Rightarrow> bytes \<Rightarrow> 'a \<Rightarrow> (string, bytes) result \<times> 'a"
  rpc_auth :: "'uri \<Rightarrow> bytes \<Rightarrow> 'w \<Rightarrow> (string, bytes) result \<times> 'w"
  rpc_get_status :: "'uri \<Rightarrow> 'w \<Rightarrow> (string, IngestSummary) result \<times> 'w"
  rpc_set_peers :: "'uri \<Rightarrow> string list \<Rightarrow> 'w \<Rightarrow> (string, IngestSummary) result \<times> 'w"
  call_get_private_key :: "'uri \<Rightarrow> bytes \<Rightarrow> 'a \<times> 'w \<Rightarrow> (PeerConnError, Message) result \<times> 'a \<times> 'w"
  call_set_private_key :: "'uri \<Rightarrow> Message \<Rightarrow> 'a \<times> 'w \<Rightarrow> (PeerConnError, IngestSummary) result \<times> 'a \<times> 'w"
  report_cache_update :: "'a \<times> 'w \<Rightarrow> (string, unit) result \<times> 'a \<times> 'w"
  ias_report :: "'a \<Rightarrow> (string, 'rep) result"
  file_access :: "'w \<Rightarrow> (string, unit) result \<times> 'w"

record ('m, 'g, 'priv, 'pub, 'rnd, 'a, 'uri, 'w, 'rep) ctl_env =
  config :: "'uri IngestServerConfig"
  crypto :: "('g, 'priv, 'pub) enclave_crypto"
  kex :: "('rnd, 'priv, 'pub) Kex"
  omap :: "'m omap_ops"
  rng_core :: KexRngCore
  crc :: "bytes \<Rightarrow> u32"
  enc_record :: "TxOutRecord \<Rightarrow> bytes"
  enc_rows :: "ETxOutRecord list \<Rightarrow> bytes"
  enc_report :: "'rep \<Rightarrow> bytes"
  key_try_from :: "bytes \<Rightarrow> (string, bytes) result"
  sessions :: "('a, string, bytes, Message, string) peer_ops"
  uri :: "'uri uri_ops"
  net :: "('a, 'w, 'uri, 'rep) peer_net"
  clock :: "'w \<Rightarrow> int"
  others :: "'w \<Rightarrow> recovery_db \<Rightarrow> recovery_db \<times> 'w"

record IngestStateFile =
  sf_summary :: IngestSummary
  sf_sealed_ingress_key :: bytes

record ('m, 'g, 'priv, 'a, 'uri, 'w) IngestController =
  controller_state :: "'uri IngestControllerState"
  state_locked :: bool
  enclave :: "('m, 'g, 'priv, 'a) SgxIngestEnclave"
  ctl_db :: recovery_db
  last_sealed_key :: "(bytes \<times> bytes) option"
  state_file :: "IngestStateFile option"
  outside :: 'w

section \<open>Access to the parts\<close>

text \<open>The scope of a guard of the mutex.\<close>

definition with_state ::
  "(('m, 'g, 'priv, 'a, 'uri, 'w) IngestController, 'x) run \<Rightarrow> (('m, 'g, 'priv, 'a, 'uri, 'w) IngestController, 'x) run"
where
  "with_state m s =
     (if state_locked s then None
      else bnd m (\<lambda>x. bnd (modify (\<lambda>s. s\<lparr>state_locked := False\<rparr>)) (\<lambda>_. ret x)) (s\<lparr>state_locked := True\<rparr>))"

definition on_state ::
  "('uri IngestControllerState \<Rightarrow> 'x \<times> 'uri IngestControllerState) \<Rightarrow> (('m, 'g, 'priv, 'a, 'uri, 'w) IngestController, 'x) run"
where
  "on_state f s = (case f (controller_state s) of (x, st) \<Rightarrow> Some (Returns x (s\<lparr>controller_state := st\<rparr>)))"

definition change_state ::
  "('uri IngestControllerState \<Rightarrow> 'uri IngestControllerState) \<Rightarrow> (('m, 'g, 'priv, 'a, 'uri, 'w) IngestController, unit) run"
where
  "change_state f = on_state (\<lambda>st. ((), f st))"

text \<open>A call into the enclave. A panic inside the enclave takes the server down.\<close>

definition ecall ::
  "(('m, 'g, 'priv, 'a) SgxIngestEnclave \<Rightarrow> 'x \<times> ('m, 'g, 'priv, 'a) SgxIngestEnclave)
     \<Rightarrow> (('m, 'g, 'priv, 'a, 'uri, 'w) IngestController, 'x) run"
where
  "ecall f s = (case f (enclave s) of (x, e) \<Rightarrow> Some (Returns x (s\<lparr>enclave := e\<rparr>)))"

definition ecall_some ::
  "(('m, 'g, 'priv, 'a) SgxIngestEnclave \<Rightarrow> 'x option \<times> ('m, 'g, 'priv, 'a) SgxIngestEnclave)
     \<Rightarrow> (('m, 'g, 'priv, 'a, 'uri, 'w) IngestController, 'x) run"
where
  "ecall_some f = bnd (ecall f) (\<lambda>r. case r of None \<Rightarrow> panic | Some x \<Rightarrow> ret x)"

text \<open>A call to the database, before which the other servers may have written to it.\<close>

definition db_call ::
  "('m, 'g, 'priv, 'pub, 'rnd, 'a, 'uri, 'w, 'rep) ctl_env \<Rightarrow> (int \<Rightarrow> recovery_db \<Rightarrow> 'x db_result)
     \<Rightarrow> (('m, 'g, 'priv, 'a, 'uri, 'w) IngestController, (db_error, 'x) result) run"
where
  "db_call E f s =
     (case others E (outside s) (ctl_db s) of (db, w) \<Rightarrow>
      case f (clock E w) db of (r, db') \<Rightarrow>
        let s' = s\<lparr>ctl_db := db', outside := w\<rparr>
        in case r of
             Inl Panic \<Rightarrow> Some (Panics s')
           | _ \<Rightarrow> Some (Returns r s'))"

text \<open>A call to the outside world, and one that also changes the sessions in the enclave.\<close>

definition world_call ::
  "('w \<Rightarrow> 'x \<times> 'w) \<Rightarrow> (('m, 'g, 'priv, 'a, 'uri, 'w) IngestController, 'x) run"
where
  "world_call f s = (case f (outside s) of (x, w) \<Rightarrow> Some (Returns x (s\<lparr>outside := w\<rparr>)))"

definition ake_call ::
  "('a \<Rightarrow> 'x \<times> 'a) \<Rightarrow> (('m, 'g, 'priv, 'a, 'uri, 'w) IngestController, 'x) run"
where
  "ake_call f s =
     (case f (ie_ake (enclave s)) of (x, a) \<Rightarrow> Some (Returns x (s\<lparr>enclave := (enclave s)\<lparr>ie_ake := a\<rparr>\<rparr>)))"

definition both_call ::
  "('a \<times> 'w \<Rightarrow> 'x \<times> 'a \<times> 'w) \<Rightarrow> (('m, 'g, 'priv, 'a, 'uri, 'w) IngestController, 'x) run"
where
  "both_call f s =
     (case f (ie_ake (enclave s), outside s) of (x, a, w) \<Rightarrow>
        Some (Returns x (s\<lparr>enclave := (enclave s)\<lparr>ie_ake := a\<rparr>, outside := w\<rparr>)))"

definition our_pubkey ::
  "('m, 'g, 'priv, 'pub, 'rnd, 'a, 'uri, 'w, 'rep) ctl_env \<Rightarrow> ('m, 'g, 'priv, 'a, 'uri, 'w) IngestController \<Rightarrow> bytes"
where
  "our_pubkey E s = Public_bytes (kex E) (get_ingress_pubkey (kex E) (enclave s))"

section \<open>Peer connections (\<^verbatim>\<open>connection.rs\<close>)\<close>

text \<open>
  A connection lives inside one handler, and no handler uses its session again once a call has
  returned, so a call gives its result only.
\<close>

record 'uri PeerConnection =
  pc_remote_responder_id :: string
  pc_uri :: 'uri
  pc_channel_id :: "bytes option"

definition PeerConnection_new ::
  "'uri uri_ops \<Rightarrow> 'uri \<Rightarrow> ('s, 'uri PeerConnection) run"
where
  "PeerConnection_new U u =
     (case responder_id U u of
        Inl _ \<Rightarrow> panic
      | Inr rid \<Rightarrow> ret \<lparr>pc_remote_responder_id = rid, pc_uri = u, pc_channel_id = None\<rparr>)"

definition peer_attest ::
  "('m, 'g, 'priv, 'pub, 'rnd, 'a, 'uri, 'w, 'rep) ctl_env \<Rightarrow> 'uri PeerConnection
     \<Rightarrow> (('m, 'g, 'priv, 'a, 'uri, 'w) IngestController, (PeerConnError, 'uri PeerConnection) result) run"
where
  "peer_attest E conn =
     attempt PC_Attestation (ake_call (ake_peer_init (net E) (pc_remote_responder_id conn))) (\<lambda>req.
     attempt PC_Attestation (world_call (rpc_auth (net E) (pc_uri conn) req)) (\<lambda>res.
     attempt PC_Attestation (ake_call (ake_peer_connect (net E) (pc_remote_responder_id conn) res)) (\<lambda>session.
       ret (Ok (conn\<lparr>pc_channel_id := Some session\<rparr>)))))"

definition ensure_attested ::
  "('m, 'g, 'priv, 'pub, 'rnd, 'a, 'uri, 'w, 'rep) ctl_env \<Rightarrow> 'uri PeerConnection
     \<Rightarrow> (('m, 'g, 'priv, 'a, 'uri, 'w) IngestController, (PeerConnError, 'uri PeerConnection) result) run"
where
  "ensure_attested E conn = (if pc_channel_id conn = None then peer_attest E conn else ret (Ok conn))"

definition peer_get_status ::
  "('m, 'g, 'priv, 'pub, 'rnd, 'a, 'uri, 'w, 'rep) ctl_env \<Rightarrow> 'uri PeerConnection
     \<Rightarrow> (('m, 'g, 'priv, 'a, 'uri, 'w) IngestController, (PeerConnError, IngestSummary) result) run"
where
  "peer_get_status E conn =
     attempt PC_Grpc (world_call (rpc_get_status (net E) (pc_uri conn))) (\<lambda>summary. ret (Ok summary))"

definition peer_set_peers ::
  "('m, 'g, 'priv, 'pub, 'rnd, 'a, 'uri, 'w, 'rep) ctl_env \<Rightarrow> 'uri list \<Rightarrow> 'uri PeerConnection
     \<Rightarrow> (('m, 'g, 'priv, 'a, 'uri, 'w) IngestController, (PeerConnError, IngestSummary) result) run"
where
  "peer_set_peers E ps conn =
     attempt PC_Grpc (world_call (rpc_set_peers (net E) (pc_uri conn) (map (uri_to_string (uri E)) ps)))
       (\<lambda>summary. ret (Ok summary))"

definition peer_get_ingress_private_key ::
  "('m, 'g, 'priv, 'pub, 'rnd, 'a, 'uri, 'w, 'rep) ctl_env \<Rightarrow> 'uri PeerConnection
     \<Rightarrow> (('m, 'g, 'priv, 'a, 'uri, 'w) IngestController, (PeerConnError, Message) result) run"
where
  "peer_get_ingress_private_key E conn0 =
     attempt id (ensure_attested E conn0) (\<lambda>conn.
       case pc_channel_id conn of
         None \<Rightarrow> ret (Err PC_ChannelSend)
       | Some session \<Rightarrow>
           attempt id (both_call (call_get_private_key (net E) (pc_uri conn) session)) (\<lambda>msg. ret (Ok msg)))"

definition peer_set_ingress_private_key ::
  "('m, 'g, 'priv, 'pub, 'rnd, 'a, 'uri, 'w, 'rep) ctl_env \<Rightarrow> bytes \<Rightarrow> 'uri PeerConnection
     \<Rightarrow> (('m, 'g, 'priv, 'a, 'uri, 'w) IngestController, (PeerConnError, IngestSummary) result) run"
where
  "peer_set_ingress_private_key E current_ingress_public_key conn0 =
     attempt id (ensure_attested E conn0) (\<lambda>conn.
       case pc_channel_id conn of
         None \<Rightarrow> ret (Err PC_ChannelSend)
       | Some session \<Rightarrow>
           attempt PC_Enclave (ecall (get_ingress_private_key (crypto E) (kex E) (sessions E) session)) (\<lambda>(msg, pubkey).
             if pubkey \<noteq> current_ingress_public_key then ret (Err (UnexpectedKeyInEnclave pubkey))
             else attempt id (both_call (call_set_private_key (net E) (pc_uri conn) msg)) (\<lambda>summary. ret (Ok summary))))"

section \<open>Summary and state file (\<^verbatim>\<open>controller.rs\<close>)\<close>

definition get_ingest_summary_inner ::
  "('m, 'g, 'priv, 'pub, 'rnd, 'a, 'uri, 'w, 'rep) ctl_env
     \<Rightarrow> (('m, 'g, 'priv, 'a, 'uri, 'w) IngestController, IngestSummary) run"
where
  "get_ingest_summary_inner E =
     bnd (gets (\<lambda>s. state_summary (uri E) (controller_state s))) (\<lambda>result.
     bnd (gets (our_pubkey E)) (\<lambda>ingress_pubkey.
     bnd (gets (\<lambda>s. get_kex_rng_pubkey (kex E) (rng_core E) (enclave s))) (\<lambda>r.
       case r of
         None \<Rightarrow> panic
       | Some kex_rng_pubkey \<Rightarrow>
           ret (result\<lparr>sm_ingress_pubkey := ingress_pubkey, sm_egress_pubkey := kp_public_key kex_rng_pubkey,
                       sm_kex_rng_version := kp_version kex_rng_pubkey\<rparr>))))"

definition get_ingest_summary ::
  "('m, 'g, 'priv, 'pub, 'rnd, 'a, 'uri, 'w, 'rep) ctl_env
     \<Rightarrow> (('m, 'g, 'priv, 'a, 'uri, 'w) IngestController, IngestSummary) run"
where
  "get_ingest_summary E = with_state (get_ingest_summary_inner E)"

text \<open>One iteration of the loop that looks for a sealed key that fits the summary.\<close>

definition seal_attempt ::
  "('m, 'g, 'priv, 'pub, 'rnd, 'a, 'uri, 'w, 'rep) ctl_env
     \<Rightarrow> (('m, 'g, 'priv, 'a, 'uri, 'w) IngestController, (unit, IngestSummary \<times> bytes) result) run"
where
  "seal_attempt E =
     bnd (get_ingest_summary_inner E) (\<lambda>summary.
       case key_try_from E (sm_ingress_pubkey summary) of
         Inl _ \<Rightarrow> panic
       | Inr ingress_pubkey \<Rightarrow>
           bnd (gets last_sealed_key) (\<lambda>cached.
           bnd (case cached of
                  Some sealed \<Rightarrow> ret sealed
                | None \<Rightarrow> expect (gets (\<lambda>s. get_sealed_ingress_private_key (crypto E) (kex E) (enclave s)
                                            :: (string ingest_enclave_error, bytes \<times> bytes) result))) (\<lambda>(sealed, pubkey).
             if pubkey = ingress_pubkey
             then bnd (modify (\<lambda>s. s\<lparr>last_sealed_key := Some (sealed, pubkey)\<rparr>)) (\<lambda>_. ret (Ok (summary, sealed)))
             else bnd (modify (\<lambda>s. s\<lparr>last_sealed_key := None\<rparr>)) (\<lambda>_. ret (Err ())))))"

definition write_state_file_inner ::
  "('m, 'g, 'priv, 'pub, 'rnd, 'a, 'uri, 'w, 'rep) ctl_env \<Rightarrow> (('m, 'g, 'priv, 'a, 'uri, 'w) IngestController, unit) run"
where
  "write_state_file_inner E =
     (if cfg_state_file (config E)
      then bnd (retry (seal_attempt E)) (\<lambda>(summary, sealed_key).
           bnd (expect (world_call (file_access (net E)))) (\<lambda>_.
             modify (\<lambda>s. s\<lparr>state_file := Some \<lparr>sf_summary = summary, sf_sealed_ingress_key = sealed_key\<rparr>\<rparr>)))
      else ret ())"

definition write_state_file ::
  "('m, 'g, 'priv, 'pub, 'rnd, 'a, 'uri, 'w, 'rep) ctl_env \<Rightarrow> (('m, 'g, 'priv, 'a, 'uri, 'w) IngestController, unit) run"
where
  "write_state_file E = with_state (write_state_file_inner E)"

section \<open>Keys\<close>

definition forget_sealed_key :: "(('m, 'g, 'priv, 'a, 'uri, 'w) IngestController, unit) run" where
  "forget_sealed_key = modify (\<lambda>s. s\<lparr>last_sealed_key := None\<rparr>)"

definition ctl_set_ingress_private_key ::
  "('m, 'g, 'priv, 'pub, 'rnd, 'a, 'uri, 'w, 'rep) ctl_env \<Rightarrow> Message
     \<Rightarrow> (('m, 'g, 'priv, 'a, 'uri, 'w) IngestController, ('uri IngestServiceError, unit) result) run"
where
  "ctl_set_ingress_private_key E msg =
     bnd (with_state (gets (\<lambda>s. is_idle (controller_state s)))) (\<lambda>idle.
       if \<not> idle then ret (Err ServerNotIdle)
       else attempt IS_Enclave (ecall (set_ingress_private_key (crypto E) (kex E) (sessions E) msg)) (\<lambda>_.
            bnd forget_sealed_key (\<lambda>_.
            bnd (write_state_file E) (\<lambda>_. ret (Ok ())))))"

definition decommission_ingest_invocation_id ::
  "('m, 'g, 'priv, 'pub, 'rnd, 'a, 'uri, 'w, 'rep) ctl_env \<Rightarrow> (('m, 'g, 'priv, 'a, 'uri, 'w) IngestController, unit) run"
where
  "decommission_ingest_invocation_id E =
     bnd (gets (\<lambda>s. cs_ingest_invocation_id (controller_state s))) (\<lambda>current.
       case current of
         None \<Rightarrow> ret ()
       | Some iid \<Rightarrow>
           bnd (db_call E (\<lambda>now. decommission_ingest_invocation now iid)) (\<lambda>_.
             change_state (\<lambda>st. st\<lparr>cs_ingest_invocation_id := None\<rparr>)))"

definition new_keys_inner ::
  "('m, 'g, 'priv, 'pub, 'rnd, 'a, 'uri, 'w, 'rep) ctl_env \<Rightarrow> (('m, 'g, 'priv, 'a, 'uri, 'w) IngestController, ('uri IngestServiceError, unit) result) run"
where
  "new_keys_inner E =
     bnd (gets (\<lambda>s. is_idle (controller_state s))) (\<lambda>idle.
       if \<not> idle then ret (Err ServerNotIdle)
       else bnd (decommission_ingest_invocation_id E) (\<lambda>_.
            bnd (ecall_some (new_keys (crypto E) (omap E))) (\<lambda>_.
            bnd forget_sealed_key (\<lambda>_.
            bnd (write_state_file_inner E) (\<lambda>_. ret (Ok ()))))))"

text \<open>The guard of the state is still held when the summary is asked for.\<close>

definition ctl_new_keys ::
  "('m, 'g, 'priv, 'pub, 'rnd, 'a, 'uri, 'w, 'rep) ctl_env \<Rightarrow> (('m, 'g, 'priv, 'a, 'uri, 'w) IngestController, ('uri IngestServiceError, IngestSummary) result) run"
where
  "ctl_new_keys E =
     with_state
       (attempt id (new_keys_inner E) (\<lambda>_.
        bnd (write_state_file_inner E) (\<lambda>_.
        bnd (get_ingest_summary E) (\<lambda>summary. ret (Ok summary)))))"

definition ctl_new_egress_key ::
  "('m, 'g, 'priv, 'pub, 'rnd, 'a, 'uri, 'w, 'rep) ctl_env \<Rightarrow> (('m, 'g, 'priv, 'a, 'uri, 'w) IngestController, ('uri IngestServiceError, unit) result) run"
where
  "ctl_new_egress_key E =
     bnd (gets (\<lambda>s. is_idle (controller_state s))) (\<lambda>idle.
       if \<not> idle then ret (Err ServerNotIdle)
       else bnd (decommission_ingest_invocation_id E) (\<lambda>_.
            bnd (ecall_some (new_egress_key (crypto E) (omap E))) (\<lambda>_.
            bnd forget_sealed_key (\<lambda>_.
            bnd (write_state_file_inner E) (\<lambda>_. ret (Ok ()))))))"

section \<open>Reports\<close>

definition update_enclave_report_cache ::
  "('m, 'g, 'priv, 'pub, 'rnd, 'a, 'uri, 'w, 'rep) ctl_env \<Rightarrow> (('m, 'g, 'priv, 'a, 'uri, 'w) IngestController, (string, unit) result) run"
where
  "update_enclave_report_cache E =
     attempt id (both_call (report_cache_update (net E))) (\<lambda>_. ret (Ok ()))"

definition publish_report ::
  "('m, 'g, 'priv, 'pub, 'rnd, 'a, 'uri, 'w, 'rep) ctl_env \<Rightarrow> bytes \<Rightarrow> (('m, 'g, 'priv, 'a, 'uri, 'w) IngestController, ('uri IngestServiceError, IngressPublicKeyStatus) result) run"
where
  "publish_report E ingress_public_key =
     attempt IS_ReportCache (update_enclave_report_cache E) (\<lambda>_.
     bnd (gets controller_state) (\<lambda>st.
     attempt IS_ReportableEnclave (gets (\<lambda>s. ias_report (net E) (ie_ake (enclave s)))) (\<lambda>report.
       let report_data = \<lparr>rd_ingest_invocation_id = cs_ingest_invocation_id st, rd_report = report,
                          rd_pubkey_expiry = cs_next_block_index st + cs_pubkey_expiry_window st\<rparr>
       in attempt (\<lambda>_. PublishReport)
            (db_call E (\<lambda>_. set_report (enc_report E) ingress_public_key (cfg_fog_report_id (config E)) report_data))
            (\<lambda>key_status. ret (Ok key_status)))))"

section \<open>Processing a block\<close>

fun chunks_of :: "nat \<Rightarrow> 'x list \<Rightarrow> 'x list list" where
  "chunks_of n xs = (if n = 0 \<or> xs = [] then [] else take n xs # chunks_of n (drop n xs))"

text \<open>
  An active server publishes a report before each block. The result is whether to go on: when the
  key is retired and has no more blocks to scan, the server becomes idle.
\<close>

definition report_before_block :: "('m, 'g, 'priv, 'pub, 'rnd, 'a, 'uri, 'w, 'rep) ctl_env \<Rightarrow> u64 \<Rightarrow> bytes \<Rightarrow> (('m, 'g, 'priv, 'a, 'uri, 'w) IngestController, bool) run" where
  "report_before_block E index ingress_pubkey =
     bnd (gets controller_state) (\<lambda>st.
       if is_active st
       then bnd (publish_report E ingress_pubkey) (\<lambda>r.
              case r of
                Inr ingress_key_status \<Rightarrow>
                  if st_retired ingress_key_status \<and> index > st_pubkey_expiry ingress_key_status
                  then bnd (change_state set_idle) (\<lambda>_.
                       bnd (expect (ctl_new_egress_key E)) (\<lambda>_. ret False))
                  else ret True
              | Inl err \<Rightarrow> ret True)
       else ret True)"

definition ensure_invocation :: "('m, 'g, 'priv, 'pub, 'rnd, 'a, 'uri, 'w, 'rep) ctl_env \<Rightarrow> u64 \<Rightarrow> bytes \<Rightarrow> KexRngPubkey \<Rightarrow> (('m, 'g, 'priv, 'a, 'uri, 'w) IngestController, i64) run" where
  "ensure_invocation E index ingress_pubkey kex_rng_pubkey =
     bnd (gets (\<lambda>s. cs_ingest_invocation_id (controller_state s))) (\<lambda>current.
       case current of
         Some iid \<Rightarrow> ret iid
       | None \<Rightarrow>
           bnd (expect (db_call E (\<lambda>now. new_ingest_invocation now None ingress_pubkey kex_rng_pubkey index))) (\<lambda>iid.
           bnd (change_state (\<lambda>st. st\<lparr>cs_ingest_invocation_id := Some iid\<rparr>)) (\<lambda>_. ret iid)))"

text \<open>The scope of the guard at the start of \<^verbatim>\<open>process_next_block\<close>: \<open>None\<close> is its early return.\<close>

definition prepare_block ::
  "('m, 'g, 'priv, 'pub, 'rnd, 'a, 'uri, 'w, 'rep) ctl_env \<Rightarrow> u64 \<Rightarrow> bytes \<Rightarrow> KexRngPubkey \<Rightarrow> (('m, 'g, 'priv, 'a, 'uri, 'w) IngestController, i64 option) run"
where
  "prepare_block E index ingress_pubkey kex_rng_pubkey =
     bnd (gets controller_state) (\<lambda>st.
       if index \<noteq> cs_next_block_index st then panic
       else bnd (report_before_block E index ingress_pubkey) (\<lambda>go_on.
              if \<not> go_on then ret None
              else bnd (ensure_invocation E index ingress_pubkey kex_rng_pubkey) (\<lambda>iid. ret (Some iid))))"

text \<open>When the enclave made a new egress key, its invocation replaces the current one.\<close>

definition rotate_invocation ::
  "('m, 'g, 'priv, 'pub, 'rnd, 'a, 'uri, 'w, 'rep) ctl_env \<Rightarrow> u64 \<Rightarrow> bytes \<Rightarrow> i64 \<Rightarrow> KexRngPubkey option \<Rightarrow> (('m, 'g, 'priv, 'a, 'uri, 'w) IngestController, i64) run"
where
  "rotate_invocation E index ingress_pubkey iid maybe_kex_rng_pubkey =
     (case maybe_kex_rng_pubkey of
        None \<Rightarrow> ret iid
      | Some new_kex_rng_pubkey \<Rightarrow>
          bnd (retry (db_call E (\<lambda>now. new_ingest_invocation now (Some iid) ingress_pubkey new_kex_rng_pubkey index))) (\<lambda>new_iid.
          bnd (with_state (change_state (\<lambda>st. st\<lparr>cs_ingest_invocation_id := Some new_iid\<rparr>))) (\<lambda>_.
            ret new_iid)))"

text \<open>The loop over the chunks of a block: \<open>None\<close> is its early return on an error of the enclave.\<close>

fun ingest_chunks ::
  "('m, 'g, 'priv, 'pub, 'rnd, 'a, 'uri, 'w, 'rep) ctl_env \<Rightarrow> u64 \<Rightarrow> u64 \<Rightarrow> bytes \<Rightarrow> TxOut list list \<Rightarrow> i64 \<Rightarrow> u64 \<Rightarrow> ETxOutRecord list
     \<Rightarrow> (('m, 'g, 'priv, 'a, 'uri, 'w) IngestController, (i64 \<times> ETxOutRecord list) option) run"
where
  "ingest_chunks E index timestamp ingress_pubkey [] iid global_txo tx_rows = ret (Some (iid, tx_rows))"
| "ingest_chunks E index timestamp ingress_pubkey (chunk # chunks) iid global_txo tx_rows =
     bnd (ecall_some (ingest_txs (crypto E) (kex E) (omap E) (rng_core E) (crc E) (enc_record E)
            \<lparr>chunk_block_index = index, global_txo_index = global_txo, redacted_txs = chunk, chunk_timestamp = timestamp\<rparr>)) (\<lambda>r.
       case r :: (string ingest_enclave_error, ETxOutRecord list \<times> KexRngPubkey option) result of
         Inl err \<Rightarrow> ret None
       | Inr (new_tx_rows, maybe_kex_rng_pubkey) \<Rightarrow>
           bnd (rotate_invocation E index ingress_pubkey iid maybe_kex_rng_pubkey) (\<lambda>iid.
             ingest_chunks E index timestamp ingress_pubkey chunks iid (global_txo + of_nat (length chunk))
               (tx_rows @ new_tx_rows)))"

text \<open>What follows a successful \<^verbatim>\<open>add_block_data\<close>, under the guard.\<close>

definition block_added ::
  "('m, 'g, 'priv, 'pub, 'rnd, 'a, 'uri, 'w, 'rep) ctl_env \<Rightarrow> AddBlockDataStatus \<Rightarrow> (('m, 'g, 'priv, 'a, 'uri, 'w) IngestController, unit) run"
where
  "block_added E add_blocks_result =
     (if block_already_scanned_with_this_key add_blocks_result
      then bnd (change_state set_idle) (\<lambda>_. expect (ctl_new_egress_key E))
      else bnd (gets (\<lambda>s. increment_next_block_index (controller_state s))) (\<lambda>r.
             case r of None \<Rightarrow> panic | Some st \<Rightarrow> change_state (\<lambda>_. st)))"

definition process_next_block ::
  "('m, 'g, 'priv, 'pub, 'rnd, 'a, 'uri, 'w, 'rep) ctl_env \<Rightarrow> Block \<Rightarrow> TxOut list \<Rightarrow> u64 \<Rightarrow> (('m, 'g, 'priv, 'a, 'uri, 'w) IngestController, unit) run"
where
  "process_next_block E block outputs timestamp =
     bnd (gets (our_pubkey E)) (\<lambda>ingress_pubkey.
     bnd (gets (\<lambda>s. get_kex_rng_pubkey (kex E) (rng_core E) (enclave s))) (\<lambda>initial.
       case initial of
         None \<Rightarrow> panic
       | Some initial_kex_rng_pubkey \<Rightarrow>
           bnd (with_state (prepare_block E (bk_index block) ingress_pubkey initial_kex_rng_pubkey)) (\<lambda>prepared.
             case prepared of
               None \<Rightarrow> ret ()
             | Some iid \<Rightarrow>
                 if bk_cumulative_txo_count block < of_nat (length outputs) \<or> cfg_max_transactions (config E) = 0 then panic
                 else bnd (ingest_chunks E (bk_index block) timestamp ingress_pubkey
                             (chunks_of (cfg_max_transactions (config E)) outputs) iid
                             (bk_cumulative_txo_count block - of_nat (length outputs)) []) (\<lambda>ingested.
                        case ingested of
                          None \<Rightarrow> ret ()
                        | Some (iid, tx_rows) \<Rightarrow>
                            bnd (retry (db_call E (\<lambda>now. add_block_data (enc_rows E) now iid block timestamp tx_rows))) (\<lambda>add_blocks_result.
                            bnd (with_state (block_added E add_blocks_result)) (\<lambda>_.
                              write_state_file E))))))"

declare chunks_of.simps [simp del]

section \<open>Backups\<close>

text \<open>The parts of \<^verbatim>\<open>confirm_backup\<close> that compare, and update, the key and the peers of the peer.\<close>

definition confirm_key ::
  "('m, 'g, 'priv, 'pub, 'rnd, 'a, 'uri, 'w, 'rep) ctl_env \<Rightarrow> 'uri PeerConnection \<Rightarrow> IngestSummary \<Rightarrow> bytes \<Rightarrow> bool
     \<Rightarrow> (('m, 'g, 'priv, 'a, 'uri, 'w) IngestController, ('uri PeerBackupError, unit) result) run"
where
  "confirm_key E conn summary ours update_if_wrong =
     attempt PB_Conversion (ret (key_try_from E (sm_ingress_pubkey summary))) (\<lambda>peer_pubkey.
       if peer_pubkey \<noteq> ours \<and> update_if_wrong
       then attempt PB_Connection (peer_set_ingress_private_key E ours conn) (\<lambda>summary.
            attempt PB_Conversion (ret (key_try_from E (sm_ingress_pubkey summary))) (\<lambda>peer_pubkey.
              if peer_pubkey \<noteq> ours then ret (Err (FailedRemoteKeyBackup (pc_uri conn))) else ret (Ok ())))
       else ret (Ok ()))"

definition confirm_peers ::
  "('m, 'g, 'priv, 'pub, 'rnd, 'a, 'uri::linorder, 'w, 'rep) ctl_env \<Rightarrow> 'uri PeerConnection \<Rightarrow> IngestSummary \<Rightarrow> 'uri list \<Rightarrow> bool
     \<Rightarrow> (('m, 'g, 'priv, 'a, 'uri, 'w) IngestController, ('uri PeerBackupError, unit) result) run"
where
  "confirm_peers E conn summary our_peers update_if_wrong =
     attempt PeerSentBadURI (ret (get_sorted_peers (uri E) summary)) (\<lambda>sorted_remote_peers.
       if our_peers \<noteq> sorted_remote_peers \<and> update_if_wrong
       then attempt PB_Connection (peer_set_peers E our_peers conn) (\<lambda>new_summary.
            attempt PeerSentBadURI (ret (get_sorted_peers (uri E) new_summary)) (\<lambda>new_sorted_remote_peers.
              if new_sorted_remote_peers \<noteq> our_peers then ret (Err (FailedRemoteSetPeers (pc_uri conn))) else ret (Ok ())))
       else ret (Ok ()))"

text \<open>The argument \<^verbatim>\<open>log_if_wrong\<close> only decides about log messages and is left out.\<close>

definition confirm_backup ::
  "('m, 'g, 'priv, 'pub, 'rnd, 'a, 'uri::linorder, 'w, 'rep) ctl_env \<Rightarrow> 'uri PeerConnection \<Rightarrow> IngestSummary option \<Rightarrow> bytes option \<Rightarrow> 'uri list option \<Rightarrow> bool
     \<Rightarrow> (('m, 'g, 'priv, 'a, 'uri, 'w) IngestController, ('uri PeerBackupError, unit) result) run"
where
  "confirm_backup E conn cached_summary cached_our_pubkey cached_our_peers update_if_wrong =
     attempt PB_Connection (case cached_summary of Some summary \<Rightarrow> ret (Ok summary) | None \<Rightarrow> peer_get_status E conn) (\<lambda>summary.
       case sm_mode summary of
         Active \<Rightarrow> ret (Err (AnotherActivePeer (pc_uri conn)))
       | Idle \<Rightarrow>
           bnd (case cached_our_pubkey of Some k \<Rightarrow> ret k | None \<Rightarrow> gets (our_pubkey E)) (\<lambda>ours.
           bnd (case cached_our_peers of
                  Some ps \<Rightarrow> ret ps
                | None \<Rightarrow> with_state (gets (\<lambda>s. cs_peers (controller_state s)))) (\<lambda>our_peers.
           attempt id (confirm_key E conn summary ours update_if_wrong) (\<lambda>_.
             confirm_peers E conn summary our_peers update_if_wrong))))"

definition peer_checkup_one ::
  "('m, 'g, 'priv, 'pub, 'rnd, 'a, 'uri::linorder, 'w, 'rep) ctl_env \<Rightarrow> 'uri \<Rightarrow> (('m, 'g, 'priv, 'a, 'uri, 'w) IngestController, (unit, unit) result) run"
where
  "peer_checkup_one E peer_uri =
     (case responder_id (uri E) peer_uri of
        Inl _ \<Rightarrow> ret (Ok ())
      | Inr rid \<Rightarrow>
          if rid = cfg_local_node_id (config E) then ret (Ok ())
          else bnd (PeerConnection_new (uri E) peer_uri) (\<lambda>conn.
               bnd (confirm_backup E conn None None None True) (\<lambda>r.
                 case r of
                   Inl (PB_Connection (UnexpectedKeyInEnclave _)) \<Rightarrow> ret (Err ())
                 | _ \<Rightarrow> ret (Ok ()))))"

definition peer_checkup :: "('m, 'g, 'priv, 'pub, 'rnd, 'a, 'uri::linorder, 'w, 'rep) ctl_env \<Rightarrow> (('m, 'g, 'priv, 'a, 'uri, 'w) IngestController, unit) run" where
  "peer_checkup E =
     bnd (with_state (gets controller_state)) (\<lambda>st.
       if is_idle st \<or> cs_peers st = [] then ret ()
       else bnd (update_enclave_report_cache E) (\<lambda>_.
            bnd (for_each (peer_checkup_one E) (cs_peers st)) (\<lambda>_. ret ())))"

section \<open>Activation\<close>

text \<open>The connections to all peers but ourselves; the first \<^verbatim>\<open>expect\<close> is on the responder id.\<close>

fun open_peers :: "('m, 'g, 'priv, 'pub, 'rnd, 'a, 'uri, 'w, 'rep) ctl_env \<Rightarrow> 'uri list \<Rightarrow> (('m, 'g, 'priv, 'a, 'uri, 'w) IngestController, 'uri PeerConnection list) run" where
  "open_peers E [] = ret []"
| "open_peers E (peer # peers) =
     (case responder_id (uri E) peer of
        Inl _ \<Rightarrow> panic
      | Inr rid \<Rightarrow>
          if rid = cfg_local_node_id (config E) then open_peers E peers
          else bnd (PeerConnection_new (uri E) peer) (\<lambda>conn.
               bnd (open_peers E peers) (\<lambda>conns. ret (conn # conns))))"

fun check_statuses ::
  "('m, 'g, 'priv, 'pub, 'rnd, 'a, 'uri, 'w, 'rep) ctl_env \<Rightarrow> 'uri PeerConnection list \<Rightarrow> (('m, 'g, 'priv, 'a, 'uri, 'w) IngestController, ('uri IngestServiceError, IngestSummary list) result) run"
where
  "check_statuses E [] = ret (Ok [])"
| "check_statuses E (conn # conns) =
     attempt (\<lambda>e. IS_Backup (PB_Connection e)) (peer_get_status E conn) (\<lambda>summary.
       case sm_mode summary of
         Active \<Rightarrow> ret (Err (IS_Backup (AnotherActivePeer (pc_uri conn))))
       | Idle \<Rightarrow> attempt id (check_statuses E conns) (\<lambda>summaries. ret (Ok (summary # summaries))))"

definition find_start_block ::
  "('m, 'g, 'priv, 'pub, 'rnd, 'a, 'uri, 'w, 'rep) ctl_env \<Rightarrow> bytes \<Rightarrow> u64 \<Rightarrow> (('m, 'g, 'priv, 'a, 'uri, 'w) IngestController, ('uri IngestServiceError, u64) result) run"
where
  "find_start_block E ours ledger_num_blocks =
     attempt IS_RecoveryDb (db_call E (\<lambda>_. get_ingress_key_status ours)) (\<lambda>key_status.
       case key_status of
         Some key_row \<Rightarrow>
           attempt IS_RecoveryDb (db_call E (\<lambda>_. get_last_scanned_block_index ours)) (\<lambda>scanned.
             ret (Ok (case scanned of Some val \<Rightarrow> val + 1 | None \<Rightarrow> st_start_block key_row)))
       | None \<Rightarrow>
           attempt IS_RecoveryDb (db_call E (\<lambda>_. get_highest_known_block_index)) (\<lambda>highest.
             let start_block = max ledger_num_blocks (case highest of Some x \<Rightarrow> x + 1 | None \<Rightarrow> 0)
             in attempt IS_RecoveryDb (db_call E (\<lambda>_. new_ingress_key ours start_block)) (\<lambda>created.
                  if \<not> created then ret (Err (IS_Backup CreatingNewIngressKey)) else ret (Ok start_block))))"

definition check_backups ::
  "('m, 'g, 'priv, 'pub, 'rnd, 'a, 'uri::linorder, 'w, 'rep) ctl_env \<Rightarrow> 'uri list \<Rightarrow> bytes \<Rightarrow> ('uri PeerConnection \<times> IngestSummary) list
     \<Rightarrow> (('m, 'g, 'priv, 'a, 'uri, 'w) IngestController, ('uri PeerBackupError, unit) result) run"
where
  "check_backups E ps ours =
     for_each (\<lambda>(conn, summary). confirm_backup E conn (Some summary) (Some ours) (Some ps) True)"

text \<open>The end of an activation, once all peers are backups.\<close>

definition activate_key ::
  "('m, 'g, 'priv, 'pub, 'rnd, 'a, 'uri, 'w, 'rep) ctl_env \<Rightarrow> u64 \<Rightarrow> bytes \<Rightarrow> (('m, 'g, 'priv, 'a, 'uri, 'w) IngestController, ('uri IngestServiceError, IngestSummary option) result) run"
where
  "activate_key E ledger_num_blocks ours =
     attempt id (find_start_block E ours ledger_num_blocks) (\<lambda>start_block.
     bnd (expect (on_state (set_next_block_index start_block))) (\<lambda>_.
     attempt id (publish_report E ours) (\<lambda>key_status.
       if st_retired key_status \<and> start_block > st_pubkey_expiry key_status
       then ret (Err (KeyAlreadyRetired ours))
       else bnd (change_state set_active) (\<lambda>_. ret (Ok None)))))"

definition activate_idle ::
  "('m, 'g, 'priv, 'pub, 'rnd, 'a, 'uri::linorder, 'w, 'rep) ctl_env \<Rightarrow> u64 \<Rightarrow> 'uri list \<Rightarrow> (('m, 'g, 'priv, 'a, 'uri, 'w) IngestController, ('uri IngestServiceError, IngestSummary option) result) run"
where
  "activate_idle E ledger_num_blocks ps =
     attempt IS_ReportCache (update_enclave_report_cache E) (\<lambda>_.
     bnd (open_peers E ps) (\<lambda>peer_connections.
     attempt id (check_statuses E peer_connections) (\<lambda>summaries.
     bnd (gets (our_pubkey E)) (\<lambda>ours.
     attempt IS_Backup (check_backups E ps ours (zip peer_connections summaries)) (\<lambda>_.
       activate_key E ledger_num_blocks ours)))))"

text \<open>The part of \<^verbatim>\<open>activate\<close> that holds the guard: \<open>Some\<close> is the early return of an active server.\<close>

definition activate_inner ::
  "('m, 'g, 'priv, 'pub, 'rnd, 'a, 'uri::linorder, 'w, 'rep) ctl_env \<Rightarrow> u64 \<Rightarrow> (('m, 'g, 'priv, 'a, 'uri, 'w) IngestController, ('uri IngestServiceError, IngestSummary option) result) run"
where
  "activate_inner E ledger_num_blocks =
     bnd (gets controller_state) (\<lambda>st.
       if is_active st then bnd (get_ingest_summary_inner E) (\<lambda>summary. ret (Ok (Some summary)))
       else activate_idle E ledger_num_blocks (cs_peers st))"

definition activate ::
  "('m, 'g, 'priv, 'pub, 'rnd, 'a, 'uri::linorder, 'w, 'rep) ctl_env \<Rightarrow> u64 \<Rightarrow> (('m, 'g, 'priv, 'a, 'uri, 'w) IngestController, ('uri IngestServiceError, IngestSummary) result) run"
where
  "activate E ledger_num_blocks =
     attempt id (with_state (activate_inner E ledger_num_blocks)) (\<lambda>early.
       case early of
         Some summary \<Rightarrow> ret (Ok summary)
       | None \<Rightarrow>
           bnd (write_state_file E) (\<lambda>_.
           bnd (get_ingest_summary E) (\<lambda>summary. ret (Ok summary))))"

section \<open>Administration\<close>

definition ctl_retire :: "('m, 'g, 'priv, 'pub, 'rnd, 'a, 'uri, 'w, 'rep) ctl_env \<Rightarrow> bool \<Rightarrow> (('m, 'g, 'priv, 'a, 'uri, 'w) IngestController, ('uri IngestServiceError, IngestSummary) result) run" where
  "ctl_retire E set_retired =
     bnd (gets (our_pubkey E)) (\<lambda>ingress_pubkey.
     attempt IS_RecoveryDb (db_call E (\<lambda>_. retire_ingress_key ingress_pubkey set_retired)) (\<lambda>_.
     bnd (get_ingest_summary E) (\<lambda>summary. ret (Ok summary))))"

definition sync_keys_from_remote ::
  "('m, 'g, 'priv, 'pub, 'rnd, 'a, 'uri, 'w, 'rep) ctl_env \<Rightarrow> 'uri \<Rightarrow> (('m, 'g, 'priv, 'a, 'uri, 'w) IngestController, ('uri IngestServiceError, IngestSummary) result) run"
where
  "sync_keys_from_remote E remote =
     bnd (with_state (gets (\<lambda>s. is_idle (controller_state s)))) (\<lambda>idle.
       if \<not> idle then ret (Err ServerNotIdle)
       else attempt IS_ReportCache (update_enclave_report_cache E) (\<lambda>_.
            bnd (PeerConnection_new (uri E) remote) (\<lambda>connection.
            attempt IS_Connection (peer_get_ingress_private_key E connection) (\<lambda>msg.
            attempt IS_Enclave (ecall (set_ingress_private_key (crypto E) (kex E) (sessions E) msg)) (\<lambda>_.
            bnd forget_sealed_key (\<lambda>_.
            bnd (write_state_file E) (\<lambda>_.
            bnd (get_ingest_summary E) (\<lambda>summary. ret (Ok summary)))))))))"

definition ctl_set_pubkey_expiry_window ::
  "u64 \<Rightarrow> (('m, 'g, 'priv, 'a, 'uri, 'w) IngestController, (StateChangeError, unit) result) run"
where
  "ctl_set_pubkey_expiry_window new_pubkey_expiry_window =
     with_state (on_state (set_pubkey_expiry_window new_pubkey_expiry_window))"

definition peers_by_responder_id :: "'uri uri_ops \<Rightarrow> 'uri list \<Rightarrow> (string, (string \<times> 'uri) list) result" where
  "peers_by_responder_id U uris =
     (case collect (map (\<lambda>u. case responder_id U u of Inl e \<Rightarrow> Err e | Inr rid \<Rightarrow> Ok (rid, u)) uris) of
        Inl e \<Rightarrow> Err e
      | Inr pairs \<Rightarrow> Ok (fold (\<lambda>(rid, u). AList.update rid u) pairs []))"

definition set_peers_inner ::
  "('m, 'g, 'priv, 'pub, 'rnd, 'a, 'uri::linorder, 'w, 'rep) ctl_env \<Rightarrow> 'uri list \<Rightarrow> (('m, 'g, 'priv, 'a, 'uri, 'w) IngestController, ('uri SetPeersError, unit) result) run"
where
  "set_peers_inner E new_uris =
     attempt SP_ResponderId (ret (peers_by_responder_id (uri E) new_uris)) (\<lambda>new_peers_by_responder_id.
       if map_of new_peers_by_responder_id (cfg_local_node_id (config E)) = None
       then ret (Err (MissingOurResponderId (cfg_local_node_id (config E)) new_peers_by_responder_id))
       else bnd (change_state (set_peers (btree_set (map snd new_peers_by_responder_id)))) (\<lambda>_. ret (Ok ())))"

definition ctl_set_peers ::
  "('m, 'g, 'priv, 'pub, 'rnd, 'a, 'uri::linorder, 'w, 'rep) ctl_env \<Rightarrow> 'uri list \<Rightarrow> (('m, 'g, 'priv, 'a, 'uri, 'w) IngestController, ('uri SetPeersError, unit) result) run"
where
  "ctl_set_peers E new_uris = with_state (set_peers_inner E new_uris)"

definition ctl_report_lost_ingress_key ::
  "('m, 'g, 'priv, 'pub, 'rnd, 'a, 'uri, 'w, 'rep) ctl_env \<Rightarrow> bytes \<Rightarrow> (('m, 'g, 'priv, 'a, 'uri, 'w) IngestController, (db_error, unit) result) run"
where
  "ctl_report_lost_ingress_key E lost_ingress_key = db_call E (\<lambda>_. report_lost_ingress_key lost_ingress_key)"

section \<open>Restart\<close>

definition restore_check_peer ::
  "('m, 'g, 'priv, 'pub, 'rnd, 'a, 'uri::linorder, 'w, 'rep) ctl_env \<Rightarrow> bytes \<Rightarrow> 'uri list \<Rightarrow> 'uri \<Rightarrow> (('m, 'g, 'priv, 'a, 'uri, 'w) IngestController, ('uri RestoreStateError, unit) result) run"
where
  "restore_check_peer E ingress_pubkey new_peers peer_uri =
     (case responder_id (uri E) peer_uri of
        Inl e \<Rightarrow> ret (Err (RS_SetPeers (SP_ResponderId e)))
      | Inr rid \<Rightarrow>
          if rid = cfg_local_node_id (config E) then ret (Ok ())
          else bnd (PeerConnection_new (uri E) peer_uri) (\<lambda>conn.
               attempt RS_Backup (confirm_backup E conn None (Some ingress_pubkey) (Some new_peers) False) (\<lambda>_. ret (Ok ()))))"

text \<open>What is checked before an active state is restored.\<close>

definition restore_checks ::
  "('m, 'g, 'priv, 'pub, 'rnd, 'a, 'uri::linorder, 'w, 'rep) ctl_env \<Rightarrow> IngestSummary \<Rightarrow> bytes \<Rightarrow> 'uri list \<Rightarrow> (('m, 'g, 'priv, 'a, 'uri, 'w) IngestController, ('uri RestoreStateError, unit) result) run"
where
  "restore_checks E state_data ingress_pubkey new_peers =
     (if sm_mode state_data \<noteq> Idle
      then attempt RS_Conversion (ret (key_try_from E (sm_ingress_pubkey state_data))) (\<lambda>state_data_ingress_pubkey.
             if state_data_ingress_pubkey \<noteq> ingress_pubkey
             then ret (Err (IngressKeyMismatch ingress_pubkey state_data_ingress_pubkey))
             else attempt RS_ReportCache (update_enclave_report_cache E) (\<lambda>_.
                  for_each (restore_check_peer E ingress_pubkey new_peers) new_peers))
      else ret (Ok ()))"

definition restore_inner ::
  "('m, 'g, 'priv, 'pub, 'rnd, 'a, 'uri::linorder, 'w, 'rep) ctl_env \<Rightarrow> IngestSummary \<Rightarrow> (('m, 'g, 'priv, 'a, 'uri, 'w) IngestController, ('uri RestoreStateError, unit) result) run"
where
  "restore_inner E state_data =
     attempt InvalidPeerUri (ret (get_sorted_peers (uri E) state_data)) (\<lambda>new_peers.
     bnd (gets (our_pubkey E)) (\<lambda>ingress_pubkey.
     attempt id (restore_checks E state_data ingress_pubkey new_peers) (\<lambda>_.
     attempt RS_SetPeers (set_peers_inner E new_peers) (\<lambda>_.
     bnd (expect (on_state (set_pubkey_expiry_window (sm_pubkey_expiry_window state_data)))) (\<lambda>_.
     bnd (expect (on_state (set_next_block_index (sm_next_block_index state_data)))) (\<lambda>_.
       case sm_mode state_data of
         Idle \<Rightarrow> ret (Ok ())
       | Active \<Rightarrow> bnd (change_state set_active) (\<lambda>_. ret (Ok ()))))))))"

definition restore_state_from_summary ::
  "('m, 'g, 'priv, 'pub, 'rnd, 'a, 'uri::linorder, 'w, 'rep) ctl_env \<Rightarrow> IngestSummary \<Rightarrow> (('m, 'g, 'priv, 'a, 'uri, 'w) IngestController, ('uri RestoreStateError, unit) result) run"
where
  "restore_state_from_summary E state_data = with_state (
     bnd (gets (\<lambda>s. is_idle (controller_state s))) (\<lambda>idle.
       if \<not> idle then ret (Err RS_ServerNotIdle) else restore_inner E state_data))"

text \<open>
  The start of a controller: an enclave with random source \<open>g\<close> and sessions \<open>a\<close> is created and
  initialised with the sealed key of the state file, if there is one, and the state of the file is
  restored. \<open>file\<close> is what the configured state file holds.
\<close>

definition start_enclave ::
  "('m, 'g, 'priv, 'pub, 'rnd, 'a, 'uri, 'w, 'rep) ctl_env \<Rightarrow> bytes option \<Rightarrow> (('m, 'g, 'priv, 'a, 'uri, 'w) IngestController, unit) run"
where
  "start_enclave E cached_key =
     expect (ecall (enclave_init (crypto E) (omap E) (sessions E) (cfg_local_node_id (config E)) cached_key
                      (cfg_omap_capacity (config E))))"

definition IngestController_new ::
  "('m, 'g, 'priv, 'pub, 'rnd, 'a, 'uri::linorder, 'w, 'rep) ctl_env \<Rightarrow> 'a \<Rightarrow> 'g \<Rightarrow> recovery_db \<Rightarrow> IngestStateFile option \<Rightarrow> 'w
     \<Rightarrow> (('m, 'g, 'priv, 'a, 'uri, 'w) IngestController, unit) outcome option"
where
  "IngestController_new E a g db file w =
     (let file_data = (if cfg_state_file (config E) then file else None);
          blank = \<lparr>controller_state = IngestControllerState_new (cfg_pubkey_expiry_window (config E)) (cfg_peers (config E)),
                   state_locked = False, enclave = SgxIngestEnclave_new (crypto E) a g, ctl_db = db,
                   last_sealed_key = None, state_file = file, outside = w\<rparr>
      in bnd (if file_data = None then ret () else expect (world_call (file_access (net E)))) (\<lambda>_.
         bnd (start_enclave E (map_option sf_sealed_ingress_key file_data)) (\<lambda>_.
         bnd (case file_data of
                None \<Rightarrow> ret ()
              | Some data \<Rightarrow> expect (restore_state_from_summary E (sf_summary data))) (\<lambda>_.
           write_state_file E))) blank)"

text \<open>The check of the configured peers in \<^verbatim>\<open>IngestServer::new\<close>: \<open>False\<close> is its panic.\<close>

definition peers_valid :: "('m, 'g, 'priv, 'pub, 'rnd, 'a, 'uri, 'w, 'rep) ctl_env \<Rightarrow> bool" where
  "peers_valid E \<longleftrightarrow>
     (case collect (map (responder_id (uri E)) (cfg_peers (config E))) of
        Inl _ \<Rightarrow> False
      | Inr peer_responder_ids \<Rightarrow>
          length (remdups peer_responder_ids) = length (cfg_peers (config E)) \<and>
          cfg_local_node_id (config E) \<in> set peer_responder_ids)"

end
