(* ===== verification/Controller_Inv.thy ===== *)
theory Controller_Inv
  imports Ingest_Controller Recovery_Mono
begin

text \<open>
  What the handlers of the ingest controller keep. A handler is \<open>quiet\<close> when it ends, with the lock
  as it was, without changing the controller state and the keys and counters of the enclave, and
  with a database that has grown by valid steps only: everything that talks to peers, the report
  cache or the database is. \<open>ctl_inv\<close> is the invariant of the controller; it includes that every
  search key the enclave has drawn is published.
\<close>

section \<open>Weakest preconditions of the accesses\<close>

lemma wp_with_state [wp_simps]:
  "wp t (with_state m) Q R = (\<lambda>s.
     if state_locked s then t else wp t m (\<lambda>x s'. Q x (s'\<lparr>state_locked := False\<rparr>)) R (s\<lparr>state_locked := True\<rparr>))"
proof
  fix s
  let ?m = "bnd m (\<lambda>x. bnd (modify (\<lambda>s. s\<lparr>state_locked := False\<rparr>)) (\<lambda>_. ret x))"
  have "wp t (with_state m) Q R s = (if state_locked s then t else wp t ?m Q R (s\<lparr>state_locked := True\<rparr>))"
    by (simp add: wp_def with_state_def)
  then show "wp t (with_state m) Q R s = (if state_locked s then t
      else wp t m (\<lambda>x s'. Q x (s'\<lparr>state_locked := False\<rparr>)) R (s\<lparr>state_locked := True\<rparr>))"
    by (simp add: wp_simps)
qed

lemma wp_on_state [wp_simps]:
  "wp t (on_state f) Q R = (\<lambda>s. case f (controller_state s) of (x, st) \<Rightarrow> Q x (s\<lparr>controller_state := st\<rparr>))"
  by (simp add: fun_eq_iff wp_def on_state_def split: prod.splits)

lemma wp_change_state [wp_simps]:
  "wp t (change_state f) Q R = (\<lambda>s. Q () (s\<lparr>controller_state := f (controller_state s)\<rparr>))"
  by (simp add: change_state_def wp_simps)

lemma wp_ecall [wp_simps]:
  "wp t (ecall f) Q R = (\<lambda>s. case f (enclave s) of (x, e) \<Rightarrow> Q x (s\<lparr>enclave := e\<rparr>))"
  by (simp add: fun_eq_iff wp_def ecall_def split: prod.splits)

lemma wp_ecall_some [wp_simps]:
  "wp t (ecall_some f) Q R = (\<lambda>s.
     case f (enclave s) of (r, e) \<Rightarrow> (case r of None \<Rightarrow> R (s\<lparr>enclave := e\<rparr>) | Some x \<Rightarrow> Q x (s\<lparr>enclave := e\<rparr>)))"
  by (auto simp: fun_eq_iff ecall_some_def wp_simps split: prod.splits option.splits)

lemma wp_world_call [wp_simps]:
  "wp t (world_call f) Q R = (\<lambda>s. case f (outside s) of (x, w) \<Rightarrow> Q x (s\<lparr>outside := w\<rparr>))"
  by (simp add: fun_eq_iff wp_def world_call_def split: prod.splits)

lemma wp_ake_call [wp_simps]:
  "wp t (ake_call f) Q R = (\<lambda>s.
     case f (ie_ake (enclave s)) of (x, a) \<Rightarrow> Q x (s\<lparr>enclave := (enclave s)\<lparr>ie_ake := a\<rparr>\<rparr>))"
  by (simp add: fun_eq_iff wp_def ake_call_def split: prod.splits)

lemma wp_both_call [wp_simps]:
  "wp t (both_call f) Q R = (\<lambda>s.
     case f (ie_ake (enclave s), outside s) of (x, a, w) \<Rightarrow>
       Q x (s\<lparr>enclave := (enclave s)\<lparr>ie_ake := a\<rparr>, outside := w\<rparr>))"
  by (simp add: fun_eq_iff wp_def both_call_def split: prod.splits)

lemma wp_db_call:
  "wp t (db_call E f) Q R = (\<lambda>s.
     case others E (outside s) (ctl_db s) of (db, w) \<Rightarrow>
     case f (clock E w) db of (r, db') \<Rightarrow>
       if r = Err Panic then R (s\<lparr>ctl_db := db', outside := w\<rparr>) else Q r (s\<lparr>ctl_db := db', outside := w\<rparr>))"
  by (auto simp: fun_eq_iff wp_def db_call_def Let_def split: prod.splits sum.splits db_error.splits)

section \<open>Quiet handlers\<close>

text \<open>The other servers only write to the database through its operations.\<close>

definition others_ok :: "('m, 'g, 'priv, 'pub, 'rnd, 'a, 'uri, 'w, 'rep) ctl_env \<Rightarrow> bool" where
  "others_ok E \<longleftrightarrow> (\<forall>w db. db_steps (enc_rows E) (enc_report E) db (fst (others E w db)))"

definition db_grows :: "recovery_db \<Rightarrow> recovery_db \<Rightarrow> bool" where
  "db_grows db db' \<longleftrightarrow> (db_inv db \<longrightarrow> db_inv db' \<and> db_le db db')"

lemma db_grows_refl [simp]: "db_grows db db"
  by (simp add: db_grows_def)

lemma db_grows_trans [trans]: "db_grows a b \<Longrightarrow> db_grows b c \<Longrightarrow> db_grows a c"
  by (auto simp: db_grows_def intro: db_le_trans)

lemma others_grow: "others_ok E \<Longrightarrow> others E w db = (db', w') \<Longrightarrow> db_grows db db'"
  unfolding others_ok_def db_grows_def by (metis db_steps_inv db_steps_le fst_conv)

lemma db_step_grows: "db_step enc er db db' \<Longrightarrow> db_grows db db'"
  by (simp add: db_grows_def db_step_inv db_step_le)

definition calm ::
  "('m, 'g, 'priv, 'a, 'uri, 'w) IngestController \<Rightarrow> ('m, 'g, 'priv, 'a, 'uri, 'w) IngestController \<Rightarrow> bool"
where
  "calm s s' \<longleftrightarrow>
     controller_state s' = controller_state s \<and> last_sealed_key s' = last_sealed_key s \<and> state_file s' = state_file s \<and>
     ingress_key (enclave s') = ingress_key (enclave s) \<and> egress_key (enclave s') = egress_key (enclave s) \<and>
     rng_store (enclave s') = rng_store (enclave s) \<and> mc_rng (enclave s') = mc_rng (enclave s) \<and>
     db_grows (ctl_db s) (ctl_db s')"

lemma calm_refl [simp]: "calm s s"
  by (simp add: calm_def)

lemma calm_trans: "calm a b \<Longrightarrow> calm b c \<Longrightarrow> calm a c"
  by (auto simp: calm_def intro: db_grows_trans)

lemma calm_locked [simp]:
  "calm (s\<lparr>state_locked := b\<rparr>) s' = calm s s'" "calm s (s'\<lparr>state_locked := b\<rparr>) = calm s s'"
  by (simp_all add: calm_def)

text \<open>The first argument says whether the handler takes the lock.\<close>

definition quiet :: "bool \<Rightarrow> (('m, 'g, 'priv, 'a, 'uri, 'w) IngestController, 'x) run \<Rightarrow> bool" where
  "quiet l m \<longleftrightarrow>
     (\<forall>s. (l \<longrightarrow> \<not> state_locked s) \<longrightarrow> wp False m (\<lambda>_ s'. calm s s' \<and> state_locked s' = state_locked s) (calm s) s)"

named_theorems quiet_intros

lemma quietD:
  "quiet l m \<Longrightarrow> (l \<Longrightarrow> \<not> state_locked s) \<Longrightarrow>
     wp t m (\<lambda>_ s'. calm s s' \<and> state_locked s' = state_locked s) (calm s) s"
  unfolding quiet_def by (rule wp_mono [of False m "\<lambda>_ s'. calm s s' \<and> state_locked s' = state_locked s" "calm s"]) auto

lemma quiet_weaken: "quiet False m \<Longrightarrow> quiet l m"
  by (simp add: quiet_def)

lemma quiet_ret [quiet_intros]: "quiet l (ret x)"
  by (simp add: quiet_def wp_simps)

lemma quiet_panic [quiet_intros]: "quiet l panic"
  by (simp add: quiet_def wp_simps)

lemma quiet_gets [quiet_intros]: "quiet l (gets f)"
  by (simp add: quiet_def wp_simps)

lemma quiet_bnd [quiet_intros]:
  fixes m :: "(('m, 'g, 'priv, 'a, 'uri, 'w) IngestController, 'x) run"
  assumes m: "quiet l m" and f: "\<And>x. quiet l (f x)"
  shows "quiet l (bnd m f)"
  unfolding quiet_def wp_bnd
proof (intro allI impI)
  fix s :: "('m, 'g, 'priv, 'a, 'uri, 'w) IngestController"
  assume lock: "l \<longrightarrow> \<not> state_locked s"
  show "wp False m (\<lambda>x. wp False (f x) (\<lambda>_ s'. calm s s' \<and> state_locked s' = state_locked s) (calm s)) (calm s) s"
  proof (rule wp_mono [OF quietD [OF m]])
    fix x s1
    assume "calm s s1 \<and> state_locked s1 = state_locked s"
    then show "wp False (f x) (\<lambda>_ s'. calm s s' \<and> state_locked s' = state_locked s) (calm s) s1"
      using lock by (intro wp_mono [OF quietD [OF f, of s1]]) (auto intro: calm_trans)
  qed (use lock in auto)
qed

lemma quiet_attempt [quiet_intros]:
  "quiet l m \<Longrightarrow> (\<And>x. quiet l (f x)) \<Longrightarrow> quiet l (attempt conv m f)"
  unfolding attempt_def by (intro quiet_bnd) (auto split: sum.splits intro: quiet_ret)

lemma quiet_expect [quiet_intros]: "quiet l m \<Longrightarrow> quiet l (expect m)"
  unfolding expect_def by (intro quiet_bnd) (auto split: sum.splits intro: quiet_ret quiet_panic)

lemma quiet_for_each [quiet_intros]: "(\<And>x. x \<in> set xs \<Longrightarrow> quiet l (f x)) \<Longrightarrow> quiet l (for_each f xs)"
  by (induction xs) (auto intro: quiet_ret quiet_attempt)

lemma quiet_with_state:
  assumes "quiet False m"
  shows "quiet True (with_state m)"
proof -
  have "wp False m (\<lambda>x s'. calm s (s'\<lparr>state_locked := False\<rparr>) \<and> True) (calm s) (s\<lparr>state_locked := True\<rparr>)" for s
    by (rule wp_mono [OF quietD [OF assms, of "s\<lparr>state_locked := True\<rparr>"]]) auto
  then show ?thesis by (simp add: quiet_def wp_with_state)
qed

lemma quiet_world_call [quiet_intros]: "quiet l (world_call f)"
  by (auto simp: quiet_def wp_simps calm_def split: prod.splits)

lemma quiet_ake_call [quiet_intros]: "quiet l (ake_call f)"
  by (auto simp: quiet_def wp_simps calm_def split: prod.splits)

lemma quiet_both_call [quiet_intros]: "quiet l (both_call f)"
  by (auto simp: quiet_def wp_simps calm_def split: prod.splits)

lemma quiet_db_call:
  fixes E :: "('m, 'g, 'priv, 'pub, 'rnd, 'a, 'uri, 'w, 'rep) ctl_env"
  assumes "others_ok E" "\<And>now db. db_grows db (snd (f now db))"
  shows "quiet l (db_call E f)"
  unfolding quiet_def
proof (intro allI impI)
  fix s :: "('m, 'g, 'priv, 'a, 'uri, 'w) IngestController"
  obtain db w where o: "others E (outside s) (ctl_db s) = (db, w)" by (metis surj_pair)
  obtain r db' where f: "f (clock E w) db = (r, db')" by (metis surj_pair)
  have "db_grows (ctl_db s) db'"
    using others_grow [OF assms(1) o] assms(2) [of db "clock E w"] f by (auto intro: db_grows_trans)
  then show "wp False (db_call E f) (\<lambda>_ s'. calm s s' \<and> state_locked s' = state_locked s) (calm s) s"
    by (simp add: wp_db_call o f calm_def)
qed

lemma quiet_get_ingress_private_key [quiet_intros]: "quiet l (ecall (get_ingress_private_key C K P peer))"
  by (auto simp: quiet_def wp_simps calm_def get_ingress_private_key_def split: prod.splits sum.splits if_splits)

lemma quiet_peer_attest [quiet_intros]: "quiet l (peer_attest E conn)"
  unfolding peer_attest_def by (intro quiet_intros)

lemma quiet_ensure_attested [quiet_intros]: "quiet l (ensure_attested E conn)"
  unfolding ensure_attested_def by (auto intro: quiet_intros)

lemma quiet_peer_get_status [quiet_intros]: "quiet l (peer_get_status E conn)"
  unfolding peer_get_status_def by (intro quiet_intros)

lemma quiet_peer_set_peers [quiet_intros]: "quiet l (peer_set_peers E ps conn)"
  unfolding peer_set_peers_def by (intro quiet_intros)

lemma quiet_peer_get_key [quiet_intros]: "quiet l (peer_get_ingress_private_key E conn)"
  unfolding peer_get_ingress_private_key_def
  by (rule quiet_attempt [OF quiet_ensure_attested]) (auto split: option.splits intro!: quiet_intros)

lemma quiet_peer_set_key [quiet_intros]: "quiet l (peer_set_ingress_private_key E k conn)"
  unfolding peer_set_ingress_private_key_def
  by (rule quiet_attempt [OF quiet_ensure_attested]) (auto split: option.splits prod.splits intro!: quiet_intros)

lemma quiet_confirm_key [quiet_intros]: "quiet l (confirm_key E conn summary ours upd)"
  unfolding confirm_key_def by (auto intro!: quiet_intros)

lemma quiet_confirm_peers [quiet_intros]: "quiet l (confirm_peers E conn summary ours upd)"
  unfolding confirm_peers_def by (auto intro!: quiet_intros)

lemma quiet_confirm_backup_cached: "quiet l (confirm_backup E conn summary k (Some ps) upd)"
  unfolding confirm_backup_def
  by (rule quiet_attempt) (auto split: option.splits IngestMode.splits intro!: quiet_intros)

lemma quiet_confirm_backup: "quiet True (confirm_backup E conn summary k None upd)"
  unfolding confirm_backup_def
  by (rule quiet_attempt) (auto split: option.splits IngestMode.splits intro!: quiet_intros quiet_with_state)

lemma quiet_PeerConnection_new [quiet_intros]: "quiet l (PeerConnection_new U u)"
  unfolding PeerConnection_new_def by (auto split: sum.splits intro: quiet_intros)

lemma quiet_open_peers [quiet_intros]: "quiet l (open_peers E ps)"
  by (induction ps) (auto split: sum.splits intro!: quiet_intros)

lemma quiet_check_statuses [quiet_intros]: "quiet l (check_statuses E conns)"
  by (induction conns) (auto split: IngestMode.splits intro!: quiet_intros)

lemma quiet_report_cache [quiet_intros]: "quiet l (update_enclave_report_cache E)"
  unfolding update_enclave_report_cache_def by (intro quiet_intros)

lemma quiet_summary_inner [quiet_intros]: "quiet l (get_ingest_summary_inner E)"
  unfolding get_ingest_summary_inner_def by (auto split: option.splits intro!: quiet_intros)

lemma quiet_summary: "quiet True (get_ingest_summary E)"
  unfolding get_ingest_summary_def by (intro quiet_with_state quiet_intros)

text \<open>The operations of the database that the controller calls.\<close>

lemma grows_reads [simp]:
  "db_grows db (snd (get_ingress_key_status k db))" "db_grows db (snd (get_last_scanned_block_index k db))"
  "db_grows db (snd (get_highest_known_block_index db))" "db_grows db (snd (get_missed_block_ranges db))"
  by (cases "pool_up db"; simp add: get_ingress_key_status_def get_last_scanned_block_index_def
      get_highest_known_block_index_def get_missed_block_ranges_def)+

lemma grows_new_ingress_key: "length k = 32 \<Longrightarrow> db_grows db (snd (new_ingress_key k start db))"
  by (rule db_step_grows [OF step_new_key])

lemma grows_retire [simp]: "db_grows db (snd (retire_ingress_key k b db))"
  by (rule db_step_grows [OF step_retire])

lemma grows_report_lost [simp]: "db_grows db (snd (report_lost_ingress_key k db))"
  by (rule db_step_grows [OF step_report_lost])

lemma grows_set_report [simp]: "db_grows db (snd (set_report er k rid data db))"
  by (rule db_step_grows [OF step_set_report])

lemma grows_decommission [simp]: "db_grows db (snd (decommission_ingest_invocation now iid db))"
  by (rule db_step_grows [OF step_decommission])

lemma grows_new_invocation:
  "length k = 32 \<Longrightarrow> db_grows db (snd (new_ingest_invocation now prev k egress start db))"
  by (rule db_step_grows [OF step_new_invocation])

lemma grows_add_block [simp]: "db_grows db (snd (add_block_data enc now iid block ts txs db))"
  by (rule db_step_grows [OF step_add_block])

lemma quiet_publish_report: "others_ok E \<Longrightarrow> quiet l (publish_report E k)"
  unfolding publish_report_def Let_def by (intro quiet_intros quiet_db_call) simp_all

lemma quiet_find_start_block: "others_ok E \<Longrightarrow> length k = 32 \<Longrightarrow> quiet l (find_start_block E k n)"
  unfolding find_start_block_def Let_def
  by (rule quiet_attempt)
     (auto split: option.splits intro!: quiet_intros quiet_db_call grows_new_ingress_key)

lemma quiet_retire: "others_ok E \<Longrightarrow> quiet True (ctl_retire E b)"
  unfolding ctl_retire_def by (intro quiet_intros quiet_db_call quiet_summary) simp_all

lemma quiet_report_lost: "others_ok E \<Longrightarrow> quiet l (ctl_report_lost_ingress_key E k)"
  unfolding ctl_report_lost_ingress_key_def by (intro quiet_db_call) simp_all

lemma quiet_peer_checkup: "quiet True (peer_checkup E)"
  unfolding peer_checkup_def
proof (rule quiet_bnd)
  have "quiet True (peer_checkup_one E p)" for p
    unfolding peer_checkup_one_def
    by (auto split: sum.splits PeerBackupError.splits PeerConnError.splits
        intro!: quiet_intros quiet_confirm_backup)
  then show "quiet True (if is_idle st \<or> cs_peers st = [] then ret ()
      else bnd (update_enclave_report_cache E) (\<lambda>_. bnd (for_each (peer_checkup_one E) (cs_peers st)) (\<lambda>_. ret ())))" for st
    by (auto intro!: quiet_intros)
qed (intro quiet_with_state quiet_intros)

section \<open>The invariant of the controller\<close>

text \<open>
  What is relied on of the parameters: the laws of the oblivious map and of the key exchange, a crypto
  box that never fails, public keys of 32 bytes that parse back, blobs that decode, and other servers
  that use the database through its operations.
\<close>

definition ctl_laws ::
  "('m, 'g, 'priv, 'pub, 'rnd, 'a, 'uri, 'w, 'rep) ctl_env \<Rightarrow> ('m \<Rightarrow> bytes \<rightharpoonup> bytes) \<Rightarrow> (bytes \<Rightarrow> ETxOutRecord list option) \<Rightarrow> bool"
where
  "ctl_laws E content dec \<longleftrightarrow>
     omap_laws 32 8 (omap E) content \<and> secret_laws (kex E) \<and> (\<forall>g p m. fst (box_encrypt (crypto E) g p m) \<noteq> None) \<and>
     (\<forall>p. length (Public_bytes (kex E) p) = 32 \<and> key_try_from E (Public_bytes (kex E) p) = Ok (Public_bytes (kex E) p)) \<and>
     (\<forall>rows. dec (enc_rows E rows) = Some rows) \<and> others_ok E"

lemma ctl_lawsD:
  assumes "ctl_laws E content dec"
  shows "omap_laws 32 8 (omap E) content" "secret_laws (kex E)" "\<And>g p m. fst (box_encrypt (crypto E) g p m) \<noteq> None"
    and "length (Public_bytes (kex E) p) = 32" "key_try_from E (Public_bytes (kex E) p) = Ok (Public_bytes (kex E) p)"
    and "dec (enc_rows E rows) = Some rows" "others_ok E"
  using assms by (simp_all add: ctl_laws_def)

lemma our_pubkey_len: "ctl_laws E content dec \<Longrightarrow> length (our_pubkey E s) = 32"
  by (simp add: our_pubkey_def ctl_laws_def)

text \<open>
  An invocation is announced in the database with the ingress key and the egress key of the enclave,
  a search key is published when a block of the database has it, and the counters of the enclave have
  no gaps when every search key they have passed is published.
\<close>

definition announced ::
  "('m, 'g, 'priv, 'pub, 'rnd, 'a, 'uri, 'w, 'rep) ctl_env \<Rightarrow> recovery_db \<Rightarrow> ('m, 'g, 'priv, 'a) SgxIngestEnclave \<Rightarrow> i64 \<Rightarrow> bool"
where
  "announced E db e i \<longleftrightarrow>
     (\<exists>r \<in> set (ingest_invocations db). ii_id r = i \<and>
        ii_ingress_key r = Public_bytes (kex E) (get_ingress_pubkey (kex E) e) \<and>
        ii_egress_key r = kp_public_key (egress_pubkey (kex E) (rng_core E) (egress_key e)) \<and>
        ii_rng_version r = sint (kp_version (egress_pubkey (kex E) (rng_core E) (egress_key e))))"

definition published :: "(bytes \<Rightarrow> ETxOutRecord list option) \<Rightarrow> recovery_db \<Rightarrow> bytes \<Rightarrow> bool" where
  "published dec db k \<longleftrightarrow>
     (\<exists>b \<in> set (ingested_blocks db). \<exists>rows. dec (ib_data b) = Some rows \<and> k \<in> search_key ` set rows)"

definition no_gaps ::
  "('m, 'g, 'priv, 'pub, 'rnd, 'a, 'uri, 'w, 'rep) ctl_env \<Rightarrow> ('m \<Rightarrow> bytes \<rightharpoonup> bytes) \<Rightarrow> (bytes \<Rightarrow> ETxOutRecord list option) \<Rightarrow> recovery_db
     \<Rightarrow> ('m, 'g, 'priv, 'a) SgxIngestEnclave \<Rightarrow> bool"
where
  "no_gaps E content dec db e \<longleftrightarrow>
     (\<forall>secret c. c < enclave_counter content e secret \<longrightarrow> published dec db (core_prf (rng_core E) secret c))"

definition fresh_egress :: "('m \<Rightarrow> bytes \<rightharpoonup> bytes) \<Rightarrow> ('m, 'g, 'priv, 'a) SgxIngestEnclave \<Rightarrow> bool" where
  "fresh_egress content e \<longleftrightarrow> (\<forall>secret. enclave_counter content e secret = 0)"

text \<open>The cached sealed key is the sealed ingress key.\<close>

definition sealed_ok :: "('m, 'g, 'priv, 'pub, 'rnd, 'a, 'uri, 'w, 'rep) ctl_env \<Rightarrow> ('m, 'g, 'priv, 'a, 'uri, 'w) IngestController \<Rightarrow> bool" where
  "sealed_ok E s \<longleftrightarrow>
     (\<forall>b k. last_sealed_key s = Some (b, k) \<longrightarrow>
        seal_raw (crypto E) (private_bytes (crypto E) (ingress_key (enclave s))) = Some b \<and> k = our_pubkey E s)"

definition ctl_inv ::
  "('m, 'g, 'priv, 'pub, 'rnd, 'a, 'uri, 'w, 'rep) ctl_env \<Rightarrow> ('m \<Rightarrow> bytes \<rightharpoonup> bytes) \<Rightarrow> (bytes \<Rightarrow> ETxOutRecord list option) \<Rightarrow> ('m, 'g, 'priv, 'a, 'uri, 'w) IngestController \<Rightarrow> bool"
where
  "ctl_inv E content dec s \<longleftrightarrow>
     db_inv (ctl_db s) \<and> enclave_store_ok (enclave s) \<and> sealed_ok E s \<and>
     (is_idle (controller_state s) \<longrightarrow> cs_ingest_invocation_id (controller_state s) = None) \<and>
     (case cs_ingest_invocation_id (controller_state s) of
        None \<Rightarrow> fresh_egress content (enclave s)
      | Some i \<Rightarrow> announced E (ctl_db s) (enclave s) i \<and> no_gaps E content dec (ctl_db s) (enclave s))"

lemma db_le_invocation:
  assumes "db_le db db'" "r \<in> set (ingest_invocations db)"
  obtains r' where "r' \<in> set (ingest_invocations db')" "ii_static r' = ii_static r"
proof -
  have "set (map ii_static (ingest_invocations db)) \<subseteq> set (map ii_static (ingest_invocations db'))"
    using assms(1) by (intro set_mono_prefix) (simp add: db_le_def)
  then have "ii_static r \<in> set (map ii_static (ingest_invocations db'))" using assms(2) by auto
  then show thesis using that by auto
qed

lemma announced_mono:
  assumes "announced E db e i" "db_le db db'"
  shows "announced E db' e i"
proof -
  obtain r where r: "r \<in> set (ingest_invocations db)" "ii_id r = i"
      "ii_ingress_key r = Public_bytes (kex E) (get_ingress_pubkey (kex E) e)"
      "ii_egress_key r = kp_public_key (egress_pubkey (kex E) (rng_core E) (egress_key e))"
      "ii_rng_version r = sint (kp_version (egress_pubkey (kex E) (rng_core E) (egress_key e)))"
    using assms(1) by (auto simp: announced_def)
  obtain r' where "r' \<in> set (ingest_invocations db')" "ii_static r' = ii_static r"
    by (rule db_le_invocation [OF assms(2) r(1)])
  with r show ?thesis by (auto simp: announced_def ii_static_def intro!: bexI [of _ r'])
qed

lemma rows_published_mono: "published dec db k \<Longrightarrow> db_le db db' \<Longrightarrow> published dec db' k"
  unfolding published_def db_le_def by (meson set_mono_prefix subsetD)

lemma no_gaps_mono: "no_gaps E content dec db e \<Longrightarrow> db_le db db' \<Longrightarrow> no_gaps E content dec db' e"
  unfolding no_gaps_def by (meson rows_published_mono)

lemma enclave_eqI:
  assumes "rng_store e' = rng_store e"
  shows "enclave_counter content e' = enclave_counter content e" "enclave_store_ok e' = enclave_store_ok e"
  using assms by (simp_all add: enclave_counter_def enclave_store_ok_def fun_eq_iff)

lemma ctl_inv_calm:
  assumes "ctl_inv E content dec s" "calm s s'"
  shows "ctl_inv E content dec s'"
proof -
  have c: "controller_state s' = controller_state s" "last_sealed_key s' = last_sealed_key s"
    "ingress_key (enclave s') = ingress_key (enclave s)" "egress_key (enclave s') = egress_key (enclave s)"
    "db_inv (ctl_db s')" "db_le (ctl_db s) (ctl_db s')"
    using assms by (auto simp: calm_def ctl_inv_def db_grows_def)
  have st: "rng_store (enclave s') = rng_store (enclave s)" using assms(2) by (simp add: calm_def)
  have eq: "our_pubkey E s' = our_pubkey E s" "announced E db (enclave s') = announced E db (enclave s)"
    "no_gaps E content dec db (enclave s') = no_gaps E content dec db (enclave s)"
    "fresh_egress content (enclave s') = fresh_egress content (enclave s)" for db
    by (simp_all add: our_pubkey_def get_ingress_pubkey_def announced_def no_gaps_def fresh_egress_def
        c enclave_eqI [OF st] fun_eq_iff)
  show ?thesis
    using assms(1) c
    by (auto simp: ctl_inv_def sealed_ok_def eq enclave_eqI [OF st] split: option.splits
        intro: announced_mono no_gaps_mono)
qed

lemma ctl_inv_locked [simp]: "ctl_inv E content dec (s\<lparr>state_locked := b\<rparr>) = ctl_inv E content dec s"
  by (simp add: ctl_inv_def sealed_ok_def our_pubkey_def cong: option.case_cong)

section \<open>The state file\<close>

definition full_summary :: "('m, 'g, 'priv, 'pub, 'rnd, 'a, 'uri, 'w, 'rep) ctl_env \<Rightarrow> ('m, 'g, 'priv, 'a, 'uri, 'w) IngestController \<Rightarrow> IngestSummary" where
  "full_summary E s =
     (state_summary (uri E) (controller_state s))
       \<lparr>sm_ingress_pubkey := our_pubkey E s,
        sm_egress_pubkey := kp_public_key (egress_pubkey (kex E) (rng_core E) (egress_key (enclave s))),
        sm_kex_rng_version := kp_version (egress_pubkey (kex E) (rng_core E) (egress_key (enclave s)))\<rparr>"

text \<open>The state file, if there is one, has the summary of the state and the sealed ingress key.\<close>

definition filed :: "('m, 'g, 'priv, 'pub, 'rnd, 'a, 'uri, 'w, 'rep) ctl_env \<Rightarrow> ('m, 'g, 'priv, 'a, 'uri, 'w) IngestController \<Rightarrow> bool" where
  "filed E s \<longleftrightarrow>
     (cfg_state_file (config E) \<longrightarrow>
        (\<exists>sealed. seal_raw (crypto E) (private_bytes (crypto E) (ingress_key (enclave s))) = Some sealed \<and>
           state_file s = Some \<lparr>sf_summary = full_summary E s, sf_sealed_ingress_key = sealed\<rparr>))"

text \<open>\<open>wrote E s s'\<close>: only the file, the cached sealed key and the world changed, and the file is right.\<close>

definition wrote :: "('m, 'g, 'priv, 'pub, 'rnd, 'a, 'uri, 'w, 'rep) ctl_env \<Rightarrow> ('m, 'g, 'priv, 'a, 'uri, 'w) IngestController \<Rightarrow> ('m, 'g, 'priv, 'a, 'uri, 'w) IngestController \<Rightarrow> bool" where
  "wrote E s s' \<longleftrightarrow>
     controller_state s' = controller_state s \<and> state_locked s' = state_locked s \<and> enclave s' = enclave s \<and>
     ctl_db s' = ctl_db s \<and> sealed_ok E s' \<and> filed E s'"

lemma filed_locked [simp]: "filed E (s\<lparr>state_locked := b\<rparr>) = filed E s"
  by (simp add: filed_def full_summary_def our_pubkey_def)

lemma wp_summary_inner:
  assumes "rng_store (enclave s) \<noteq> None" "Q (full_summary E s) s"
  shows "wp t (get_ingest_summary_inner E) Q R s"
  using assms by (auto simp: get_ingest_summary_inner_def wp_simps get_kex_rng_pubkey_def full_summary_def)

lemma wp_seal_attempt:
  assumes "ctl_laws E content dec" "rng_store (enclave s) \<noteq> None" "sealed_ok E s"
  shows "wp t (seal_attempt E) (\<lambda>r s'. \<exists>sealed. r = Ok (full_summary E s, sealed) \<and>
      seal_raw (crypto E) (private_bytes (crypto E) (ingress_key (enclave s))) = Some sealed \<and>
      s' = s\<lparr>last_sealed_key := Some (sealed, our_pubkey E s)\<rparr>) (\<lambda>s'. ctl_db s' = ctl_db s \<and>
        seal_raw (crypto E) (private_bytes (crypto E) (ingress_key (enclave s))) = None) s"
  unfolding seal_attempt_def wp_bnd
proof (rule wp_summary_inner [OF assms(2)])
  have key: "key_try_from E (sm_ingress_pubkey (full_summary E s)) = Ok (our_pubkey E s)"
    using ctl_lawsD(5) [OF assms(1)] by (simp add: full_summary_def our_pubkey_def)
  show "wp t (case key_try_from E (sm_ingress_pubkey (full_summary E s)) of Inl _ \<Rightarrow> panic
      | Inr ingress_pubkey \<Rightarrow>
           bnd (gets last_sealed_key) (\<lambda>cached.
           bnd (case cached of
                  Some sealed \<Rightarrow> ret sealed
                | None \<Rightarrow> expect (gets (\<lambda>s. get_sealed_ingress_private_key (crypto E) (kex E) (enclave s)
                                            :: (string ingest_enclave_error, bytes \<times> bytes) result))) (\<lambda>(sealed, pubkey).
             if pubkey = ingress_pubkey
             then bnd (modify (\<lambda>s. s\<lparr>last_sealed_key := Some (sealed, pubkey)\<rparr>)) (\<lambda>_. ret (Ok (full_summary E s, sealed)))
             else bnd (modify (\<lambda>s. s\<lparr>last_sealed_key := None\<rparr>)) (\<lambda>_. ret (Err ())))))
      (\<lambda>r s'. \<exists>sealed. r = Ok (full_summary E s, sealed) \<and>
        seal_raw (crypto E) (private_bytes (crypto E) (ingress_key (enclave s))) = Some sealed \<and>
        s' = s\<lparr>last_sealed_key := Some (sealed, our_pubkey E s)\<rparr>) (\<lambda>s'. ctl_db s' = ctl_db s \<and>
        seal_raw (crypto E) (private_bytes (crypto E) (ingress_key (enclave s))) = None) s"
    using assms(3)
    by (auto simp: key wp_simps sealed_ok_def get_sealed_ingress_private_key_def seal_private_key_def
        our_pubkey_def get_ingress_pubkey_def split: option.splits)
qed

lemma wp_write_state_file_inner:
  assumes laws: "ctl_laws E content dec" and "rng_store (enclave s) \<noteq> None" "sealed_ok E s"
  shows "wp t (write_state_file_inner E) (\<lambda>_. wrote E s) (\<lambda>s'. ctl_db s' = ctl_db s) s"
proof (cases "cfg_state_file (config E)")
  case True
  have "wp t (retry (seal_attempt E)) (\<lambda>x s'. \<exists>sealed. x = (full_summary E s, sealed) \<and>
      seal_raw (crypto E) (private_bytes (crypto E) (ingress_key (enclave s))) = Some sealed \<and>
      s' = s\<lparr>last_sealed_key := Some (sealed, our_pubkey E s)\<rparr>) (\<lambda>s'. ctl_db s' = ctl_db s) s"
    by (subst wp_retry_unfold, rule wp_mono [OF wp_seal_attempt [OF assms]]) auto
  then have "wp t (retry (seal_attempt E)) (\<lambda>x. wp t (expect (world_call (file_access (net E))))
      (\<lambda>_ s'. wrote E s (s'\<lparr>state_file := Some \<lparr>sf_summary = fst x, sf_sealed_ingress_key = snd x\<rparr>\<rparr>))
      (\<lambda>s'. ctl_db s' = ctl_db s)) (\<lambda>s'. ctl_db s' = ctl_db s) s"
    by (rule wp_mono)
       (auto simp: wp_simps wrote_def filed_def full_summary_def True sealed_ok_def our_pubkey_def split: prod.splits sum.splits)
  then show ?thesis
    by (simp add: write_state_file_inner_def True wp_simps case_prod_beta)
next
  case False
  then show ?thesis using assms by (simp add: write_state_file_inner_def wp_simps wrote_def filed_def)
qed

lemma ctl_inv_wrote:
  assumes "ctl_inv E content dec s" "wrote E s s'"
  shows "ctl_inv E content dec s'"
  using assms by (auto simp: ctl_inv_def wrote_def split: option.splits)

lemma ctl_inv_store: "ctl_inv E content dec s \<Longrightarrow> rng_store (enclave s) \<noteq> None"
  by (auto simp: ctl_inv_def enclave_store_ok_def)

lemma wrote_locked [simp]: "wrote E (s\<lparr>state_locked := b\<rparr>) s' \<Longrightarrow> state_locked s = c \<Longrightarrow> wrote E s (s'\<lparr>state_locked := c\<rparr>)"
  by (auto simp: wrote_def sealed_ok_def our_pubkey_def)

lemma wp_write_state_file:
  assumes "ctl_laws E content dec" "rng_store (enclave s) \<noteq> None" "sealed_ok E s" "\<not> state_locked s"
  shows "wp t (write_state_file E) (\<lambda>_. wrote E s) (\<lambda>s'. ctl_db s' = ctl_db s) s"
proof -
  let ?s = "s\<lparr>state_locked := True\<rparr>"
  have "wp t (write_state_file_inner E) (\<lambda>_. wrote E ?s) (\<lambda>s'. ctl_db s' = ctl_db ?s) ?s"
    by (rule wp_write_state_file_inner [OF assms(1)]) (use assms in \<open>auto simp: sealed_ok_def our_pubkey_def\<close>)
  then have "wp t (write_state_file_inner E) (\<lambda>_ s'. wrote E s (s'\<lparr>state_locked := False\<rparr>)) (\<lambda>s'. ctl_db s' = ctl_db s) ?s"
    by (rule wp_mono) (use assms(4) in auto)
  then show ?thesis using assms(4) by (simp add: write_state_file_def wp_simps)
qed

section \<open>New keys\<close>

lemma wp_decommission_id:
  assumes "others_ok E"
  shows "wp t (decommission_ingest_invocation_id E)
     (\<lambda>_ s'. \<exists>s1. calm s s1 \<and> state_locked s1 = state_locked s \<and>
        s' = s1\<lparr>controller_state := (controller_state s)\<lparr>cs_ingest_invocation_id := None\<rparr>\<rparr>) (calm s) s"
proof (cases "cs_ingest_invocation_id (controller_state s)")
  case None
  then show ?thesis
    by (auto simp: decommission_ingest_invocation_id_def wp_simps intro!: exI [of _ s])
next
  case (Some iid)
  have q: "quiet False (db_call E (\<lambda>now. decommission_ingest_invocation now iid))"
    by (rule quiet_db_call [OF assms]) simp
  have "wp t (db_call E (\<lambda>now. decommission_ingest_invocation now iid))
     (\<lambda>_ s1. \<exists>s2. calm s s2 \<and> state_locked s2 = state_locked s \<and>
        s1\<lparr>controller_state := (controller_state s1)\<lparr>cs_ingest_invocation_id := None\<rparr>\<rparr> =
        s2\<lparr>controller_state := (controller_state s)\<lparr>cs_ingest_invocation_id := None\<rparr>\<rparr>) (calm s) s"
    by (rule wp_mono [OF quietD [OF q]]) (auto simp: calm_def)
  then show ?thesis by (simp add: decommission_ingest_invocation_id_def wp_simps Some)
qed

text \<open>The server has a new egress key, with no invocation for it yet.\<close>

definition egress_reset :: "('m \<Rightarrow> bytes \<rightharpoonup> bytes) \<Rightarrow> ('m, 'g, 'priv, 'pub, 'rnd, 'a, 'uri, 'w, 'rep) ctl_env \<Rightarrow> ('m, 'g, 'priv, 'a, 'uri, 'w) IngestController \<Rightarrow> ('m, 'g, 'priv, 'a, 'uri, 'w) IngestController \<Rightarrow> bool" where
  "egress_reset content E s s' \<longleftrightarrow>
     controller_state s' = (controller_state s)\<lparr>cs_ingest_invocation_id := None\<rparr> \<and> state_locked s' = state_locked s \<and>
     ingress_key (enclave s') = ingress_key (enclave s) \<and> enclave_store_ok (enclave s') \<and>
     fresh_egress content (enclave s') \<and> db_grows (ctl_db s) (ctl_db s') \<and> sealed_ok E s' \<and> filed E s'"

lemma new_egress_key_spec:
  assumes "omap_laws 32 8 M content" "enclave_store_ok e"
  obtains e' where "new_egress_key C M e = (Some (), e')" "ingress_key e' = ingress_key e"
    "enclave_store_ok e'" "fresh_egress content e'"
proof -
  obtain store where store: "rng_store e = Some store" using assms(2) by (auto simp: enclave_store_ok_def)
  obtain egress g1 where rp: "random_private C (mc_rng e) = (egress, g1)" by (metis surj_pair)
  show thesis
    by (rule that [of "e\<lparr>egress_key := egress, mc_rng := g1, rng_store := Some (RngStore_clear M store)\<rparr>"])
       (use fresh_counters(3,4) [OF assms(1)] in
        \<open>auto simp: new_egress_key_def store rp enclave_store_ok_def fresh_egress_def enclave_counter_def\<close>)
qed

lemma wp_new_egress_key:
  assumes laws: "ctl_laws E content dec" and idle: "is_idle (controller_state s)" and store: "enclave_store_ok (enclave s)"
  shows "wp t (ctl_new_egress_key E) (\<lambda>r s'. r = Ok () \<and> egress_reset content E s s')
           (\<lambda>s'. db_grows (ctl_db s) (ctl_db s')) s"
proof -
  let ?R = "\<lambda>s'. db_grows (ctl_db s) (ctl_db s')"
  have "wp t (bnd (ecall_some (new_egress_key (crypto E) (omap E))) (\<lambda>_.
            bnd forget_sealed_key (\<lambda>_. bnd (write_state_file_inner E) (\<lambda>_. ret (Ok ())))))
        (\<lambda>r s'. r = Ok () \<and> egress_reset content E s s') ?R s1"
    if "calm s s2" "state_locked s2 = state_locked s"
      "s1 = s2\<lparr>controller_state := (controller_state s)\<lparr>cs_ingest_invocation_id := None\<rparr>\<rparr>" for s1 s2
  proof -
    have "rng_store (enclave s1) = rng_store (enclave s)" using that by (simp add: calm_def)
    from enclave_eqI(2) [OF this] have "enclave_store_ok (enclave s1)" using store by simp
    then obtain e' where e': "new_egress_key (crypto E) (omap E) (enclave s1) = (Some (), e')"
        "ingress_key e' = ingress_key (enclave s1)" "enclave_store_ok e'" "fresh_egress content e'"
      by (rule new_egress_key_spec [OF ctl_lawsD(1) [OF laws]])
    let ?s = "s1\<lparr>enclave := e', last_sealed_key := None\<rparr>"
    have "wp t (write_state_file_inner E) (\<lambda>_. wrote E ?s) (\<lambda>s'. ctl_db s' = ctl_db ?s) ?s"
      by (rule wp_write_state_file_inner [OF laws]) (use e'(3) in \<open>auto simp: sealed_ok_def enclave_store_ok_def\<close>)
    then have "wp t (write_state_file_inner E) (\<lambda>_ s'. egress_reset content E s s') ?R ?s"
      by (rule wp_mono) (use that e' in \<open>auto simp: wrote_def egress_reset_def calm_def\<close>)
    then show ?thesis by (simp add: wp_simps e'(1) forget_sealed_key_def)
  qed
  then have "wp t (decommission_ingest_invocation_id E)
     (\<lambda>_. wp t (bnd (ecall_some (new_egress_key (crypto E) (omap E))) (\<lambda>_.
            bnd forget_sealed_key (\<lambda>_. bnd (write_state_file_inner E) (\<lambda>_. ret (Ok ())))))
        (\<lambda>r s'. r = Ok () \<and> egress_reset content E s s') ?R) ?R s"
    by (intro wp_mono [OF wp_decommission_id [OF ctl_lawsD(7) [OF laws]]]) (auto simp: calm_def)
  then show ?thesis using idle by (simp add: ctl_new_egress_key_def wp_simps)
qed

lemma ctl_inv_egress_reset:
  assumes "egress_reset content E s s'" "db_inv (ctl_db s)"
  shows "ctl_inv E content dec s'"
  using assms by (auto simp: ctl_inv_def egress_reset_def db_grows_def)

end
