(* ===== verification/Controller_Block.thy ===== *)
theory Controller_Block
  imports Controller_Inv
begin

text \<open>
  What \<^verbatim>\<open>process_next_block\<close> of the ingest controller does: every output of the block whose hint names
  a recipient ends up in the rows of the block, encrypted for that recipient, under a search key of a
  generator that an invocation of the database announces; and the search keys that the enclave has
  drawn are published with the block or belong to an egress key that is not used again.
\<close>

section \<open>Rows and counters\<close>

lemma drawn_covered:
  assumes "rows_ok C K core enc egress ctr ds rows" "c < drawn K egress ds ctr sec"
  shows "c < ctr sec \<or> core_prf core sec c \<in> search_key ` set rows"
  using assms
proof (induction ds arbitrary: ctr rows)
  case (Cons d ds)
  obtain p t where d: "d = (p, t)" by (cases d)
  let ?s = "key_exchange K egress p"
  from Cons.prems(1) obtain r rows' where r: "rows = r # rows'" "search_key r = core_prf core ?s (ctr ?s)"
      and rest: "rows_ok C K core enc egress (ctr(?s := ctr ?s + 1)) ds rows'"
    by (auto simp: d)
  have "c < (ctr(?s := ctr ?s + 1)) sec \<or> core_prf core sec c \<in> search_key ` set rows'"
    using Cons.prems(2) unfolding d drawn.simps by (rule Cons.IH [OF rest])
  moreover have "c < ctr sec \<or> c = ctr sec" if "c < ctr sec + 1"
    using that by unat_arith
  ultimately show ?case using r by (auto simp: image_iff split: if_splits)
qed simp

lemma rows_ok_in:
  assumes "rows_ok C K core enc egress ctr ds rows" "(p, t) \<in> set ds"
  shows "\<exists>r \<in> set rows. \<exists>c g. search_key r = core_prf core (key_exchange K egress p) c \<and>
           fst (box_encrypt C g p (enc t)) = Some (payload r)"
  using assms
proof (induction ds arbitrary: ctr rows)
  case (Cons d ds)
  then show ?case by (cases d) (auto; blast)
qed simp

section \<open>The invocation of an egress key\<close>

lemma new_invocation_announced_row:
  assumes "fst (new_ingest_invocation now prev k pk start db) = Ok iid"
  shows "\<exists>r \<in> set (ingest_invocations (snd (new_ingest_invocation now prev k pk start db))).
     ii_id r = iid \<and> ii_ingress_key r = k \<and> ii_egress_key r = kp_public_key pk \<and> ii_rng_version r = sint (kp_version pk)"
proof -
  have up: "pool_up db" using assms by (cases "pool_up db") (auto simp: new_ingest_invocation_def)
  let ?tx = "new_ingest_invocation_tx now prev k pk start"
  have ok: "fst (?tx db) = Ok iid"
    using assms up by (auto simp: new_ingest_invocation_def transaction_def split: prod.splits sum.splits)
  then have snd: "snd (new_ingest_invocation now prev k pk start db) = snd (?tx db)"
    using up by (simp add: new_ingest_invocation_def transaction_Ok)
  from ok show ?thesis
  proof (rule new_ingest_invocation_tx_OkE)
    fix db1 db2
    assume ins: "insert_ingest_invocation k (kp_public_key pk) now (as_i64 start) (sint (kp_version pk)) db1 = (Ok iid, db2)"
      and tx: "snd (?tx db) = snd (insert_user_event (new_ingest_invocation_event iid) db2)"
    note row = insert_ingest_invocation_Ok [of k "kp_public_key pk" now "as_i64 start" "sint (kp_version pk)" db1 iid]
    show ?thesis using ins row(1,2) unfolding snd tx by auto
  qed
qed

lemma announcedI:
  assumes "fst (new_ingest_invocation now prev k pk start db) = Ok iid"
    and "k = Public_bytes (kex E) (get_ingress_pubkey (kex E) e)" "pk = egress_pubkey (kex E) (rng_core E) (egress_key e)"
  shows "announced E (snd (new_ingest_invocation now prev k pk start db)) e iid"
  using new_invocation_announced_row [OF assms(1)] assms(2,3) by (auto simp: announced_def)

section \<open>What a block delivers\<close>

definition known_egress ::
  "('m, 'g, 'priv, 'pub, 'rnd, 'a, 'uri, 'w, 'rep) ctl_env \<Rightarrow> recovery_db \<Rightarrow> 'priv \<Rightarrow> bool"
where
  "known_egress E db egress \<longleftrightarrow>
     (\<exists>r \<in> set (ingest_invocations db). ii_egress_key r = kp_public_key (egress_pubkey (kex E) (rng_core E) egress))"

text \<open>
  Output \<open>j\<close> of the block reaches its recipient: a row has the record of the output, with the index of
  the output in the ledger, encrypted for the recipient, under an output of the generator that the
  recipient derives from an announced egress key.
\<close>

definition delivered ::
  "('m, 'g, 'priv, 'pub, 'rnd, 'a, 'uri, 'w, 'rep) ctl_env \<Rightarrow> recovery_db \<Rightarrow> 'priv \<Rightarrow> TxsForIngest \<Rightarrow> ETxOutRecord list \<Rightarrow> nat \<Rightarrow> bool"
where
  "delivered E db ingress blk rows j \<longleftrightarrow>
     (\<forall>p. (\<forall>u. hint_recipient (crypto E) (kex E) ingress (redacted_txs blk ! j) u = Ok p) \<longrightarrow>
        (\<exists>r \<in> set rows. \<exists>egress c g. known_egress E db egress \<and>
           search_key r = core_prf (rng_core E) (key_exchange (kex E) egress p) c \<and>
           fst (box_encrypt (crypto E) g p (enc_record E (tx_out_record (crc E) blk j (redacted_txs blk ! j)))) =
             Some (payload r)))"

lemma known_egress_mono: "known_egress E db egress \<Longrightarrow> db_le db db' \<Longrightarrow> known_egress E db' egress"
  by (auto simp: known_egress_def ii_static_def elim!: db_le_invocation)

lemma delivered_mono:
  assumes "delivered E db ingress blk rows j" "db_le db db'" "set rows \<subseteq> set rows'"
  shows "delivered E db' ingress blk rows' j"
  using assms(1) known_egress_mono [OF _ assms(2)] assms(3) unfolding delivered_def by (meson subsetD)

lemma announced_known: "announced E db e i \<Longrightarrow> known_egress E db (egress_key e)"
  by (auto simp: announced_def known_egress_def)

text \<open>A chunk at an offset of the block delivers its outputs.\<close>

lemma chunk_delivers:
  assumes post: "attempt_post (crypto E) (kex E) (rng_core E) (crc E) (enc_record E) content chunk ingress egress 0 store rows store'"
    and blk: "redacted_txs blk = pre @ redacted_txs chunk @ rest"
    and chunk: "chunk_block_index chunk = chunk_block_index blk" "chunk_timestamp chunk = chunk_timestamp blk"
      "global_txo_index chunk = global_txo_index blk + of_nat (length pre)"
    and known: "known_egress E db egress"
    and j: "length pre \<le> j" "j < length pre + length (redacted_txs chunk)"
  shows "delivered E db ingress blk rows j"
  unfolding delivered_def
proof (intro allI impI)
  fix p
  assume hint: "\<forall>u. hint_recipient (crypto E) (kex E) ingress (redacted_txs blk ! j) u = Ok p"
  define i where "i = j - length pre"
  have i: "j = length pre + i" "i < length (redacted_txs chunk)" using j by (simp_all add: i_def)
  have nth: "redacted_txs blk ! j = redacted_txs chunk ! i" using i by (simp add: blk nth_append)
  obtain entries where en: "entries_ok (crypto E) (kex E) ingress (redacted_txs chunk) 0 entries"
      "rows_ok (crypto E) (kex E) (rng_core E) (enc_record E) egress (rng_counter content store) (deliveries (crc E) chunk entries) rows"
    using post by (auto simp: attempt_post_def)
  have "(i, p) \<in> set entries" using en(1) hint i(2) by (simp add: entries_ok_def nth)
  then have "(p, tx_out_record (crc E) chunk i (redacted_txs chunk ! i)) \<in> set (deliveries (crc E) chunk entries)"
    by (force simp: deliveries_def)
  moreover have "tx_out_record (crc E) chunk i (redacted_txs chunk ! i) = tx_out_record (crc E) blk j (redacted_txs blk ! j)"
    using nth by (simp add: tx_out_record_def chunk i(1) add.assoc)
  ultimately show "\<exists>r \<in> set rows. \<exists>egress c g. known_egress E db egress \<and>
           search_key r = core_prf (rng_core E) (key_exchange (kex E) egress p) c \<and>
           fst (box_encrypt (crypto E) g p (enc_record E (tx_out_record (crc E) blk j (redacted_txs blk ! j)))) =
             Some (payload r)"
    using rows_ok_in [OF en(2)] known by metis
qed

section \<open>Preparing a block\<close>

text \<open>The server became idle and has a new egress key, with no invocation for it yet.\<close>

definition went_idle ::
  "('m, 'g, 'priv, 'pub, 'rnd, 'a, 'uri, 'w, 'rep) ctl_env \<Rightarrow> ('m \<Rightarrow> bytes \<rightharpoonup> bytes) \<Rightarrow> ('m, 'g, 'priv, 'a, 'uri, 'w) IngestController \<Rightarrow> ('m, 'g, 'priv, 'a, 'uri, 'w) IngestController \<Rightarrow> bool"
where
  "went_idle E content s s' \<longleftrightarrow>
     controller_state s' = (controller_state s)\<lparr>cs_mode := Idle, cs_ingest_invocation_id := None\<rparr> \<and>
     state_locked s' = state_locked s \<and> ingress_key (enclave s') = ingress_key (enclave s) \<and>
     enclave_store_ok (enclave s') \<and> fresh_egress content (enclave s') \<and>
     db_grows (ctl_db s) (ctl_db s') \<and> sealed_ok E s' \<and> filed E s'"

lemma wp_go_idle:
  assumes laws: "ctl_laws E content dec" and calm: "calm s s1" "state_locked s1 = state_locked s"
    and store: "enclave_store_ok (enclave s)"
  shows "wp t (bnd (change_state set_idle) (\<lambda>_. expect (ctl_new_egress_key E)))
           (\<lambda>_. went_idle E content s) (\<lambda>s'. db_grows (ctl_db s) (ctl_db s')) s1"
proof -
  let ?s = "s1\<lparr>controller_state := set_idle (controller_state s1)\<rparr>"
  have "rng_store (enclave ?s) = rng_store (enclave s)" using calm by (simp add: calm_def)
  from enclave_eqI(2) [OF this] have "enclave_store_ok (enclave ?s)" using store by simp
  then have "wp t (ctl_new_egress_key E) (\<lambda>r s'. r = Ok () \<and> egress_reset content E ?s s')
      (\<lambda>s'. db_grows (ctl_db ?s) (ctl_db s')) ?s"
    by (intro wp_new_egress_key [OF laws]) (simp_all add: is_idle_def set_idle_def)
  then have "wp t (ctl_new_egress_key E)
      (\<lambda>r. case r of Inl e \<Rightarrow> \<lambda>s'. db_grows (ctl_db s) (ctl_db s') | Inr _ \<Rightarrow> went_idle E content s)
      (\<lambda>s'. db_grows (ctl_db s) (ctl_db s')) ?s"
    by (rule wp_mono)
       (use calm in \<open>auto simp: egress_reset_def went_idle_def calm_def set_idle_def intro: db_grows_trans\<close>)
  then show ?thesis by (simp add: wp_simps)
qed

lemma ctl_inv_went_idle: "went_idle E content s s' \<Longrightarrow> db_inv (ctl_db s) \<Longrightarrow> ctl_inv E content dec s'"
  by (auto simp: ctl_inv_def went_idle_def db_grows_def)

lemma wp_report_before_block:
  assumes laws: "ctl_laws E content dec" and store: "enclave_store_ok (enclave s)"
  shows "wp t (report_before_block E index k)
     (\<lambda>go s'. if go then calm s s' \<and> state_locked s' = state_locked s else went_idle E content s s')
     (\<lambda>s'. db_grows (ctl_db s) (ctl_db s')) s"
proof (cases "is_active (controller_state s)")
  case True
  define Q where "Q = (\<lambda>go s'. if go then calm s s' \<and> state_locked s' = state_locked s else went_idle E content s s')"
  let ?R = "\<lambda>s'. db_grows (ctl_db s) (ctl_db s')"
  let ?next = "\<lambda>r. case r of
                Inr ingress_key_status \<Rightarrow>
                  if st_retired ingress_key_status \<and> index > st_pubkey_expiry ingress_key_status
                  then bnd (change_state set_idle) (\<lambda>_. bnd (expect (ctl_new_egress_key E)) (\<lambda>_. ret False))
                  else ret True
              | Inl (err :: 'uri IngestServiceError) \<Rightarrow> ret True"
  have idle: "wp t (bnd (change_state set_idle) (\<lambda>_. bnd (expect (ctl_new_egress_key E)) (\<lambda>_. ret False))) Q ?R s1"
    if "calm s s1" "state_locked s1 = state_locked s" for s1
    using wp_go_idle [OF laws that store, of t] by (simp add: wp_simps Q_def)
  have "wp t (publish_report E k) (\<lambda>r. wp t (?next r) Q ?R) ?R s"
  proof (rule wp_mono [OF quietD [OF quiet_publish_report [OF ctl_lawsD(7) [OF laws]]]])
    fix r s1
    assume "calm s s1 \<and> state_locked s1 = state_locked s"
    then show "wp t (?next r) Q ?R s1"
      using idle [of s1] by (cases r) (simp_all add: wp_ret, simp_all add: Q_def)
  qed (auto simp: calm_def)
  with True show ?thesis unfolding Q_def by (simp add: report_before_block_def wp_simps)
qed (simp add: report_before_block_def wp_simps)

section \<open>Between the chunks of a block\<close>

text \<open>
  The state while the block is processed, after a start \<open>s0\<close>: what the counters have passed is
  published or in the rows that are to be published.
\<close>

definition covered ::
  "('m, 'g, 'priv, 'pub, 'rnd, 'a, 'uri, 'w, 'rep) ctl_env \<Rightarrow> ('m \<Rightarrow> bytes \<rightharpoonup> bytes) \<Rightarrow> (bytes \<Rightarrow> ETxOutRecord list option) \<Rightarrow> recovery_db
     \<Rightarrow> ('m, 'g, 'priv, 'a) SgxIngestEnclave \<Rightarrow> ETxOutRecord list \<Rightarrow> bool"
where
  "covered E content dec db e rows \<longleftrightarrow>
     (\<forall>sec c. c < enclave_counter content e sec \<longrightarrow>
        published dec db (core_prf (rng_core E) sec c) \<or> core_prf (rng_core E) sec c \<in> search_key ` set rows)"

definition mid ::
  "('m, 'g, 'priv, 'pub, 'rnd, 'a, 'uri, 'w, 'rep) ctl_env \<Rightarrow> ('m \<Rightarrow> bytes \<rightharpoonup> bytes) \<Rightarrow> (bytes \<Rightarrow> ETxOutRecord list option) \<Rightarrow> ('m, 'g, 'priv, 'a, 'uri, 'w) IngestController \<Rightarrow> ETxOutRecord list \<Rightarrow> i64 \<Rightarrow> ('m, 'g, 'priv, 'a, 'uri, 'w) IngestController \<Rightarrow> bool"
where
  "mid E content dec s0 rows iid s \<longleftrightarrow>
     state_locked s = state_locked s0 \<and> db_inv (ctl_db s) \<and> db_le (ctl_db s0) (ctl_db s) \<and> enclave_store_ok (enclave s) \<and> sealed_ok E s \<and>
     controller_state s = (controller_state s0)\<lparr>cs_ingest_invocation_id := Some iid\<rparr> \<and>
     ingress_key (enclave s) = ingress_key (enclave s0) \<and>
     announced E (ctl_db s) (enclave s) iid \<and> covered E content dec (ctl_db s) (enclave s) rows"

lemma covered_Nil [simp]: "covered E content dec db e [] = no_gaps E content dec db e"
  by (simp add: covered_def no_gaps_def)

lemma fresh_covered: "fresh_egress content e \<Longrightarrow> covered E content dec db e rows"
  by (simp add: covered_def fresh_egress_def)

lemma covered_mono: "covered E content dec db e rows \<Longrightarrow> db_le db db' \<Longrightarrow> covered E content dec db' e rows"
  unfolding covered_def by (meson rows_published_mono)

lemma ctl_inv_mid:
  assumes "ctl_inv E content dec s" "cs_ingest_invocation_id (controller_state s) = Some iid"
  shows "mid E content dec s [] iid s"
proof -
  have "controller_state s = (controller_state s)\<lparr>cs_ingest_invocation_id := Some iid\<rparr>"
    using assms(2) by (cases "controller_state s") simp
  with assms show ?thesis by (simp add: mid_def ctl_inv_def)
qed

lemma mid_calm:
  assumes "mid E content dec s0 rows iid s" "calm s s'" "state_locked s' = state_locked s"
  shows "mid E content dec s0 rows iid s'"
proof -
  have c: "controller_state s' = controller_state s" "last_sealed_key s' = last_sealed_key s"
    "ingress_key (enclave s') = ingress_key (enclave s)" "egress_key (enclave s') = egress_key (enclave s)"
    "db_inv (ctl_db s')" "db_le (ctl_db s) (ctl_db s')"
    using assms by (auto simp: calm_def mid_def db_grows_def)
  have st: "rng_store (enclave s') = rng_store (enclave s)" using assms(2) by (simp add: calm_def)
  have eq: "our_pubkey E s' = our_pubkey E s" "announced E db (enclave s') = announced E db (enclave s)"
    "covered E content dec db (enclave s') rows = covered E content dec db (enclave s) rows" for db
    by (simp_all add: our_pubkey_def get_ingress_pubkey_def announced_def covered_def c enclave_eqI(1) [OF st] fun_eq_iff)
  show ?thesis
    using assms(1,3) c(1,2,3,5) announced_mono [OF _ c(6)] covered_mono [OF _ c(6)] db_le_trans [OF _ c(6)]
    by (auto simp: mid_def sealed_ok_def eq enclave_eqI(2) [OF st])
qed

lemma wp_ensure_invocation:
  assumes laws: "ctl_laws E content dec" and inv: "ctl_inv E content dec s"
    and k: "k = our_pubkey E s" and pk: "pk = egress_pubkey (kex E) (rng_core E) (egress_key (enclave s))"
  shows "wp t (ensure_invocation E index k pk) (\<lambda>iid. mid E content dec s [] iid)
           (\<lambda>s'. db_grows (ctl_db s) (ctl_db s')) s"
proof (cases "cs_ingest_invocation_id (controller_state s)")
  case (Some iid)
  then show ?thesis using ctl_inv_mid [OF inv Some] by (simp add: ensure_invocation_def wp_simps)
next
  case None
  obtain db w where o: "others E (outside s) (ctl_db s) = (db, w)" by (metis surj_pair)
  obtain r db' where f: "new_ingest_invocation (clock E w) None k pk index db = (r, db')" by (metis surj_pair)
  have grows: "db_grows (ctl_db s) db'"
    using others_grow [OF ctl_lawsD(7) [OF laws] o] grows_new_invocation [OF our_pubkey_len [OF laws], of db "clock E w" None s pk index] f
    by (auto simp: k intro: db_grows_trans)
  have "mid E content dec s [] iid (s\<lparr>ctl_db := db', outside := w,
      controller_state := (controller_state s)\<lparr>cs_ingest_invocation_id := Some iid\<rparr>\<rparr>)" if "r = Ok iid" for iid
  proof -
    have "announced E db' (enclave s) iid"
      using announcedI [of "clock E w" None k pk index db iid E "enclave s"] f that k pk by (simp add: our_pubkey_def)
    moreover have "fresh_egress content (enclave s)" using inv None by (simp add: ctl_inv_def)
    ultimately show ?thesis
      using inv grows fresh_covered [of content "enclave s" E dec db' "[]"]
      by (simp add: mid_def ctl_inv_def db_grows_def sealed_ok_def our_pubkey_def)
  qed
  then show ?thesis
    using grows by (auto simp: ensure_invocation_def wp_simps None wp_db_call o f split: sum.splits)
qed

lemma mid_start:
  assumes "mid E content dec s1 rows iid s" "calm s0 s1" "state_locked s1 = state_locked s0" "db_inv (ctl_db s0)"
  shows "mid E content dec s0 rows iid s"
  using assms by (auto simp: mid_def calm_def db_grows_def intro: db_le_trans)

lemma wp_prepare_block:
  assumes laws: "ctl_laws E content dec" and inv: "ctl_inv E content dec s"
    and index: "index = cs_next_block_index (controller_state s)"
    and k: "k = our_pubkey E s" and pk: "pk = egress_pubkey (kex E) (rng_core E) (egress_key (enclave s))"
  shows "wp t (prepare_block E index k pk)
     (\<lambda>r. case r of None \<Rightarrow> went_idle E content s | Some iid \<Rightarrow> mid E content dec s [] iid)
     (\<lambda>s'. db_grows (ctl_db s) (ctl_db s')) s"
proof -
  define Q where "Q = (\<lambda>r. case r of None \<Rightarrow> went_idle E content s | Some iid \<Rightarrow> mid E content dec s [] iid)"
  let ?R = "\<lambda>s'. db_grows (ctl_db s) (ctl_db s')"
  let ?next = "\<lambda>go_on. if \<not> go_on then ret None else bnd (ensure_invocation E index k pk) (\<lambda>iid. ret (Some iid))"
  have store: "enclave_store_ok (enclave s)" using inv by (simp add: ctl_inv_def)
  have "wp t (report_before_block E index k) (\<lambda>go. wp t (?next go) Q ?R) ?R s"
  proof (rule wp_mono [OF wp_report_before_block [OF laws store]])
    fix go s1
    assume *: "if go then calm s s1 \<and> state_locked s1 = state_locked s else went_idle E content s s1"
    show "wp t (?next go) Q ?R s1"
    proof (cases go)
      case True
      with * have c: "calm s s1" "state_locked s1 = state_locked s" by simp_all
      have "k = our_pubkey E s1" "pk = egress_pubkey (kex E) (rng_core E) (egress_key (enclave s1))"
        using c(1) k pk by (simp_all add: our_pubkey_def get_ingress_pubkey_def calm_def)
      from wp_ensure_invocation [OF laws ctl_inv_calm [OF inv c(1)] this]
      have "wp t (ensure_invocation E index k pk) (\<lambda>iid. mid E content dec s1 [] iid) (\<lambda>s'. db_grows (ctl_db s1) (ctl_db s')) s1" .
      then have "wp t (ensure_invocation E index k pk) (\<lambda>iid. mid E content dec s [] iid) ?R s1"
        by (rule wp_mono)
           (use mid_start [OF _ c] inv c(1) in \<open>auto simp: ctl_inv_def calm_def intro: db_grows_trans\<close>)
      with True show ?thesis by (simp add: wp_simps Q_def)
    qed (use * in \<open>simp add: wp_simps Q_def\<close>)
  qed auto
  then show ?thesis unfolding Q_def by (simp add: prepare_block_def wp_simps index [symmetric])
qed

section \<open>Chunks\<close>

text \<open>A rotation retries forever when its write to the database never succeeds.\<close>

definition rotation_stuck :: "('m, 'g, 'priv, 'pub, 'rnd, 'a, 'uri, 'w, 'rep) ctl_env \<Rightarrow> bool" where
  "rotation_stuck E \<longleftrightarrow>
     (\<exists>iid k pk index (s :: ('m, 'g, 'priv, 'a, 'uri, 'w) IngestController).
        db_inv (ctl_db s) \<and> length k = 32 \<and>
        retry (db_call E (\<lambda>now. new_ingest_invocation now (Some iid) k pk index)) s = None)"

lemma wp_retry_or:
  assumes "\<And>s. I s \<Longrightarrow> wp True m (\<lambda>r s'. case r of Inl e \<Rightarrow> I s' | Inr x \<Rightarrow> Q x s') R s" "I s" "retry m s = None \<Longrightarrow> t"
  shows "wp t (retry m) Q R s"
  using wp_retry [of I m Q R s] assms by (auto simp: wp_def split: option.splits)

text \<open>The state right after the enclave made a new egress key: its invocation is not announced yet.\<close>

lemma wp_rotate:
  assumes laws: "ctl_laws E content dec" and unlocked: "\<not> state_locked s" and inv: "db_inv (ctl_db s)" and k: "k = our_pubkey E s"
    and stuck: "rotation_stuck E \<Longrightarrow> t"
  shows "wp t (rotate_invocation E index k iid (Some (egress_pubkey (kex E) (rng_core E) (egress_key (enclave s)))))
     (\<lambda>iid' s'. \<exists>s1. calm s s1 \<and> \<not> state_locked s1 \<and> announced E (ctl_db s1) (enclave s1) iid' \<and>
        s' = s1\<lparr>controller_state := (controller_state s)\<lparr>cs_ingest_invocation_id := Some iid'\<rparr>\<rparr>)
     (calm s) s"
proof -
  let ?pk = "egress_pubkey (kex E) (rng_core E) (egress_key (enclave s))"
  let ?f = "\<lambda>now. new_ingest_invocation now (Some iid) k ?pk index"
  let ?I = "\<lambda>s'. calm s s' \<and> \<not> state_locked s'"
  have len: "length k = 32" using our_pubkey_len [OF laws] k by simp
  have step: "wp True (db_call E ?f)
      (\<lambda>r s'. case r of Inl e \<Rightarrow> ?I s' | Inr iid' \<Rightarrow> ?I s' \<and> announced E (ctl_db s') (enclave s') iid') (calm s) s1"
    if I: "?I s1" for s1
  proof -
    obtain db w where o: "others E (outside s1) (ctl_db s1) = (db, w)" by (metis surj_pair)
    obtain r db' where f: "?f (clock E w) db = (r, db')" by (metis surj_pair)
    have "db_grows (ctl_db s) db'"
      using I others_grow [OF ctl_lawsD(7) [OF laws] o] grows_new_invocation [OF len, of db "clock E w" "Some iid" ?pk index] f
      by (auto simp: calm_def intro: db_grows_trans)
    then have "?I (s1\<lparr>ctl_db := db', outside := w\<rparr>)" using I by (simp add: calm_def)
    moreover have "announced E db' (enclave s1) iid'" if "r = Ok iid'" for iid'
    proof -
      have "k = Public_bytes (kex E) (get_ingress_pubkey (kex E) (enclave s1))"
          "?pk = egress_pubkey (kex E) (rng_core E) (egress_key (enclave s1))"
        using I unfolding k by (simp_all add: our_pubkey_def get_ingress_pubkey_def calm_def)
      from announcedI [OF _ this, of "clock E w" "Some iid" index db iid'] show ?thesis using f that by simp
    qed
    ultimately show ?thesis by (auto simp: wp_db_call o f split: sum.splits)
  qed
  have "retry (db_call E ?f) s = None \<Longrightarrow> t"
    using stuck inv our_pubkey_len [OF laws, of s] k unfolding rotation_stuck_def by blast
  then have "wp t (retry (db_call E ?f)) (\<lambda>iid' s'. ?I s' \<and> announced E (ctl_db s') (enclave s') iid') (calm s) s"
    using unlocked by (intro wp_retry_or [where I = ?I, OF step]) auto
  then have "wp t (retry (db_call E ?f))
      (\<lambda>iid'. wp t (bnd (with_state (change_state (\<lambda>st. st\<lparr>cs_ingest_invocation_id := Some iid'\<rparr>))) (\<lambda>_. ret iid'))
        (\<lambda>iid' s'. \<exists>s1. calm s s1 \<and> \<not> state_locked s1 \<and> announced E (ctl_db s1) (enclave s1) iid' \<and>
           s' = s1\<lparr>controller_state := (controller_state s)\<lparr>cs_ingest_invocation_id := Some iid'\<rparr>\<rparr>) (calm s)) (calm s) s"
    by (rule wp_mono) (auto simp: wp_simps calm_def)
  then show ?thesis by (simp add: rotate_invocation_def wp_simps)
qed

lemma attempt_covered:
  assumes "attempt_post C K core crc32 enc content chunk ingress egress i store rows store'"
    and "c < rng_counter content store' sec"
  shows "c < rng_counter content store sec \<or> core_prf core sec c \<in> search_key ` set rows"
  using assms drawn_covered unfolding attempt_post_def by metis

definition ingest_chunk ::
  "('m, 'g, 'priv, 'pub, 'rnd, 'a, 'uri, 'w, 'rep) ctl_env \<Rightarrow> TxsForIngest \<Rightarrow> ('m, 'g, 'priv, 'a) SgxIngestEnclave
     \<Rightarrow> (string ingest_enclave_error, ETxOutRecord list \<times> KexRngPubkey option) result option
        \<times> ('m, 'g, 'priv, 'a) SgxIngestEnclave"
where
  "ingest_chunk E = ingest_txs (crypto E) (kex E) (omap E) (rng_core E) (crc E) (enc_record E)"

lemma ingest_chunk_cases:
  assumes laws: "ctl_laws E content dec" and store: "enclave_store_ok e"
    and run: "ingest_chunk E chunk e = (r, e')"
  obtains (failed) err where "r = Some (Err err)"
  | (same) rows store store' where "r = Some (Ok (rows, None))" "enclave_store_ok e'" "ingress_key e' = ingress_key e"
      "egress_key e' = egress_key e" "rng_store e = Some store" "rng_store e' = Some store'"
      "attempt_post (crypto E) (kex E) (rng_core E) (crc E) (enc_record E) content chunk (ingress_key e) (egress_key e') 0 store rows store'"
  | (rotated) rows fresh store' where "r = Some (Ok (rows, Some (egress_pubkey (kex E) (rng_core E) (egress_key e'))))"
      "enclave_store_ok e'" "ingress_key e' = ingress_key e" "\<And>sec. rng_counter content fresh sec = 0" "rng_store e' = Some store'"
      "attempt_post (crypto E) (kex E) (rng_core E) (crc E) (enc_record E) content chunk (ingress_key e) (egress_key e') 0 fresh rows store'"
proof -
  obtain store where st: "rng_store e = Some store" "rs_omap store \<noteq> None" using store by (auto simp: enclave_store_ok_def)
  from ingest_txs_post [OF ctl_lawsD(1,2,3) [OF laws] st run [unfolded ingest_chunk_def]]
  obtain store' where post: "rng_store e' = Some store'" "rs_omap store' \<noteq> None" "ingress_key e' = ingress_key e"
      "loop_post (crypto E) (kex E) (rng_core E) (crc E) (enc_record E) content chunk (ingress_key e) (egress_key e) None store r (egress_key e') store'"
    by blast
  have ok': "enclave_store_ok e'" using post(1,2) by (simp add: enclave_store_ok_def)
  show thesis
  proof (cases r)
    case None
    then show ?thesis using post(4) by (simp add: loop_post_def)
  next
    case (Some x)
    show ?thesis
    proof (cases x)
      case (Inl err)
      then show ?thesis using Some failed by simp
    next
      case (Inr y)
      obtain rows pk where y: "y = (rows, pk)" by (cases y)
      show ?thesis
        using post(4) Some Inr y same [OF _ ok' post(3) _ st(1) post(1), of rows] rotated [OF _ ok' post(3) _ post(1), of rows]
        by (auto simp: loop_post_def)
    qed
  qed
qed

text \<open>The state between two chunks depends on the enclave only through the keys and the counters.\<close>

lemma mid_enclave:
  assumes "mid E content dec s0 rows iid s" "ingress_key e' = ingress_key (enclave s)" "enclave_store_ok e'"
    and "announced E (ctl_db s) e' iid" "covered E content dec (ctl_db s) e' rows'"
  shows "mid E content dec s0 rows' iid (s\<lparr>enclave := e'\<rparr>)"
  using assms by (auto simp: mid_def sealed_ok_def our_pubkey_def get_ingress_pubkey_def)

text \<open>A chunk that keeps the egress key.\<close>

lemma mid_same_egress:
  assumes mid: "mid E content dec s0 rows iid s" and e': "enclave_store_ok e'" "ingress_key e' = ingress_key (enclave s)"
      "egress_key e' = egress_key (enclave s)" "rng_store (enclave s) = Some st" "rng_store e' = Some st'"
    and post: "attempt_post (crypto E) (kex E) (rng_core E) (crc E) (enc_record E) content chunk ingress egress 0 st new st'"
  shows "mid E content dec s0 (rows @ new) iid (s\<lparr>enclave := e'\<rparr>)" "known_egress E (ctl_db s) (egress_key e')"
proof -
  have "announced E (ctl_db s) (enclave s) iid" using mid by (simp add: mid_def)
  then have ann: "announced E (ctl_db s) e' iid" by (simp add: announced_def get_ingress_pubkey_def e'(2,3))
  have "covered E content dec (ctl_db s) e' (rows @ new)"
    unfolding covered_def
  proof (intro allI impI)
    fix sec c
    assume "c < enclave_counter content e' sec"
    then have "c < rng_counter content st' sec" using e'(5) by (simp add: enclave_counter_def)
    from attempt_covered [OF post this]
    have "c < enclave_counter content (enclave s) sec \<or> core_prf (rng_core E) sec c \<in> search_key ` set new"
      using e'(4) by (auto simp: enclave_counter_def)
    then show "published dec (ctl_db s) (core_prf (rng_core E) sec c) \<or> core_prf (rng_core E) sec c \<in> search_key ` set (rows @ new)"
      using mid by (auto simp: mid_def covered_def)
  qed
  from mid_enclave [OF mid e'(2,1) ann this] show "mid E content dec s0 (rows @ new) iid (s\<lparr>enclave := e'\<rparr>)" .
  from announced_known [OF ann] show "known_egress E (ctl_db s) (egress_key e')" .
qed

lemma covered_fresh_rows:
  assumes "rng_store e' = Some st'" "\<And>sec. rng_counter content fresh sec = 0"
    and "attempt_post (crypto E) (kex E) (rng_core E) (crc E) (enc_record E) content chunk ingress egress 0 fresh new st'"
  shows "covered E content dec db e' (rows @ new)"
  unfolding covered_def
proof (intro allI impI)
  fix sec c
  assume "c < enclave_counter content e' sec"
  then have "c < rng_counter content st' sec" using assms(1) by (simp add: enclave_counter_def)
  from attempt_covered [OF assms(3) this]
  show "published dec db (core_prf (rng_core E) sec c) \<or> core_prf (rng_core E) sec c \<in> search_key ` set (rows @ new)"
    using assms(2) by auto
qed

text \<open>A chunk after which the enclave has a new egress key.\<close>

lemma mid_rotated:
  assumes mid: "mid E content dec s0 rows iid s" and e': "enclave_store_ok e'" "ingress_key e' = ingress_key (enclave s)"
    and s1: "calm (s\<lparr>enclave := e'\<rparr>) s1" "state_locked s1 = state_locked s" "announced E (ctl_db s1) (enclave s1) iid'"
    and cov: "covered E content dec (ctl_db s1) e' rows'"
  shows "mid E content dec s0 rows' iid' (s1\<lparr>controller_state := (controller_state s)\<lparr>cs_ingest_invocation_id := Some iid'\<rparr>\<rparr>)"
    and "db_le (ctl_db s) (ctl_db s1)" "known_egress E (ctl_db s1) (egress_key e')"
proof -
  have db: "db_inv (ctl_db s1)" "db_le (ctl_db s) (ctl_db s1)" using s1(1) mid by (auto simp: calm_def db_grows_def mid_def)
  have e1: "rng_store (enclave s1) = rng_store e'" "ingress_key (enclave s1) = ingress_key (enclave s)"
      "egress_key (enclave s1) = egress_key e'" "last_sealed_key s1 = last_sealed_key s"
    using s1(1) e'(2) by (auto simp: calm_def)
  have "covered E content dec (ctl_db s1) (enclave s1) rows'"
    using cov by (simp add: covered_def enclave_eqI(1) [OF e1(1)])
  moreover have "sealed_ok E s" using mid by (simp add: mid_def)
  then have "sealed_ok E (s1\<lparr>controller_state := (controller_state s)\<lparr>cs_ingest_invocation_id := Some iid'\<rparr>\<rparr>)"
    by (simp add: sealed_ok_def our_pubkey_def get_ingress_pubkey_def e1)
  moreover have "enclave_store_ok (enclave s1)" using e'(1) enclave_eqI(2) [OF e1(1)] by simp
  moreover have "db_le (ctl_db s0) (ctl_db s1)" using db(2) mid by (auto simp: mid_def intro: db_le_trans)
  ultimately show "mid E content dec s0 rows' iid' (s1\<lparr>controller_state := (controller_state s)\<lparr>cs_ingest_invocation_id := Some iid'\<rparr>\<rparr>)"
    using s1 db e1 mid by (simp add: mid_def)
  show "db_le (ctl_db s) (ctl_db s1)" by (rule db(2))
  show "known_egress E (ctl_db s1) (egress_key e')" using announced_known [OF s1(3)] e1(3) by simp
qed

text \<open>One chunk: the rows cover the new counters, and the egress key of the rows is announced.\<close>

lemma wp_chunk:
  assumes laws: "ctl_laws E content dec" and mid: "mid E content dec s0 rows iid s" and unlocked: "\<not> state_locked s"
    and stuck: "rotation_stuck E \<Longrightarrow> t"
    and run: "ingest_chunk E chunk (enclave s) = (Some (Ok (new, maybe)), e')"
  shows "wp t (rotate_invocation E index (our_pubkey E s0) iid maybe)
     (\<lambda>iid' s'. mid E content dec s0 (rows @ new) iid' s' \<and> db_le (ctl_db s) (ctl_db s') \<and>
        (\<exists>store1 store2 egress. known_egress E (ctl_db s') egress \<and>
           attempt_post (crypto E) (kex E) (rng_core E) (crc E) (enc_record E) content chunk (ingress_key (enclave s0)) egress 0 store1 new store2))
     (\<lambda>s'. db_grows (ctl_db s) (ctl_db s')) (s\<lparr>enclave := e'\<rparr>)"
proof -
  let ?s = "s\<lparr>enclave := e'\<rparr>"
  have ing: "ingress_key (enclave s) = ingress_key (enclave s0)" and dbi: "db_inv (ctl_db s)" and store: "enclave_store_ok (enclave s)"
    using mid by (simp_all add: mid_def)
  from laws store run show ?thesis
  proof (cases rule: ingest_chunk_cases)
    case (same rows' st st')
    have "maybe = None" "new = rows'" using same(1) by simp_all
    with same(7) mid_same_egress [OF mid same(2-7)] ing show ?thesis
      unfolding rotate_invocation_def by (auto simp: wp_simps)
  next
    case (rotated rows' fresh st')
    have mb: "maybe = Some (egress_pubkey (kex E) (rng_core E) (egress_key (enclave ?s)))" "new = rows'" using rotated(1) by simp_all
    have k: "our_pubkey E s0 = our_pubkey E ?s"
      using ing rotated(3) by (simp add: our_pubkey_def get_ingress_pubkey_def)
    have cov: "covered E content dec db e' (rows @ new)" for db
      using covered_fresh_rows [OF rotated(5,4,6)] mb(2) by simp
    have "wp t (rotate_invocation E index (our_pubkey E s0) iid maybe)
       (\<lambda>iid' s'. \<exists>s1. calm ?s s1 \<and> \<not> state_locked s1 \<and> announced E (ctl_db s1) (enclave s1) iid' \<and>
          s' = s1\<lparr>controller_state := (controller_state ?s)\<lparr>cs_ingest_invocation_id := Some iid'\<rparr>\<rparr>) (calm ?s) ?s"
      unfolding mb(1) by (rule wp_rotate [OF laws _ _ k stuck]) (use unlocked dbi in simp_all)
    then show ?thesis
    proof (rule wp_mono)
      fix iid' s'
      assume "\<exists>s1. calm ?s s1 \<and> \<not> state_locked s1 \<and> announced E (ctl_db s1) (enclave s1) iid' \<and>
          s' = s1\<lparr>controller_state := (controller_state ?s)\<lparr>cs_ingest_invocation_id := Some iid'\<rparr>\<rparr>"
      then obtain s1 where s1: "calm ?s s1" "\<not> state_locked s1" "announced E (ctl_db s1) (enclave s1) iid'"
          "s' = s1\<lparr>controller_state := (controller_state s)\<lparr>cs_ingest_invocation_id := Some iid'\<rparr>\<rparr>" by auto
      have "state_locked s1 = state_locked s" using s1(2) unlocked by simp
      from mid_rotated [OF mid rotated(2,3) s1(1) this s1(3) cov] rotated(6) mb(2) ing s1(4)
      show "mid E content dec s0 (rows @ new) iid' s' \<and> db_le (ctl_db s) (ctl_db s') \<and>
        (\<exists>store1 store2 egress. known_egress E (ctl_db s') egress \<and>
           attempt_post (crypto E) (kex E) (rng_core E) (crc E) (enc_record E) content chunk (ingress_key (enclave s0)) egress 0 store1 new store2)"
        by auto
    qed (auto simp: calm_def)
  qed simp
qed

definition ingest_failed :: "('m, 'g, 'priv, 'pub, 'rnd, 'a, 'uri, 'w, 'rep) ctl_env \<Rightarrow> ('m, 'g, 'priv, 'a, 'uri, 'w) IngestController \<Rightarrow> ('m, 'g, 'priv, 'a, 'uri, 'w) IngestController \<Rightarrow> bool" where
  "ingest_failed E s0 s' \<longleftrightarrow>
     state_locked s' = state_locked s0 \<and> db_inv (ctl_db s') \<and> db_le (ctl_db s0) (ctl_db s') \<and>
     (\<exists>iid. controller_state s' = (controller_state s0)\<lparr>cs_ingest_invocation_id := Some iid\<rparr>) \<and>
     (\<exists>chunk e err. ingest_chunk E chunk e = (Some (Err err), enclave s'))"

lemma wp_ingest_chunks:
  assumes laws: "ctl_laws E content dec" and stuck: "rotation_stuck E \<Longrightarrow> t" and unlocked: "\<not> state_locked s0" "db_inv (ctl_db s0)"
    and "mid E content dec s0 rows iid s" "redacted_txs blk = pre @ concat chunks"
    and "gtx = global_txo_index blk + of_nat (length pre)"
    and "\<And>j. j < length pre \<Longrightarrow> delivered E (ctl_db s) (ingress_key (enclave s0)) blk rows j"
  shows "wp t (ingest_chunks E (chunk_block_index blk) (chunk_timestamp blk) (our_pubkey E s0) chunks iid gtx rows)
     (\<lambda>r s'. case r of
        None \<Rightarrow> ingest_failed E s0 s'
      | Some (iid', rows') \<Rightarrow> mid E content dec s0 rows' iid' s' \<and>
          (\<forall>j < length (redacted_txs blk). delivered E (ctl_db s') (ingress_key (enclave s0)) blk rows' j))
     (\<lambda>s'. db_grows (ctl_db s0) (ctl_db s')) s"
  using assms(5-)
proof (induction chunks arbitrary: rows iid s pre gtx)
  case Nil
  then show ?case by (simp add: wp_simps)
next
  case (Cons c chunks)
  define Q where "Q = (\<lambda>r s'. case r of
        None \<Rightarrow> ingest_failed E s0 s'
      | Some (iid', rows') \<Rightarrow> mid E content dec s0 rows' iid' s' \<and>
          (\<forall>j < length (redacted_txs blk). delivered E (ctl_db s') (ingress_key (enclave s0)) blk rows' j))"
  let ?R = "\<lambda>s'. db_grows (ctl_db s0) (ctl_db s')"
  let ?chunk = "\<lparr>chunk_block_index = chunk_block_index blk, global_txo_index = gtx, redacted_txs = c,
      chunk_timestamp = chunk_timestamp blk\<rparr>"
  let ?rest = "\<lambda>rows iid. ingest_chunks E (chunk_block_index blk) (chunk_timestamp blk) (our_pubkey E s0) chunks iid
      (gtx + of_nat (length c)) rows"
  note mid = Cons.prems(1)
  have s: "\<not> state_locked s" "db_inv (ctl_db s)" "db_le (ctl_db s0) (ctl_db s)" "enclave_store_ok (enclave s)"
    using mid unlocked by (auto simp: mid_def)
  have go_on: "wp t (rotate_invocation E (chunk_block_index blk) (our_pubkey E s0) iid maybe)
      (\<lambda>iid'. wp t (?rest (rows @ new) iid') Q ?R) ?R (s\<lparr>enclave := e'\<rparr>)"
    if run: "ingest_chunk E ?chunk (enclave s) = (Some (Ok (new, maybe)), e')" for new maybe e'
  proof (rule wp_mono [OF wp_chunk [OF laws mid s(1) stuck run]])
    fix iid' s'
    assume "mid E content dec s0 (rows @ new) iid' s' \<and> db_le (ctl_db s) (ctl_db s') \<and>
        (\<exists>store1 store2 egress. known_egress E (ctl_db s') egress \<and>
           attempt_post (crypto E) (kex E) (rng_core E) (crc E) (enc_record E) content ?chunk (ingress_key (enclave s0)) egress 0 store1 new store2)"
    then obtain store1 store2 egress where m: "mid E content dec s0 (rows @ new) iid' s'" and le: "db_le (ctl_db s) (ctl_db s')"
      and post: "known_egress E (ctl_db s') egress"
        "attempt_post (crypto E) (kex E) (rng_core E) (crc E) (enc_record E) content ?chunk (ingress_key (enclave s0)) egress 0 store1 new store2"
      by blast
    have "delivered E (ctl_db s') (ingress_key (enclave s0)) blk (rows @ new) j" if j: "j < length (pre @ c)" for j
    proof (cases "j < length pre")
      case True
      then show ?thesis using delivered_mono [OF Cons.prems(4) le] by auto
    next
      case False
      have "delivered E (ctl_db s') (ingress_key (enclave s0)) blk new j"
        by (rule chunk_delivers [OF post(2), where pre = pre and rest = "concat chunks"])
           (use False j post(1) Cons.prems(2,3) in auto)
      then show ?thesis by (rule delivered_mono) auto
    qed
    moreover have "redacted_txs blk = (pre @ c) @ concat chunks" using Cons.prems(2) by simp
    moreover have "gtx + of_nat (length c) = global_txo_index blk + of_nat (length (pre @ c))"
      using Cons.prems(3) by (simp add: add.assoc)
    ultimately show "wp t (?rest (rows @ new) iid') Q ?R s'"
      unfolding Q_def by (intro Cons.IH [OF m])
  qed (use s unlocked in \<open>auto simp: db_grows_def intro: db_le_trans\<close>)
  obtain r e' where run: "ingest_chunk E ?chunk (enclave s) = (r, e')" by (metis surj_pair)
  have fail: "Q None (s\<lparr>enclave := e'\<rparr>)" if "r = Some (Err err)" for err
  proof -
    have "controller_state s = (controller_state s0)\<lparr>cs_ingest_invocation_id := Some iid\<rparr>" "state_locked s = state_locked s0"
      using mid by (simp_all add: mid_def)
    then show ?thesis unfolding Q_def using s run that by (auto simp: ingest_failed_def)
  qed
  have "?R (s\<lparr>enclave := e'\<rparr>)" using s unlocked(2) by (simp add: db_grows_def)
  then have "wp t (ingest_chunks E (chunk_block_index blk) (chunk_timestamp blk) (our_pubkey E s0) (c # chunks) iid gtx rows) Q ?R s"
    using go_on fail run
    by (auto simp: wp_simps ingest_chunk_def split: option.splits sum.splits prod.splits)
  then show ?case unfolding Q_def .
qed

section \<open>Publishing the rows\<close>

lemma add_block_row:
  assumes "fst (add_block_data enc now iid block ts txs db) = Ok st" "\<not> block_already_scanned_with_this_key st"
    and "db_inv db" "r \<in> set (ingest_invocations db)" "ii_id r = iid"
  shows "\<exists>b \<in> set (ingested_blocks (snd (add_block_data enc now iid block ts txs db))).
     ib_iid b = iid \<and> ib_key b = ii_ingress_key r \<and> ib_block_number b = as_i64 (bk_index block) \<and>
     ib_cumulative_txo_count b = as_i64 (bk_cumulative_txo_count block) \<and> ib_timestamp b = as_i64 ts \<and> ib_data b = enc txs"
proof -
  have up: "pool_up db" using assms(1) by (cases "pool_up db") (auto simp: add_block_data_def)
  let ?tx = "add_block_data_tx enc now iid block ts txs"
  have ok: "fst (?tx db) = Ok ()"
    using assms(1,2) up
    by (auto simp: add_block_data_def transaction_def split: prod.splits sum.splits db_error.splits DieselError.splits)
  then have snd: "snd (add_block_data enc now iid block ts txs db) = snd (?tx db)"
    using up by (simp add: snd_add_block_data transaction_Ok)
  from ok show ?thesis
  proof (rule add_block_data_tx_Ok)
    fix r'
    assume r': "find (\<lambda>r. ii_id r = iid) (ingest_invocations db) = Some r'"
      and ins: "fst (insert_ingested_block (ii_ingress_key r') iid (as_i64 (bk_index block))
               (as_i64 (bk_cumulative_txo_count block)) (as_i64 ts) (enc txs) db) = Ok ()"
      and eq: "snd (?tx db) = snd (update_last_active_at_impl now iid
             (snd (insert_ingested_block (ii_ingress_key r') iid (as_i64 (bk_index block))
               (as_i64 (bk_cumulative_txo_count block)) (as_i64 ts) (enc txs) db)))"
    have "distinct (map ii_id (ingest_invocations db))"
      using assms(3) by (simp add: db_inv_def invocations_inv_def strict_sorted_iff)
    moreover have "r' \<in> set (ingest_invocations db)" "ii_id r' = iid" using r' by (auto simp: find_Some_iff)
    ultimately have "r' = r" using assms(4,5) by (metis distinct_map inj_onD)
    then show ?thesis
      unfolding snd eq using insert_ingested_block_Ok(1) [OF ins] by (simp add: update_last_active_at_impl_def)
  qed
qed

definition publish_stuck :: "('m, 'g, 'priv, 'pub, 'rnd, 'a, 'uri, 'w, 'rep) ctl_env \<Rightarrow> bool" where
  "publish_stuck E \<longleftrightarrow>
     (\<exists>iid block ts rows (s :: ('m, 'g, 'priv, 'a, 'uri, 'w) IngestController).
        db_inv (ctl_db s) \<and> iid \<in> ii_id ` set (ingest_invocations (ctl_db s)) \<and>
        retry (db_call E (\<lambda>now. add_block_data (enc_rows E) now iid block ts rows)) s = None)"

text \<open>The row of a block in the database.\<close>

definition block_row :: "('m, 'g, 'priv, 'pub, 'rnd, 'a, 'uri, 'w, 'rep) ctl_env \<Rightarrow> recovery_db \<Rightarrow> bytes \<Rightarrow> Block \<Rightarrow> u64 \<Rightarrow> ETxOutRecord list \<Rightarrow> bool" where
  "block_row E db k block ts rows \<longleftrightarrow>
     (\<exists>b \<in> set (ingested_blocks db). ib_key b = k \<and> ib_block_number b = as_i64 (bk_index block) \<and>
        ib_cumulative_txo_count b = as_i64 (bk_cumulative_txo_count block) \<and> ib_timestamp b = as_i64 ts \<and>
        ib_data b = enc_rows E rows)"

lemma wp_publish:
  assumes laws: "ctl_laws E content dec" and mid: "mid E content dec s0 rows iid s" and stuck: "publish_stuck E \<Longrightarrow> t"
  shows "wp t (retry (db_call E (\<lambda>now. add_block_data (enc_rows E) now iid block ts rows)))
     (\<lambda>st s'. calm s s' \<and> state_locked s' = state_locked s \<and>
        (block_already_scanned_with_this_key st \<or> block_row E (ctl_db s') (our_pubkey E s0) block ts rows))
     (calm s) s"
proof (rule wp_retry_or [where I = "\<lambda>s'. calm s s' \<and> state_locked s' = state_locked s"])
  let ?f = "\<lambda>now. add_block_data (enc_rows E) now iid block ts rows"
  fix s1
  assume I: "calm s s1 \<and> state_locked s1 = state_locked s"
  obtain db w where o: "others E (outside s1) (ctl_db s1) = (db, w)" by (metis surj_pair)
  obtain r db' where f: "?f (clock E w) db = (r, db')" by (metis surj_pair)
  have grow: "db_grows (ctl_db s) db" "db_grows db db'"
    using I others_grow [OF ctl_lawsD(7) [OF laws] o] grows_add_block [of db "enc_rows E" "clock E w" iid block ts rows] f
    by (auto simp: calm_def intro: db_grows_trans)
  then have calm: "calm s (s1\<lparr>ctl_db := db', outside := w\<rparr>)"
    using I by (auto simp: calm_def intro: db_grows_trans)
  have dbi: "db_inv db" "db_le (ctl_db s) db" using grow(1) mid by (auto simp: db_grows_def mid_def)
  have "block_row E db' (our_pubkey E s0) block ts rows" if "r = Ok st" "\<not> block_already_scanned_with_this_key st" for st
  proof -
    have "announced E (ctl_db s) (enclave s) iid" using mid by (simp add: mid_def)
    from announced_mono [OF this dbi(2)] obtain row where row: "row \<in> set (ingest_invocations db)" "ii_id row = iid"
        "ii_ingress_key row = Public_bytes (kex E) (get_ingress_pubkey (kex E) (enclave s))" by (auto simp: announced_def)
    moreover have "Public_bytes (kex E) (get_ingress_pubkey (kex E) (enclave s)) = our_pubkey E s0"
      using mid by (simp add: mid_def our_pubkey_def get_ingress_pubkey_def)
    ultimately show ?thesis
      using add_block_row [of "enc_rows E" "clock E w" iid block ts rows db st row] f that dbi(1)
      by (auto simp: block_row_def)
  qed
  then show "wp True (db_call E ?f)
     (\<lambda>r s'. case r of Inl e \<Rightarrow> calm s s' \<and> state_locked s' = state_locked s
      | Inr st \<Rightarrow> calm s s' \<and> state_locked s' = state_locked s \<and>
          (block_already_scanned_with_this_key st \<or> block_row E (ctl_db s') (our_pubkey E s0) block ts rows)) (calm s) s1"
    using calm I by (auto simp: wp_db_call o f split: sum.splits)
next
  assume "retry (db_call E (\<lambda>now. add_block_data (enc_rows E) now iid block ts rows)) s = None"
  moreover have "db_inv (ctl_db s)" "iid \<in> ii_id ` set (ingest_invocations (ctl_db s))"
    using mid by (auto simp: mid_def announced_def)
  ultimately show t using stuck unfolding publish_stuck_def by blast
qed simp

lemma block_row_published:
  assumes "block_row E db k block ts rows" "dec (enc_rows E rows) = Some rows" "x \<in> search_key ` set rows"
  shows "published dec db x"
proof -
  obtain b where "b \<in> set (ingested_blocks db)" "ib_data b = enc_rows E rows" using assms(1) by (auto simp: block_row_def)
  with assms(2,3) show ?thesis unfolding published_def by (intro bexI [of _ b] exI [of _ rows]) simp_all
qed

section \<open>A whole block\<close>

definition block_of :: "Block \<Rightarrow> TxOut list \<Rightarrow> u64 \<Rightarrow> TxsForIngest" where
  "block_of block outputs ts =
     \<lparr>chunk_block_index = bk_index block, global_txo_index = bk_cumulative_txo_count block - of_nat (length outputs),
      redacted_txs = outputs, chunk_timestamp = ts\<rparr>"

text \<open>The block is in the database with everything it delivers, and the server waits for the next one.\<close>

definition block_done ::
  "('m, 'g, 'priv, 'pub, 'rnd, 'a, 'uri, 'w, 'rep) ctl_env \<Rightarrow> ('m \<Rightarrow> bytes \<rightharpoonup> bytes) \<Rightarrow> (bytes \<Rightarrow> ETxOutRecord list option) \<Rightarrow> Block \<Rightarrow> TxOut list \<Rightarrow> u64 \<Rightarrow> ('m, 'g, 'priv, 'a, 'uri, 'w) IngestController \<Rightarrow> ('m, 'g, 'priv, 'a, 'uri, 'w) IngestController \<Rightarrow> bool"
where
  "block_done E content dec block outputs ts s s' \<longleftrightarrow>
     ctl_inv E content dec s' \<and> filed E s' \<and> state_locked s' = state_locked s \<and> db_le (ctl_db s) (ctl_db s') \<and>
     ingress_key (enclave s') = ingress_key (enclave s) \<and>
     (\<exists>iid. controller_state s' = (controller_state s)
        \<lparr>cs_ingest_invocation_id := Some iid, cs_next_block_index := cs_next_block_index (controller_state s) + 1\<rparr>) \<and>
     (\<exists>rows. block_row E (ctl_db s') (our_pubkey E s) block ts rows \<and>
        (\<forall>j < length outputs. delivered E (ctl_db s') (ingress_key (enclave s)) (block_of block outputs ts) rows j))"

lemma block_done_wrote:
  assumes "ctl_inv E content dec s1" "wrote E s1 s'"
    and "state_locked s1 = state_locked s" "db_le (ctl_db s) (ctl_db s1)" "ingress_key (enclave s1) = ingress_key (enclave s)"
    and "controller_state s1 = (controller_state s)
        \<lparr>cs_ingest_invocation_id := Some iid, cs_next_block_index := cs_next_block_index (controller_state s) + 1\<rparr>"
    and "block_row E (ctl_db s1) (our_pubkey E s) block ts rows"
    and "\<forall>j < length outputs. delivered E (ctl_db s1) (ingress_key (enclave s)) (block_of block outputs ts) rows j"
  shows "block_done E content dec block outputs ts s s'"
  using assms ctl_inv_wrote [OF assms(1,2)] unfolding block_done_def wrote_def by auto

lemma mid_published:
  assumes laws: "ctl_laws E content dec" and mid: "mid E content dec s0 rows iid s"
    and calm: "calm s s1" "state_locked s1 = state_locked s" and row: "block_row E (ctl_db s1) k block ts rows"
    and active: "is_active (controller_state s0)"
  shows "ctl_inv E content dec (s1\<lparr>controller_state := (controller_state s1)\<lparr>cs_next_block_index := n\<rparr>\<rparr>)"
proof -
  have m: "mid E content dec s0 rows iid s1" by (rule mid_calm [OF mid calm])
  have "no_gaps E content dec (ctl_db s1) (enclave s1)"
    unfolding no_gaps_def
  proof (intro allI impI)
    fix sec c
    assume "c < enclave_counter content (enclave s1) sec"
    then have "published dec (ctl_db s1) (core_prf (rng_core E) sec c) \<or> core_prf (rng_core E) sec c \<in> search_key ` set rows"
      using m unfolding mid_def covered_def by blast
    then show "published dec (ctl_db s1) (core_prf (rng_core E) sec c)"
      using block_row_published [where dec = dec, OF row ctl_lawsD(6) [OF laws, of rows]] by blast
  qed
  with m active show ?thesis
    by (auto simp: mid_def ctl_inv_def is_active_def is_idle_def sealed_ok_def our_pubkey_def)
qed

lemma chunks_of_concat: "n \<noteq> 0 \<Longrightarrow> concat (chunks_of n xs) = xs"
proof (induction n xs rule: chunks_of.induct)
  case (1 n xs)
  then show ?case by (subst chunks_of.simps) simp
qed

lemma unlocked_id:
  "\<not> state_locked s \<Longrightarrow> s\<lparr>controller_state := st, state_locked := False\<rparr> = s\<lparr>controller_state := st\<rparr>"
  by (cases s) simp

text \<open>After \<^verbatim>\<open>add_block_data\<close>: the server lost the race and is idle, or the block is done.\<close>

lemma wp_block_added:
  assumes laws: "ctl_laws E content dec" and mid: "mid E content dec s0 rows iid s"
    and s0: "\<not> state_locked s0" "db_inv (ctl_db s0)" "is_active (controller_state s0)"
    and calm: "calm s s1" "state_locked s1 = state_locked s"
    and row: "block_already_scanned_with_this_key st \<or> block_row E (ctl_db s1) (our_pubkey E s0) block ts rows"
    and dl: "\<forall>j < length outputs. delivered E (ctl_db s) (ingress_key (enclave s0)) (block_of block outputs ts) rows j"
  shows "wp t (bnd (with_state (block_added E st)) (\<lambda>_. write_state_file E))
     (\<lambda>_ s'. went_idle E content s0 s' \<or> block_done E content dec block outputs ts s0 s')
     (\<lambda>s'. db_grows (ctl_db s0) (ctl_db s')) s1"
proof -
  let ?Q = "\<lambda>_ s'. went_idle E content s0 s' \<or> block_done E content dec block outputs ts s0 s'"
  let ?R = "\<lambda>s'. db_grows (ctl_db s0) (ctl_db s')"
  have m: "mid E content dec s0 rows iid s1" by (rule mid_calm [OF mid calm])
  have unl: "\<not> state_locked s1" "db_grows (ctl_db s0) (ctl_db s1)" using m s0 by (auto simp: mid_def db_grows_def)
  let ?s1 = "s1\<lparr>state_locked := True\<rparr>"
  show ?thesis
  proof (cases "block_already_scanned_with_this_key st")
    case True
    have "wp t (bnd (change_state set_idle) (\<lambda>_. expect (ctl_new_egress_key E))) (\<lambda>_. went_idle E content ?s1)
        (\<lambda>s'. db_grows (ctl_db ?s1) (ctl_db s')) ?s1"
      by (rule wp_go_idle [OF laws]) (use m in \<open>auto simp: mid_def\<close>)
    then have "wp t (block_added E st) (\<lambda>_ s'. wp t (write_state_file E) ?Q ?R (s'\<lparr>state_locked := False\<rparr>)) ?R ?s1"
      unfolding block_added_def if_P [OF True]
    proof (rule wp_mono)
      fix x s2
      assume idle: "went_idle E content ?s1 s2"
      let ?s2 = "s2\<lparr>state_locked := False\<rparr>"
      have w: "went_idle E content s0 ?s2"
        using idle m s0 unl by (auto simp: went_idle_def mid_def sealed_ok_def our_pubkey_def intro: db_grows_trans)
      have "wp t (write_state_file E) (\<lambda>_. wrote E ?s2) (\<lambda>s'. ctl_db s' = ctl_db ?s2) ?s2"
        by (rule wp_write_state_file [OF laws]) (use w in \<open>auto simp: went_idle_def enclave_store_ok_def\<close>)
      then show "wp t (write_state_file E) ?Q ?R ?s2"
        by (rule wp_mono) (use w in \<open>auto simp: went_idle_def wrote_def\<close>)
    qed (use unl in \<open>auto intro: db_grows_trans\<close>)
    then show ?thesis using unl(1) by (simp add: wp_simps)
  next
    case False
    let ?n = "cs_next_block_index (controller_state s1) + 1"
    let ?s2 = "s1\<lparr>controller_state := (controller_state s1)\<lparr>cs_next_block_index := ?n\<rparr>\<rparr>"
    have active: "\<not> is_idle (controller_state s1)" using m s0(3) by (simp add: mid_def is_idle_def is_active_def)
    have row': "block_row E (ctl_db s1) (our_pubkey E s0) block ts rows" using row False by simp
    have inv: "ctl_inv E content dec ?s2" by (rule mid_published [OF laws mid calm row' s0(3)])
    have le: "db_le (ctl_db s) (ctl_db s1)" using calm(1) mid by (auto simp: calm_def db_grows_def mid_def)
    have dl': "\<forall>j < length outputs. delivered E (ctl_db ?s2) (ingress_key (enclave s0)) (block_of block outputs ts) rows j"
      using dl by (auto intro: delivered_mono [OF _ le])
    have "wp t (write_state_file E) (\<lambda>_. wrote E ?s2) (\<lambda>s'. ctl_db s' = ctl_db ?s2) ?s2"
      by (rule wp_write_state_file [OF laws ctl_inv_store [OF inv]]) (use inv unl in \<open>simp_all add: ctl_inv_def\<close>)
    then have "wp t (write_state_file E) ?Q ?R ?s2"
    proof (rule wp_mono)
      fix x s'
      assume "wrote E ?s2 s'"
      from block_done_wrote [OF inv this, of s0 iid block ts rows outputs] show "?Q x s'"
        using m row' dl' by (simp add: mid_def)
    qed (use unl in auto)
    then show ?thesis using unl(1) active False by (simp add: wp_simps block_added_def increment_next_block_index_def is_idle_def unlocked_id)
  qed
qed

definition processed ::
  "('m, 'g, 'priv, 'pub, 'rnd, 'a, 'uri, 'w, 'rep) ctl_env \<Rightarrow> ('m \<Rightarrow> bytes \<rightharpoonup> bytes) \<Rightarrow> (bytes \<Rightarrow> ETxOutRecord list option) \<Rightarrow> Block \<Rightarrow> TxOut list \<Rightarrow> u64 \<Rightarrow> ('m, 'g, 'priv, 'a, 'uri, 'w) IngestController \<Rightarrow> ('m, 'g, 'priv, 'a, 'uri, 'w) IngestController \<Rightarrow> bool"
where
  "processed E content dec block outputs ts s s' \<longleftrightarrow>
     went_idle E content s s' \<or> ingest_failed E s s' \<or> block_done E content dec block outputs ts s s'"

lemma wp_process_chunks:
  assumes laws: "ctl_laws E content dec" and s0: "\<not> state_locked s0" "db_inv (ctl_db s0)" "is_active (controller_state s0)"
    and mid: "mid E content dec s0 [] iid s" and n: "n \<noteq> 0"
    and stuck: "rotation_stuck E \<Longrightarrow> t" "publish_stuck E \<Longrightarrow> t"
  shows "wp t (bnd (ingest_chunks E (bk_index block) ts (our_pubkey E s0) (chunks_of n outputs) iid
                      (bk_cumulative_txo_count block - of_nat (length outputs)) []) (\<lambda>ingested.
                 case ingested of
                   None \<Rightarrow> ret ()
                 | Some (iid, tx_rows) \<Rightarrow>
                     bnd (retry (db_call E (\<lambda>now. add_block_data (enc_rows E) now iid block ts tx_rows))) (\<lambda>st.
                     bnd (with_state (block_added E st)) (\<lambda>_. write_state_file E))))
     (\<lambda>_. processed E content dec block outputs ts s0) (\<lambda>s'. db_grows (ctl_db s0) (ctl_db s')) s"
proof -
  let ?R = "\<lambda>s'. db_grows (ctl_db s0) (ctl_db s')"
  let ?next = "\<lambda>iid tx_rows. bnd (retry (db_call E (\<lambda>now. add_block_data (enc_rows E) now iid block ts tx_rows))) (\<lambda>st.
      bnd (with_state (block_added E st)) (\<lambda>_. write_state_file E))"
  have publish: "wp t (?next iid' rows) (\<lambda>_. processed E content dec block outputs ts s0) ?R s1"
    if m: "mid E content dec s0 rows iid' s1"
      and dl: "\<forall>j < length outputs. delivered E (ctl_db s1) (ingress_key (enclave s0)) (block_of block outputs ts) rows j"
    for iid' rows s1
    unfolding wp_bnd [of t "retry _"]
  proof (rule wp_mono [OF wp_publish [OF laws m stuck(2)]])
    fix st :: AddBlockDataStatus and s2
    assume *: "calm s1 s2 \<and> state_locked s2 = state_locked s1 \<and>
      (block_already_scanned_with_this_key st \<or> block_row E (ctl_db s2) (our_pubkey E s0) block ts rows)"
    show "wp t (bnd (with_state (block_added E st)) (\<lambda>_. write_state_file E))
        (\<lambda>_. processed E content dec block outputs ts s0) ?R s2"
      by (rule wp_mono [OF wp_block_added [OF laws m s0 _ _ _ dl]]) (use * in \<open>auto simp: processed_def\<close>)
  next
    fix s2
    assume "calm s1 s2"
    then show "?R s2" using m s0(2) by (auto simp: mid_def calm_def db_grows_def intro: db_le_trans)
  qed
  have "wp t (ingest_chunks E (chunk_block_index (block_of block outputs ts)) (chunk_timestamp (block_of block outputs ts))
        (our_pubkey E s0) (chunks_of n outputs) iid (bk_cumulative_txo_count block - of_nat (length outputs)) [])
      (\<lambda>r s'. case r of
        None \<Rightarrow> ingest_failed E s0 s'
      | Some (iid', rows') \<Rightarrow> mid E content dec s0 rows' iid' s' \<and>
          (\<forall>j < length (redacted_txs (block_of block outputs ts)).
             delivered E (ctl_db s') (ingress_key (enclave s0)) (block_of block outputs ts) rows' j)) ?R s"
    by (rule wp_ingest_chunks [OF laws stuck(1) s0(1,2) mid, where pre = "[]"])
       (simp_all add: block_of_def chunks_of_concat [OF n])
  then have "wp t (ingest_chunks E (bk_index block) ts (our_pubkey E s0) (chunks_of n outputs) iid
        (bk_cumulative_txo_count block - of_nat (length outputs)) [])
      (\<lambda>ingested. wp t (case ingested of None \<Rightarrow> ret () | Some (iid, tx_rows) \<Rightarrow> ?next iid tx_rows)
         (\<lambda>_. processed E content dec block outputs ts s0) ?R) ?R s"
    unfolding block_of_def TxsForIngest.select_convs
    by (rule wp_mono) (use publish in \<open>auto simp: wp_ret processed_def block_of_def split: option.splits\<close>)
  then show ?thesis by (subst wp_bnd)
qed

lemma wp_process_next_block:
  assumes laws: "ctl_laws E content dec" and inv: "ctl_inv E content dec s" and "\<not> state_locked s" "is_active (controller_state s)"
    and stuck: "rotation_stuck E \<Longrightarrow> t" "publish_stuck E \<Longrightarrow> t"
    and index: "bk_index block = cs_next_block_index (controller_state s)"
  shows "wp t (process_next_block E block outputs ts) (\<lambda>_. processed E content dec block outputs ts s)
           (\<lambda>s'. db_grows (ctl_db s) (ctl_db s')) s"
proof -
  let ?R = "\<lambda>s'. db_grows (ctl_db s) (ctl_db s')"
  let ?pk = "egress_pubkey (kex E) (rng_core E) (egress_key (enclave s))"
  have pk: "get_kex_rng_pubkey (kex E) (rng_core E) (enclave s) = Some ?pk"
    using ctl_inv_store [OF inv] by (auto simp: get_kex_rng_pubkey_def)
  let ?s = "s\<lparr>state_locked := True\<rparr>"
  have p: "wp t (prepare_block E (bk_index block) (our_pubkey E s) ?pk)
      (\<lambda>r. case r of None \<Rightarrow> went_idle E content ?s | Some iid \<Rightarrow> mid E content dec ?s [] iid)
      (\<lambda>s'. db_grows (ctl_db ?s) (ctl_db s')) ?s"
    by (rule wp_prepare_block [OF laws]) (use inv index in \<open>simp_all add: our_pubkey_def\<close>)
  have prep: "wp t (with_state (prepare_block E (bk_index block) (our_pubkey E s) ?pk))
      (\<lambda>r. case r of None \<Rightarrow> went_idle E content s | Some iid \<Rightarrow> mid E content dec s [] iid) ?R s"
    unfolding wp_with_state if_not_P [OF assms(3)]
    by (rule wp_mono [OF p]) (use assms(3) in \<open>auto simp: went_idle_def mid_def sealed_ok_def our_pubkey_def split: option.splits\<close>)
  have s0: "db_inv (ctl_db s)" using inv by (simp add: ctl_inv_def)
  show ?thesis
    unfolding process_next_block_def wp_bnd wp_gets pk option.case
  proof (rule wp_mono [OF prep])
    fix r s1
    assume r: "(case r of None \<Rightarrow> went_idle E content s | Some iid \<Rightarrow> mid E content dec s [] iid) s1"
    show "wp t (case r of None \<Rightarrow> ret ()
             | Some iid \<Rightarrow>
                 if bk_cumulative_txo_count block < of_nat (length outputs) \<or> cfg_max_transactions (config E) = 0 then panic
                 else bnd (ingest_chunks E (bk_index block) ts (our_pubkey E s)
                             (chunks_of (cfg_max_transactions (config E)) outputs) iid
                             (bk_cumulative_txo_count block - of_nat (length outputs)) []) (\<lambda>ingested.
                        case ingested of
                          None \<Rightarrow> ret ()
                        | Some (iid, tx_rows) \<Rightarrow>
                            bnd (retry (db_call E (\<lambda>now. add_block_data (enc_rows E) now iid block ts tx_rows))) (\<lambda>add_blocks_result.
                            bnd (with_state (block_added E add_blocks_result)) (\<lambda>_.
                              write_state_file E))))
          (\<lambda>_. processed E content dec block outputs ts s) ?R s1"
    proof (cases r)
      case None
      then show ?thesis using r by (simp add: wp_simps processed_def)
    next
      case (Some iid)
      then have m: "mid E content dec s [] iid s1" using r by simp
      have "?R s1" using m s0 by (simp add: mid_def db_grows_def)
      then show ?thesis
        unfolding Some option.case
        using wp_process_chunks [OF laws assms(3) s0 assms(4) m _ stuck, of "cfg_max_transactions (config E)"]
        by (auto simp: wp_panic)
    qed
  qed auto
qed

end
