(* ===== verification/Controller_Handlers.thy ===== *)
theory Controller_Handlers
  imports Controller_Block
begin

text \<open>
  Every handler of the ingest controller, called with the lock free, ends with the lock free and
  keeps the invariant \<open>ctl_inv\<close>: shown with triples of conditions before and after a handler, over the
  combinators the handlers are made of. The exceptions are \<^verbatim>\<open>new_keys\<close>, which waits for itself, and
  the two loops of \<^verbatim>\<open>process_next_block\<close> that write to the database.
\<close>

section \<open>Triples\<close>

definition triple ::
  "(('m, 'g, 'priv, 'a, 'uri, 'w) IngestController \<Rightarrow> bool) \<Rightarrow> (('m, 'g, 'priv, 'a, 'uri, 'w) IngestController, 'x) run
     \<Rightarrow> (('m, 'g, 'priv, 'a, 'uri, 'w) IngestController \<Rightarrow> bool) \<Rightarrow> bool"
where
  "triple P m Q \<longleftrightarrow> (\<forall>s. P s \<longrightarrow> wp False m (\<lambda>_. Q) (\<lambda>s'. db_inv (ctl_db s')) s)"

lemma tripleD: "triple P m Q \<Longrightarrow> P s \<Longrightarrow> wp False m (\<lambda>_. Q) (\<lambda>s'. db_inv (ctl_db s')) s"
  by (simp add: triple_def)

lemma triple_pre: "triple P m Q \<Longrightarrow> (\<And>s. P' s \<Longrightarrow> P s) \<Longrightarrow> triple P' m Q"
  by (simp add: triple_def)

lemma triple_post: "triple P m Q \<Longrightarrow> (\<And>s. Q s \<Longrightarrow> Q' s) \<Longrightarrow> triple P m Q'"
  unfolding triple_def
proof (intro allI impI)
  fix s assume *: "\<forall>s. P s \<longrightarrow> wp False m (\<lambda>_. Q) (\<lambda>s'. db_inv (ctl_db s')) s" "\<And>s. Q s \<Longrightarrow> Q' s" "P s"
  then have "wp False m (\<lambda>_. Q) (\<lambda>s'. db_inv (ctl_db s')) s" by simp
  then show "wp False m (\<lambda>_. Q') (\<lambda>s'. db_inv (ctl_db s')) s" by (rule wp_mono) (simp_all add: *(2))
qed

lemma triple_ret: "(\<And>s. P s \<Longrightarrow> Q s) \<Longrightarrow> triple P (ret x) Q"
  by (simp add: triple_def wp_simps)

lemma triple_panic: "(\<And>s. P s \<Longrightarrow> db_inv (ctl_db s)) \<Longrightarrow> triple P panic Q"
  by (simp add: triple_def wp_simps)

lemma triple_bnd:
  assumes "triple P m P'" "\<And>x. triple P' (f x) Q"
  shows "triple P (bnd m f) Q"
  unfolding triple_def wp_bnd
proof (intro allI impI)
  fix s assume "P s"
  show "wp False m (\<lambda>x. wp False (f x) (\<lambda>_. Q) (\<lambda>s'. db_inv (ctl_db s'))) (\<lambda>s'. db_inv (ctl_db s')) s"
    by (rule wp_mono [OF tripleD [OF assms(1) \<open>P s\<close>]]) (use tripleD [OF assms(2)] in auto)
qed

lemma triple_gets:
  assumes "\<And>x. triple (\<lambda>s. P s \<and> f s = x) (g x) Q"
  shows "triple P (bnd (gets f) g) Q"
  using assms unfolding triple_def wp_bnd wp_gets by simp

lemma triple_attempt:
  assumes "triple P m P'" "\<And>s. P' s \<Longrightarrow> Q s" "\<And>x. triple P' (f x) Q"
  shows "triple P (attempt conv m f) Q"
  unfolding attempt_def
  by (rule triple_bnd [OF assms(1)]) (auto split: sum.splits intro: triple_ret assms(2,3))

lemma triple_expect: "triple P m Q \<Longrightarrow> (\<And>s. Q s \<Longrightarrow> db_inv (ctl_db s)) \<Longrightarrow> triple P (expect m) Q"
  unfolding expect_def by (rule triple_bnd) (auto split: sum.splits intro: triple_ret triple_panic)

lemma triple_for_each: "(\<And>x. x \<in> set xs \<Longrightarrow> triple P (f x) P) \<Longrightarrow> triple P (for_each f xs) P"
  by (induction xs) (auto intro: triple_ret triple_attempt)

text \<open>The invariant with the lock held or free, and the same for an idle server.\<close>

definition J ::
  "('m, 'g, 'priv, 'pub, 'rnd, 'a, 'uri, 'w, 'rep) ctl_env \<Rightarrow> ('m \<Rightarrow> bytes \<rightharpoonup> bytes) \<Rightarrow> (bytes \<Rightarrow> ETxOutRecord list option)
     \<Rightarrow> bool \<Rightarrow> bool \<Rightarrow> ('m, 'g, 'priv, 'a, 'uri, 'w) IngestController \<Rightarrow> bool"
where
  "J E content dec idle locked s \<longleftrightarrow>
     ctl_inv E content dec s \<and> state_locked s = locked \<and> (idle \<longrightarrow> is_idle (controller_state s))"

lemma J_db: "J E content dec i l s \<Longrightarrow> db_inv (ctl_db s)"
  by (simp add: J_def ctl_inv_def)

lemma J_calm: "J E content dec i l s \<Longrightarrow> calm s s' \<Longrightarrow> state_locked s' = state_locked s \<Longrightarrow> J E content dec i l s'"
  unfolding J_def by (metis ctl_inv_calm calm_def)

lemma J_weaken: "J E content dec i l s \<Longrightarrow> J E content dec False l s"
  by (simp add: J_def)

lemma triple_quiet:
  assumes "quiet b m" "b \<Longrightarrow> \<not> l"
  shows "triple (J E content dec i l) m (J E content dec i l)"
  unfolding triple_def
proof (intro allI impI)
  fix s assume J: "J E content dec i l s"
  then have lock: "b \<Longrightarrow> \<not> state_locked s" using assms(2) by (simp add: J_def)
  show "wp False m (\<lambda>_. J E content dec i l) (\<lambda>s'. db_inv (ctl_db s')) s"
    by (rule wp_mono [OF quietD [OF assms(1) lock]])
       (use J in \<open>auto intro: J_calm simp: calm_def db_grows_def dest: J_db\<close>)
qed

lemma triple_with_state:
  assumes "triple (J E content dec i True) m (J E content dec i' True)"
  shows "triple (J E content dec i False) (with_state m) (J E content dec i' False)"
  unfolding triple_def wp_with_state
proof (intro allI impI)
  fix s assume J: "J E content dec i False s"
  then have "wp False m (\<lambda>_. J E content dec i' True) (\<lambda>s'. db_inv (ctl_db s')) (s\<lparr>state_locked := True\<rparr>)"
    by (intro tripleD [OF assms]) (simp add: J_def)
  then have "wp False m (\<lambda>_ s'. J E content dec i' False (s'\<lparr>state_locked := False\<rparr>)) (\<lambda>s'. db_inv (ctl_db s')) (s\<lparr>state_locked := True\<rparr>)"
    by (rule wp_mono) (auto simp: J_def)
  then show "if state_locked s then False
      else wp False m (\<lambda>x s'. J E content dec i' False (s'\<lparr>state_locked := False\<rparr>)) (\<lambda>s'. db_inv (ctl_db s')) (s\<lparr>state_locked := True\<rparr>)"
    using J by (simp add: J_def)
qed

lemma triple_write_inner:
  assumes "ctl_laws E content dec"
  shows "triple (J E content dec i l) (write_state_file_inner E) (J E content dec i l)"
  unfolding triple_def
proof (intro allI impI)
  fix s assume J: "J E content dec i l s"
  then have inv: "ctl_inv E content dec s" by (simp add: J_def)
  then have "sealed_ok E s" by (simp add: ctl_inv_def)
  show "wp False (write_state_file_inner E) (\<lambda>_. J E content dec i l) (\<lambda>s'. db_inv (ctl_db s')) s"
    by (rule wp_mono [OF wp_write_state_file_inner [OF assms ctl_inv_store [OF inv] \<open>sealed_ok E s\<close>]])
       (use J J_db [OF J] ctl_inv_wrote [OF inv] in \<open>auto simp: J_def wrote_def\<close>)
qed

lemma triple_write:
  assumes "ctl_laws E content dec"
  shows "triple (J E content dec i False) (write_state_file E) (J E content dec i False)"
  unfolding write_state_file_def by (intro triple_with_state triple_write_inner assms)

text \<open>Changes of the controller state that keep the mode and the invocation, or leave an idle server.\<close>

lemma J_state:
  assumes "J E content dec i l s" "cs_mode st = cs_mode (controller_state s)"
    and "cs_ingest_invocation_id st = cs_ingest_invocation_id (controller_state s)"
  shows "J E content dec i l (s\<lparr>controller_state := st\<rparr>)"
  using assms by (auto simp: J_def ctl_inv_def is_idle_def sealed_ok_def our_pubkey_def split: option.splits)

lemma triple_set_active:
  "triple (J E content dec True l) (change_state set_active) (J E content dec False l)"
  by (auto simp: triple_def wp_simps J_def ctl_inv_def is_idle_def set_active_def sealed_ok_def our_pubkey_def
      split: option.splits)

lemma triple_set_next: "triple (J E content dec i l) (on_state (set_next_block_index n)) (J E content dec i l)"
  by (auto simp: triple_def wp_simps set_next_block_index_def J_state)

lemma triple_set_window: "triple (J E content dec i l) (on_state (set_pubkey_expiry_window n)) (J E content dec i l)"
  by (auto simp: triple_def wp_simps set_pubkey_expiry_window_def J_state Let_def)

lemma triple_set_peers_inner: "triple (J E content dec i l) (set_peers_inner E' ps) (J E content dec i l)"
proof -
  have "triple (J E content dec i l) (change_state (set_peers qs)) (J E content dec i l)" for qs
    by (auto simp: triple_def wp_simps set_peers_def J_state Let_def)
  then show ?thesis
    unfolding set_peers_inner_def
    by (intro triple_attempt [OF triple_ret]) (auto intro!: triple_ret triple_bnd)
qed

section \<open>Keys\<close>

lemma set_ingress_private_key_effect:
  assumes "set_ingress_private_key C K P msg e = (r, e')"
  shows "rng_store e' = rng_store e" "egress_key e' = egress_key e" "r = Err x \<Longrightarrow> ingress_key e' = ingress_key e"
  using assms by (auto simp: set_ingress_private_key_def split: prod.splits sum.splits)

text \<open>An idle server has no invocation, so its ingress key can change.\<close>

lemma J_new_ingress:
  assumes "J E content dec True l s" "rng_store e' = rng_store (enclave s)"
  shows "J E content dec True l (s\<lparr>enclave := e', last_sealed_key := None\<rparr>)"
  using assms enclave_eqI [OF assms(2)]
  by (auto simp: J_def ctl_inv_def sealed_ok_def fresh_egress_def)

lemma triple_set_key_and_forget:
  assumes "\<And>x. triple (J E content dec True l) (f x) Q" "\<And>s. J E content dec True l s \<Longrightarrow> Q s"
  shows "triple (J E content dec True l)
    (attempt conv (ecall (set_ingress_private_key C K P msg)) (\<lambda>x. bnd forget_sealed_key (\<lambda>_. f x))) Q"
  unfolding triple_def
proof (intro allI impI)
  fix s assume J: "J E content dec True l s"
  obtain r e' where r: "set_ingress_private_key C K P msg (enclave s) = (r, e')" by (metis surj_pair)
  note eff = set_ingress_private_key_effect [OF r]
  have J': "J E content dec True l (s\<lparr>enclave := e', last_sealed_key := None\<rparr>)" by (rule J_new_ingress [OF J eff(1)])
  have "J E content dec True l (s\<lparr>enclave := e'\<rparr>)" if "r = Err x" for x
  proof -
    have "calm s (s\<lparr>enclave := e'\<rparr>\<lparr>enclave := (enclave s)\<lparr>ie_ake := ie_ake e'\<rparr>\<rparr>)" by (simp add: calm_def)
    moreover have "e' = (enclave s)\<lparr>ie_ake := ie_ake e'\<rparr>"
      using r that by (auto simp: set_ingress_private_key_def split: prod.splits sum.splits)
    ultimately show ?thesis using J_calm [OF J, of "s\<lparr>enclave := e'\<rparr>"] by simp
  qed
  then show "wp False (attempt conv (ecall (set_ingress_private_key C K P msg)) (\<lambda>x. bnd forget_sealed_key (\<lambda>_. f x)))
      (\<lambda>_. Q) (\<lambda>s'. db_inv (ctl_db s')) s"
    using tripleD [OF assms(1) J'] assms(2)
    by (auto simp: wp_simps r forget_sealed_key_def split: sum.splits)
qed

text \<open>A handler that first asks, in a scope of its own, whether the server is idle.\<close>

lemma triple_if_idle:
  assumes "triple (J E content dec True False) m (J E content dec False False)"
  shows "triple (J E content dec False False)
    (bnd (with_state (gets (\<lambda>s. is_idle (controller_state s)))) (\<lambda>idle. if \<not> idle then ret x else m)) (J E content dec False False)"
  unfolding triple_def
proof (intro allI impI)
  fix s assume J: "J E content dec False False s"
  then have eq: "s\<lparr>state_locked := False\<rparr> = s" and "\<not> state_locked s" by (cases s; simp add: J_def)+
  moreover have "is_idle (controller_state s) \<Longrightarrow> J E content dec True False s" using J by (simp add: J_def)
  ultimately show "wp False (bnd (with_state (gets (\<lambda>s. is_idle (controller_state s)))) (\<lambda>idle. if \<not> idle then ret x else m))
      (\<lambda>_. J E content dec False False) (\<lambda>s'. db_inv (ctl_db s')) s"
    using J tripleD [OF assms, of s] by (simp add: wp_simps eq del: IngestController.update_convs)
qed

lemma triple_set_ingress_private_key:
  assumes "ctl_laws E content dec"
  shows "triple (J E content dec False False) (ctl_set_ingress_private_key E msg) (J E content dec False False)"
  unfolding ctl_set_ingress_private_key_def
  by (intro triple_if_idle triple_set_key_and_forget)
     (auto intro!: triple_bnd [OF triple_write [OF assms]] triple_ret elim: J_weaken)

lemma triple_write_summary:
  assumes "ctl_laws E content dec"
  shows "triple (J E content dec i False) (bnd (write_state_file E) (\<lambda>_. bnd (get_ingest_summary E) (\<lambda>summary. ret (f summary))))
     (J E content dec False False)"
  by (intro triple_bnd [OF triple_write [OF assms]] triple_bnd [OF triple_quiet [OF quiet_summary]] triple_ret)
     (auto elim: J_weaken)

lemma triple_sync_keys:
  assumes "ctl_laws E content dec"
  shows "triple (J E content dec False False) (sync_keys_from_remote E remote) (J E content dec False False)"
  unfolding sync_keys_from_remote_def
proof (intro triple_if_idle)
  show "triple (J E content dec True False)
     (attempt IS_ReportCache (update_enclave_report_cache E) (\<lambda>_.
            bnd (PeerConnection_new (uri E) remote) (\<lambda>connection.
            attempt IS_Connection (peer_get_ingress_private_key E connection) (\<lambda>msg.
            attempt IS_Enclave (ecall (set_ingress_private_key (crypto E) (kex E) (sessions E) msg)) (\<lambda>_.
            bnd forget_sealed_key (\<lambda>_.
            bnd (write_state_file E) (\<lambda>_.
            bnd (get_ingest_summary E) (\<lambda>summary. ret (Ok summary)))))))))
     (J E content dec False False)"
    by (intro triple_attempt [OF triple_quiet [OF quiet_report_cache]] triple_bnd [OF triple_quiet [OF quiet_PeerConnection_new]]
        triple_attempt [OF triple_quiet [OF quiet_peer_get_key]] triple_set_key_and_forget triple_write_summary assms) (auto elim: J_weaken)
qed

section \<open>The other handlers\<close>

lemma triple_gets_any:
  assumes "\<And>s. P s \<Longrightarrow> triple P (g (f s)) Q"
  shows "triple P (bnd (gets f) g) Q"
  using assms unfolding triple_def wp_bnd wp_gets by simp

lemma quiet_check_backups: "quiet l (check_backups E ps ours xs)"
  unfolding check_backups_def by (intro quiet_intros) (auto intro: quiet_confirm_backup_cached)

lemma triple_activate_key:
  assumes laws: "ctl_laws E content dec" and len: "length ours = 32"
  shows "triple (J E content dec True True) (activate_key E n ours) (J E content dec False True)"
proof -
  note ok = ctl_lawsD(7) [OF laws]
  let ?I = "J E content dec True True"
  have finish: "triple ?I (if b then ret x else bnd (change_state set_active) (\<lambda>_. ret y)) (J E content dec False True)" for b x y
    by (auto intro!: triple_ret triple_bnd [OF triple_set_active] elim: J_weaken)
  show ?thesis
    unfolding activate_key_def
    by (intro triple_attempt [OF triple_quiet [OF quiet_find_start_block [OF ok len]]] triple_bnd [OF triple_expect [OF triple_set_next]]
        triple_attempt [OF triple_quiet [OF quiet_publish_report [OF ok]]] finish) (auto elim: J_weaken J_db)
qed

lemma triple_activate_idle:
  assumes "ctl_laws E content dec"
  shows "triple (J E content dec True True) (activate_idle E n ps) (J E content dec False True)"
  unfolding activate_idle_def
  by (intro triple_attempt [OF triple_quiet [OF quiet_report_cache]] triple_bnd [OF triple_quiet [OF quiet_open_peers]]
      triple_attempt [OF triple_quiet [OF quiet_check_statuses]] triple_gets_any
      triple_attempt [OF triple_quiet [OF quiet_check_backups]] triple_activate_key [OF assms our_pubkey_len [OF assms]])
     (auto elim: J_weaken)

lemma J_not_active: "J E content dec False l s \<Longrightarrow> \<not> is_active (controller_state s) \<Longrightarrow> J E content dec True l s"
  by (cases "cs_mode (controller_state s)") (simp_all add: J_def is_active_def is_idle_def)

lemma triple_activate_inner:
  assumes laws: "ctl_laws E content dec"
  shows "triple (J E content dec False True) (activate_inner E n) (J E content dec False True)"
  unfolding activate_inner_def
proof (rule triple_gets)
  let ?J = "J E content dec False True"
  fix st
  show "triple (\<lambda>s. ?J s \<and> controller_state s = st)
     (if is_active st then bnd (get_ingest_summary_inner E) (\<lambda>summary. ret (Ok (Some summary)))
      else activate_idle E n (cs_peers st)) ?J"
    by (auto intro!: triple_pre [OF triple_bnd [OF triple_quiet [OF quiet_summary_inner] triple_ret]]
        intro: triple_pre [OF triple_activate_idle [OF laws]] J_not_active)
qed

lemma triple_activate:
  assumes laws: "ctl_laws E content dec"
  shows "triple (J E content dec False False) (activate E n) (J E content dec False False)"
  unfolding activate_def
  by (intro triple_attempt [OF triple_with_state [OF triple_activate_inner [OF laws]]])
     (auto split: option.splits intro!: triple_ret triple_write_summary [OF laws])

lemma triple_restore_inner:
  "triple (J E content dec True True) (restore_inner E state_data) (J E content dec False True)"
proof -
  let ?I = "J E content dec True True"
  have checks: "quiet l (restore_checks E state_data k ps)" for l k ps
    unfolding restore_checks_def restore_check_peer_def
    by (auto split: sum.splits intro!: quiet_intros quiet_confirm_backup_cached)
  have finish: "triple ?I (case sm_mode state_data of Idle \<Rightarrow> ret (Ok ())
      | Active \<Rightarrow> bnd (change_state set_active) (\<lambda>_. ret (Ok ()))) (J E content dec False True)"
    by (auto split: IngestMode.splits intro!: triple_ret triple_bnd [OF triple_set_active] elim: J_weaken)
  show ?thesis
    unfolding restore_inner_def
    by (intro triple_attempt [where P' = ?I, OF triple_ret] triple_bnd [OF triple_quiet [OF quiet_gets]] triple_attempt [OF triple_quiet [OF checks]]
        triple_attempt [OF triple_set_peers_inner] triple_bnd [OF triple_expect [OF triple_set_window]]
        triple_bnd [OF triple_expect [OF triple_set_next]] finish) (auto elim: J_weaken J_db)
qed

lemma triple_restore:
  "triple (J E content dec False False) (restore_state_from_summary E state_data) (J E content dec False False)"
  unfolding restore_state_from_summary_def
proof (intro triple_with_state triple_gets)
  fix idle
  show "triple (\<lambda>s. J E content dec False True s \<and> is_idle (controller_state s) = idle)
     (if \<not> idle then ret (Err RS_ServerNotIdle) else restore_inner E state_data) (J E content dec False True)"
    by (cases idle) (auto intro!: triple_ret triple_pre [OF triple_restore_inner] simp: J_def)
qed

lemma triple_set_peers: "triple (J E content dec False False) (ctl_set_peers E ps) (J E content dec False False)"
  unfolding ctl_set_peers_def by (intro triple_with_state triple_set_peers_inner)

lemma triple_set_pubkey_expiry_window:
  "triple (J E content dec False False) (ctl_set_pubkey_expiry_window n) (J E content dec False False)"
  unfolding ctl_set_pubkey_expiry_window_def by (intro triple_with_state triple_set_window)

end
