(* ===== verification/Ingest_Worker.thy ===== *)
theory Ingest_Worker
  imports Ingest_Controller
begin

text \<open>
  The threads and services that drive the ingest controller: the worker that feeds it the blocks of
  the ledger and the one that checks on its peers (\<^verbatim>\<open>src/fog/ingest/server/src/worker.rs\<close>), and the
  calls of the grpc services (\<^verbatim>\<open>ingest_service.rs\<close>, \<^verbatim>\<open>ingest_peer_service.rs\<close>). The ledger and the
  watcher database are parameters over the outside world, in which also the request to stop is seen;
  sleeping is left out. A failed call is answered by one of the statuses of \<^verbatim>\<open>mc_util_grpc\<close>.
\<close>

section \<open>The workers (\<^verbatim>\<open>worker.rs\<close>)\<close>

datatype LedgerError = LE_NotFound | LE_Other string

datatype TimestampResultCode =
  TimestampFound | WatcherBehind | Unavailable | WatcherDatabaseError | BlockIndexOutOfBounds

record 'w ledger_ops =
  get_block_data :: "u64 \<Rightarrow> 'w \<Rightarrow> (LedgerError, Block \<times> TxOut list) result \<times> 'w"
  num_blocks :: "'w \<Rightarrow> (string, u64) result \<times> 'w"
  get_block_timestamp :: "u64 \<Rightarrow> 'w \<Rightarrow> (string, u64 \<times> TimestampResultCode) result \<times> 'w"
  stop_requested :: "'w \<Rightarrow> bool \<times> 'w"

definition timestamp_attempt ::
  "'w ledger_ops \<Rightarrow> u64 \<Rightarrow> (('m, 'g, 'priv, 'a, 'uri, 'w) IngestController, (unit, u64) result) run"
where
  "timestamp_attempt L block_index =
     bnd (world_call (get_block_timestamp L block_index)) (\<lambda>r.
       case r of
         Inr (ts, res) \<Rightarrow>
           (case res of
              WatcherBehind \<Rightarrow> ret (Err ())
            | BlockIndexOutOfBounds \<Rightarrow> ret (Ok (- 1))
            | Unavailable \<Rightarrow> ret (Err ())
            | WatcherDatabaseError \<Rightarrow> ret (Err ())
            | TimestampFound \<Rightarrow> ret (Ok ts))
       | Inl err \<Rightarrow> ret (Err ()))"

definition get_watcher_timestamp ::
  "'w ledger_ops \<Rightarrow> u64 \<Rightarrow> (('m, 'g, 'priv, 'a, 'uri, 'w) IngestController, u64) run"
where
  "get_watcher_timestamp L block_index = retry (timestamp_attempt L block_index)"

definition get_next_block_index ::
  "(('m, 'g, 'priv, 'a, 'uri, 'w) IngestController, u64 \<times> bool) run"
where
  "get_next_block_index =
     with_state (gets (\<lambda>s. (cs_next_block_index (controller_state s), is_idle (controller_state s))))"

text \<open>One pass of the loop of \<^verbatim>\<open>IngestWorker\<close>; the result is \<open>Ok\<close> when the loop ends.\<close>

definition ingest_worker_pass ::
  "('m, 'g, 'priv, 'pub, 'rnd, 'a, 'uri, 'w, 'rep) ctl_env \<Rightarrow> 'w ledger_ops
     \<Rightarrow> (('m, 'g, 'priv, 'a, 'uri, 'w) IngestController, (unit, unit) result) run"
where
  "ingest_worker_pass E L =
     bnd get_next_block_index (\<lambda>(next_block_index, idle).
     bnd (world_call (stop_requested L)) (\<lambda>stop.
       if stop then ret (Ok ())
       else if idle then ret (Err ())
       else bnd (world_call (get_block_data L next_block_index)) (\<lambda>r.
              case r of
                Inl e \<Rightarrow> ret (Err ())
              | Inr (block, outputs) \<Rightarrow>
                  bnd (get_watcher_timestamp L next_block_index) (\<lambda>timestamp.
                  bnd (process_next_block E block outputs timestamp) (\<lambda>_. ret (Err ()))))))"

definition ingest_worker ::
  "('m, 'g, 'priv, 'pub, 'rnd, 'a, 'uri, 'w, 'rep) ctl_env \<Rightarrow> 'w ledger_ops
     \<Rightarrow> (('m, 'g, 'priv, 'a, 'uri, 'w) IngestController, unit) run"
where
  "ingest_worker E L = retry (ingest_worker_pass E L)"

definition peer_checkup_pass ::
  "('m, 'g, 'priv, 'pub, 'rnd, 'a, 'uri::linorder, 'w, 'rep) ctl_env \<Rightarrow> 'w ledger_ops
     \<Rightarrow> (('m, 'g, 'priv, 'a, 'uri, 'w) IngestController, (unit, unit) result) run"
where
  "peer_checkup_pass E L =
     bnd (world_call (stop_requested L)) (\<lambda>stop.
       if stop then ret (Ok ()) else bnd (peer_checkup E) (\<lambda>_. ret (Err ())))"

definition peer_checkup_worker ::
  "('m, 'g, 'priv, 'pub, 'rnd, 'a, 'uri::linorder, 'w, 'rep) ctl_env \<Rightarrow> 'w ledger_ops
     \<Rightarrow> (('m, 'g, 'priv, 'a, 'uri, 'w) IngestController, unit) run"
where
  "peer_checkup_worker E L = retry (peer_checkup_pass E L)"

section \<open>The services (\<^verbatim>\<open>ingest_service.rs\<close>, \<^verbatim>\<open>ingest_peer_service.rs\<close>)\<close>

datatype ingest_rpc_status = RPC_Precondition | RPC_InvalidArg | RPC_Database | RPC_Enclave

type_synonym ('s, 'x) rpc = "('s, (ingest_rpc_status, 'x) result) run"

definition get_status_impl ::
  "('m, 'g, 'priv, 'pub, 'rnd, 'a, 'uri, 'w, 'rep) ctl_env
     \<Rightarrow> (('m, 'g, 'priv, 'a, 'uri, 'w) IngestController, IngestSummary) rpc"
where
  "get_status_impl E = bnd (get_ingest_summary E) (\<lambda>summary. ret (Ok summary))"

definition new_keys_impl ::
  "('m, 'g, 'priv, 'pub, 'rnd, 'a, 'uri, 'w, 'rep) ctl_env
     \<Rightarrow> (('m, 'g, 'priv, 'a, 'uri, 'w) IngestController, IngestSummary) rpc"
where
  "new_keys_impl E = attempt (\<lambda>_. RPC_Precondition) (ctl_new_keys E) (\<lambda>_. get_status_impl E)"

definition set_pubkey_expiry_window_impl ::
  "('m, 'g, 'priv, 'pub, 'rnd, 'a, 'uri, 'w, 'rep) ctl_env \<Rightarrow> u64
     \<Rightarrow> (('m, 'g, 'priv, 'a, 'uri, 'w) IngestController, IngestSummary) rpc"
where
  "set_pubkey_expiry_window_impl E window =
     attempt (\<lambda>_. RPC_Precondition) (ctl_set_pubkey_expiry_window window) (\<lambda>_. get_status_impl E)"

definition set_peers_impl ::
  "('m, 'g, 'priv, 'pub, 'rnd, 'a, 'uri::linorder, 'w, 'rep) ctl_env \<Rightarrow> string list
     \<Rightarrow> (('m, 'g, 'priv, 'a, 'uri, 'w) IngestController, IngestSummary) rpc"
where
  "set_peers_impl E ingest_peer_uris =
     attempt (\<lambda>_. RPC_InvalidArg) (ret (collect (map (uri_from_str (uri E)) ingest_peer_uris))) (\<lambda>ps.
     attempt (\<lambda>_. RPC_InvalidArg) (ctl_set_peers E ps) (\<lambda>_. get_status_impl E))"

definition activate_impl ::
  "('m, 'g, 'priv, 'pub, 'rnd, 'a, 'uri::linorder, 'w, 'rep) ctl_env \<Rightarrow> 'w ledger_ops
     \<Rightarrow> (('m, 'g, 'priv, 'a, 'uri, 'w) IngestController, IngestSummary) rpc"
where
  "activate_impl E L =
     attempt (\<lambda>_. RPC_Database) (world_call (num_blocks L)) (\<lambda>n.
     attempt (\<lambda>_. RPC_Precondition) (activate E n) (\<lambda>_. get_status_impl E))"

definition retire_impl ::
  "('m, 'g, 'priv, 'pub, 'rnd, 'a, 'uri, 'w, 'rep) ctl_env \<Rightarrow> bool
     \<Rightarrow> (('m, 'g, 'priv, 'a, 'uri, 'w) IngestController, IngestSummary) rpc"
where
  "retire_impl E set_retired = attempt (\<lambda>_. RPC_Database) (ctl_retire E set_retired) (\<lambda>summary. ret (Ok summary))"

definition report_lost_ingress_key_impl ::
  "('m, 'g, 'priv, 'pub, 'rnd, 'a, 'uri, 'w, 'rep) ctl_env \<Rightarrow> bytes
     \<Rightarrow> (('m, 'g, 'priv, 'a, 'uri, 'w) IngestController, unit) rpc"
where
  "report_lost_ingress_key_impl E k =
     attempt (\<lambda>_. RPC_InvalidArg) (ret (key_try_from E k)) (\<lambda>lost.
     attempt (\<lambda>_. RPC_Database) (ctl_report_lost_ingress_key E lost) (\<lambda>_. ret (Ok ())))"

definition get_missed_block_ranges_rpc ::
  "('m, 'g, 'priv, 'pub, 'rnd, 'a, 'uri, 'w, 'rep) ctl_env
     \<Rightarrow> (('m, 'g, 'priv, 'a, 'uri, 'w) IngestController, BlockRange list) rpc"
where
  "get_missed_block_ranges_rpc E =
     attempt (\<lambda>_. RPC_Database) (db_call E (\<lambda>_. get_missed_block_ranges)) (\<lambda>ranges. ret (Ok ranges))"

definition get_ingress_private_key_impl ::
  "('m, 'g, 'priv, 'pub, 'rnd, 'a, 'uri, 'w, 'rep) ctl_env \<Rightarrow> bytes
     \<Rightarrow> (('m, 'g, 'priv, 'a, 'uri, 'w) IngestController, Message) rpc"
where
  "get_ingress_private_key_impl E peer_session =
     attempt (\<lambda>_. RPC_Enclave) (ecall (get_ingress_private_key (crypto E) (kex E) (sessions E) peer_session))
       (\<lambda>(private_key, _). ret (Ok private_key))"

definition set_ingress_private_key_impl ::
  "('m, 'g, 'priv, 'pub, 'rnd, 'a, 'uri, 'w, 'rep) ctl_env \<Rightarrow> Message
     \<Rightarrow> (('m, 'g, 'priv, 'a, 'uri, 'w) IngestController, IngestSummary) rpc"
where
  "set_ingress_private_key_impl E msg =
     attempt (\<lambda>_. RPC_Enclave) (ctl_set_ingress_private_key E msg) (\<lambda>_. get_status_impl E)"

text \<open>The calls of the two services; a reply is sent back as it is.\<close>

datatype IngestCall =
  Get_status | New_keys | Set_pubkey_expiry_window u64 | Set_peers "string list" | Activate | Retire | Unretire
  | Report_lost_ingress_key bytes | Get_missed_block_ranges

definition serve_ingest ::
  "('m, 'g, 'priv, 'pub, 'rnd, 'a, 'uri::linorder, 'w, 'rep) ctl_env \<Rightarrow> 'w ledger_ops \<Rightarrow> IngestCall \<Rightarrow> (('m, 'g, 'priv, 'a, 'uri, 'w) IngestController, unit) run"
where
  "serve_ingest E L c =
     (case c of
        Get_status \<Rightarrow> bnd (get_status_impl E) (\<lambda>_. ret ())
      | New_keys \<Rightarrow> bnd (new_keys_impl E) (\<lambda>_. ret ())
      | Set_pubkey_expiry_window window \<Rightarrow> bnd (set_pubkey_expiry_window_impl E window) (\<lambda>_. ret ())
      | Set_peers uris \<Rightarrow> bnd (set_peers_impl E uris) (\<lambda>_. ret ())
      | Activate \<Rightarrow> bnd (activate_impl E L) (\<lambda>_. ret ())
      | Retire \<Rightarrow> bnd (retire_impl E True) (\<lambda>_. ret ())
      | Unretire \<Rightarrow> bnd (retire_impl E False) (\<lambda>_. ret ())
      | Report_lost_ingress_key k \<Rightarrow> bnd (report_lost_ingress_key_impl E k) (\<lambda>_. ret ())
      | Get_missed_block_ranges \<Rightarrow> bnd (get_missed_block_ranges_rpc E) (\<lambda>_. ret ()))"

datatype IngestPeerCall =
  Peer_get_status | Peer_set_peers "string list" | Peer_get_ingress_private_key bytes
  | Peer_set_ingress_private_key Message

definition serve_peer ::
  "('m, 'g, 'priv, 'pub, 'rnd, 'a, 'uri::linorder, 'w, 'rep) ctl_env \<Rightarrow> IngestPeerCall \<Rightarrow> (('m, 'g, 'priv, 'a, 'uri, 'w) IngestController, unit) run"
where
  "serve_peer E c =
     (case c of
        Peer_get_status \<Rightarrow> bnd (get_status_impl E) (\<lambda>_. ret ())
      | Peer_set_peers uris \<Rightarrow> bnd (set_peers_impl E uris) (\<lambda>_. ret ())
      | Peer_get_ingress_private_key peer_session \<Rightarrow> bnd (get_ingress_private_key_impl E peer_session) (\<lambda>_. ret ())
      | Peer_set_ingress_private_key msg \<Rightarrow> bnd (set_ingress_private_key_impl E msg) (\<lambda>_. ret ()))"

end
