(* ===== verification/Controller_Reach.thy ===== *)
theory Controller_Reach
  imports Controller_Handlers Ingest_Worker
begin

text \<open>
  The runs of an ingest server: it starts on a valid database, with or without a state file, and its
  worker, the calls of its services and the writes of the other servers to the database follow in any
  order. All states of a run satisfy \<open>ctl_inv\<close>, as long as the enclave does not give up on a chunk.
\<close>

section \<open>Start\<close>

lemma enclave_init_fresh:
  assumes "omap_laws 32 8 (M :: 'm omap_ops) content"
    and "enclave_init C M P rid sealed n (e :: ('m, 'g, 'priv, 'a) SgxIngestEnclave) = (Ok (), e')"
  shows "enclave_store_ok e'" "fresh_egress content e'"
proof -
  have "rng_store e' = Some (RngStore_new M n)"
    using assms(2) by (auto simp: enclave_init_def Let_def split: prod.splits sum.splits option.splits)
  then show "enclave_store_ok e'" "fresh_egress content e'"
    using fresh_counters(1,2) [OF assms(1)]
    by (simp_all add: enclave_store_ok_def fresh_egress_def enclave_counter_def)
qed

definition start_state ::
  "('m, 'g, 'priv, 'pub, 'rnd, 'a, 'uri, 'w, 'rep) ctl_env \<Rightarrow> ('m, 'g, 'priv, 'a, 'uri, 'w) IngestController \<Rightarrow> bool"
where
  "start_state E s \<longleftrightarrow>
     controller_state s = IngestControllerState_new (cfg_pubkey_expiry_window (config E)) (cfg_peers (config E)) \<and>
     \<not> state_locked s \<and> last_sealed_key s = None \<and> db_inv (ctl_db s)"

lemma wp_start_enclave:
  assumes laws: "ctl_laws E content dec" and s: "start_state E s"
  shows "wp t (start_enclave E k) (\<lambda>_ s'. J E content dec True False s' \<and>
      controller_state s' = controller_state s \<and> ctl_db s' = ctl_db s \<and> state_file s' = state_file s \<and>
      (\<forall>sealed raw key. k = Some sealed \<longrightarrow> unseal_raw (crypto E) sealed = Some raw \<longrightarrow>
         private_try_from (crypto E) raw = Ok key \<longrightarrow> ingress_key (enclave s') = key)) (\<lambda>s'. ctl_db s' = ctl_db s) s"
proof -
  obtain r e' where r: "enclave_init (crypto E) (omap E) (sessions E) (cfg_local_node_id (config E)) k
      (cfg_omap_capacity (config E)) (enclave s) = (r, e')" by (metis surj_pair)
  have "J E content dec True False (s\<lparr>enclave := e'\<rparr>)" if "r = Ok ()"
    using enclave_init_fresh [OF ctl_lawsD(1) [OF laws] r [unfolded that]] s
    by (simp add: J_def ctl_inv_def start_state_def sealed_ok_def IngestControllerState_new_def is_idle_def)
  moreover have "ingress_key e' = key" if "r = Ok ()" "k = Some sealed" "unseal_raw (crypto E) sealed = Some raw"
      "private_try_from (crypto E) raw = Ok key" for sealed raw key
    using r that by (auto simp: enclave_init_def Let_def split: prod.splits sum.splits)
  ultimately show ?thesis
    by (cases r) (auto simp: start_enclave_def wp_simps r)
qed

lemma wp_J_write:
  assumes "ctl_laws E content dec" "J E content dec i False s"
  shows "wp t (write_state_file E) (\<lambda>_ s'. J E content dec i False s' \<and> wrote E s s') (\<lambda>s'. db_inv (ctl_db s')) s"
proof -
  have inv: "ctl_inv E content dec s" "\<not> state_locked s" using assms(2) by (simp_all add: J_def)
  then have "sealed_ok E s" by (simp add: ctl_inv_def)
  show ?thesis
    by (rule wp_mono [OF wp_write_state_file [OF assms(1) ctl_inv_store [OF inv(1)] \<open>sealed_ok E s\<close> inv(2)]])
       (use assms(2) J_db [OF assms(2)] ctl_inv_wrote [OF inv(1)] in \<open>auto simp: J_def wrote_def\<close>)
qed

lemma IngestController_new_inv:
  assumes laws: "ctl_laws E content dec" and db: "db_inv db"
  shows "case IngestController_new E a g db file w of
     None \<Rightarrow> False
   | Some (Panics s') \<Rightarrow> db_inv (ctl_db s')
   | Some (Returns _ s') \<Rightarrow> J E content dec False False s' \<and> filed E s'"
proof -
  let ?blank = "\<lparr>controller_state = IngestControllerState_new (cfg_pubkey_expiry_window (config E)) (cfg_peers (config E)),
                   state_locked = False, enclave = SgxIngestEnclave_new (crypto E) a g, ctl_db = db,
                   last_sealed_key = None, state_file = file, outside = w\<rparr>"
  let ?f = "if cfg_state_file (config E) then file else None"
  let ?R = "\<lambda>s'. db_inv (ctl_db s')"
  let ?Q = "\<lambda>_ s'. J E content dec False False s' \<and> filed E s'"
  have wr: "wp False (write_state_file E) ?Q ?R s" if "J E content dec False False s" for s
    by (rule wp_mono [OF wp_J_write [OF laws that]]) (auto simp: wrote_def)
  have rest: "wp False (case ?f of None \<Rightarrow> ret () | Some data \<Rightarrow> expect (restore_state_from_summary E (sf_summary data)))
      (\<lambda>_. wp False (write_state_file E) ?Q ?R) ?R s" if J: "J E content dec True False s" for s
  proof (cases ?f)
    case None
    then show ?thesis using wr [OF J_weaken [OF J]] by (simp add: wp_simps)
  next
    case (Some data)
    have "triple (J E content dec False False) (expect (restore_state_from_summary E (sf_summary data))) (J E content dec False False)"
      by (intro triple_expect triple_restore) (auto elim: J_db)
    from tripleD [OF this J_weaken [OF J]] show ?thesis
      unfolding Some option.case by (rule wp_mono) (use wr in auto)
  qed
  have start: "wp False (start_enclave E (map_option sf_sealed_ingress_key ?f))
      (\<lambda>_. wp False (bnd (case ?f of None \<Rightarrow> ret () | Some data \<Rightarrow> expect (restore_state_from_summary E (sf_summary data)))
          (\<lambda>_. write_state_file E)) ?Q ?R) ?R s" if "start_state E s" for s
    unfolding wp_bnd
    by (rule wp_mono [OF wp_start_enclave [OF laws that]]) (use rest that in \<open>auto simp: start_state_def\<close>)
  have "start_state E (?blank\<lparr>outside := w'\<rparr>)" "start_state E ?blank" for w' using db by (simp_all add: start_state_def)
  then have "wp False (bnd (if ?f = None then ret () else expect (world_call (file_access (net E)))) (\<lambda>_.
         bnd (start_enclave E (map_option sf_sealed_ingress_key ?f)) (\<lambda>_.
         bnd (case ?f of None \<Rightarrow> ret () | Some data \<Rightarrow> expect (restore_state_from_summary E (sf_summary data))) (\<lambda>_.
           write_state_file E)))) ?Q ?R ?blank"
    using start db by (auto simp: wp_bnd wp_ret wp_expect wp_world_call split: prod.splits sum.splits)
  then show ?thesis by (simp add: IngestController_new_def Let_def wp_def)
qed

section \<open>The worker\<close>

text \<open>The ledger gives the block that was asked for.\<close>

definition ledger_ok :: "'w ledger_ops \<Rightarrow> bool" where
  "ledger_ok L \<longleftrightarrow> (\<forall>n w block outs w'. get_block_data L n w = (Ok (block, outs), w') \<longrightarrow> bk_index block = n)"

lemma quiet_timestamp_attempt: "quiet l (timestamp_attempt L n)"
  unfolding timestamp_attempt_def
  by (auto intro!: quiet_intros split: sum.splits prod.splits TimestampResultCode.splits)

lemma wp_watcher_timestamp:
  "wp True (get_watcher_timestamp L n) (\<lambda>_ s'. calm s s' \<and> state_locked s' = state_locked s) (calm s) s"
  unfolding get_watcher_timestamp_def
proof (rule wp_retry [where I = "\<lambda>s'. calm s s' \<and> state_locked s' = state_locked s"])
  fix s1 assume I: "calm s s1 \<and> state_locked s1 = state_locked s"
  have "wp True (timestamp_attempt L n) (\<lambda>_ s'. calm s1 s' \<and> state_locked s' = state_locked s1) (calm s1) s1"
    by (rule quietD [OF quiet_timestamp_attempt [of False]]) simp
  then show "wp True (timestamp_attempt L n)
     (\<lambda>r s'. case r of Inl e \<Rightarrow> calm s s' \<and> state_locked s' = state_locked s | Inr x \<Rightarrow> calm s s' \<and> state_locked s' = state_locked s)
     (calm s) s1"
    by (rule wp_mono) (use I in \<open>auto intro: calm_trans split: sum.splits\<close>)
qed simp

lemma processed_J:
  assumes "processed E content dec block outputs ts s s'" "J E content dec False False s"
  shows "J E content dec False False s' \<or> ingest_failed E s s'"
  using assms ctl_inv_went_idle [of E content s s' dec]
  by (auto simp: processed_def J_def went_idle_def block_done_def ctl_inv_def)

lemma wp_ingest_worker_pass:
  assumes laws: "ctl_laws E content dec" and led: "ledger_ok L" and J: "J E content dec False False s"
  shows "wp True (ingest_worker_pass E L) (\<lambda>_ s'. J E content dec False False s' \<or> is_active (controller_state s) \<and> ingest_failed E s s')
           (\<lambda>s'. db_inv (ctl_db s')) s"
proof -
  let ?J = "J E content dec False False"
  let ?Q = "\<lambda>s'. ?J s' \<or> is_active (controller_state s) \<and> ingest_failed E s s'"
  let ?R = "\<lambda>s'. db_inv (ctl_db s')"
  have block: "wp True (bnd (get_watcher_timestamp L n) (\<lambda>ts. bnd (process_next_block E block outputs ts) (\<lambda>_. ret (Err ()))))
      (\<lambda>_. ?Q) ?R s1" if s1: "?J s1" "is_active (controller_state s1)" "bk_index block = cs_next_block_index (controller_state s1)"
      "calm s s1" "state_locked s1 = state_locked s"
    for n block outputs s1
    unfolding wp_bnd wp_ret
  proof (rule wp_mono [OF wp_watcher_timestamp])
    fix ts s2
    assume c: "calm s1 s2 \<and> state_locked s2 = state_locked s1"
    then have J2: "?J s2" "is_active (controller_state s2)" "bk_index block = cs_next_block_index (controller_state s2)"
      using s1 J_calm [OF s1(1)] by (auto simp: calm_def)
    have "wp True (process_next_block E block outputs ts) (\<lambda>_. processed E content dec block outputs ts s2)
        (\<lambda>s'. db_grows (ctl_db s2) (ctl_db s')) s2"
      by (rule wp_process_next_block [OF laws _ _ J2(2) _ _ J2(3)]) (use J2(1) in \<open>simp_all add: J_def\<close>)
    moreover have "is_active (controller_state s) \<and> ingest_failed E s s'" if "ingest_failed E s2 s'" for s'
      using that c s1(2,4,5) J_db [OF J] by (auto simp: ingest_failed_def calm_def db_grows_def intro: db_le_trans)
    ultimately show "wp True (process_next_block E block outputs ts) (\<lambda>_. ?Q) ?R s2"
      by (elim wp_mono) (use processed_J [OF _ J2(1)] J_db [OF J2(1)] in \<open>(blast | simp add: db_grows_def)+\<close>)
  qed (use J_db [OF s1(1)] in \<open>auto simp: calm_def db_grows_def\<close>)
  have world: "?J (s1\<lparr>outside := w\<rparr>)" if "?J s1" for s1 w
    by (rule J_calm [OF that]) (simp_all add: calm_def)
  have eq: "s\<lparr>state_locked := False\<rparr> = s" "\<not> state_locked s" using J by (cases s; simp add: J_def)+
  obtain stop w where stop: "stop_requested L (outside s) = (stop, w)" by (metis surj_pair)
  obtain r w' where data: "get_block_data L (cs_next_block_index (controller_state s)) w = (r, w')" by (metis surj_pair)
  have "is_active (controller_state s)" if "\<not> is_idle (controller_state s)"
    using that by (cases "cs_mode (controller_state s)") (simp_all add: is_active_def is_idle_def)
  moreover have "bk_index block = cs_next_block_index (controller_state s)" if "r = Ok (block, outs)" for block outs
    using led data that unfolding ledger_ok_def by blast
  moreover have "calm s (s\<lparr>outside := w'\<rparr>)" by (simp add: calm_def)
  ultimately show ?thesis
    using world [OF J, of w] world [OF world [OF J, of w], of w']
      block [of "s\<lparr>outside := w'\<rparr>"]
    by (auto simp: ingest_worker_pass_def get_next_block_index_def wp_bnd wp_with_state wp_gets wp_world_call wp_ret eq
        stop data simp del: IngestController.update_convs split: sum.splits prod.splits)
qed

section \<open>The services\<close>

lemma triple_reply: "triple P m Q \<Longrightarrow> triple P (bnd m (\<lambda>_. ret ())) Q"
  by (erule triple_bnd) (simp add: triple_ret)

lemma triple_get_status: "triple (J E content dec i False) (get_status_impl E) (J E content dec i False)"
  unfolding get_status_impl_def by (intro triple_bnd [OF triple_quiet [OF quiet_summary]] triple_ret) auto

lemma triple_then_status:
  assumes "triple (J E content dec False False) m (J E content dec False False)"
  shows "triple (J E content dec False False) (attempt conv m (\<lambda>_. get_status_impl E)) (J E content dec False False)"
  by (intro triple_attempt [OF assms] triple_get_status) auto

lemma triple_serve_peer:
  assumes laws: "ctl_laws E content dec"
  shows "triple (J E content dec False False) (serve_peer E c) (J E content dec False False)"
proof -
  have q: "quiet True (get_ingress_private_key_impl E sess)" for sess
    unfolding get_ingress_private_key_impl_def by (auto intro!: quiet_intros split: prod.splits)
  show ?thesis
    by (cases c)
       (auto simp: serve_peer_def set_peers_impl_def set_ingress_private_key_impl_def
         intro!: triple_reply triple_get_status triple_then_status triple_set_ingress_private_key [OF laws] triple_set_peers
           triple_quiet [OF q] triple_attempt [where P' = "J E content dec False False", OF triple_ret])
qed

lemma triple_serve_ingest:
  assumes laws: "ctl_laws E content dec" and "c \<noteq> New_keys"
  shows "triple (J E content dec False False) (serve_ingest E L c) (J E content dec False False)"
proof -
  note ok = ctl_lawsD(7) [OF laws]
  have q: "quiet True (retire_impl E b)" "quiet True (report_lost_ingress_key_impl E k)" "quiet True (get_missed_block_ranges_rpc E)" for b k
    unfolding retire_impl_def report_lost_ingress_key_impl_def get_missed_block_ranges_rpc_def
    by (intro quiet_intros quiet_retire [OF ok] quiet_report_lost [OF ok] quiet_db_call [OF ok]; simp)+
  show ?thesis
    using assms(2)
    by (cases c)
       (auto simp: serve_ingest_def set_peers_impl_def set_pubkey_expiry_window_impl_def activate_impl_def
         intro!: triple_reply triple_get_status triple_then_status triple_set_peers triple_set_pubkey_expiry_window
           triple_activate [OF laws] triple_quiet [OF q(1)] triple_quiet [OF q(2)] triple_quiet [OF q(3)] triple_attempt [where P' = "J E content dec False False", OF triple_ret]
           triple_attempt [where P' = "J E content dec False False", OF triple_quiet [OF quiet_world_call]])
qed

text \<open>A handler that holds the lock holds it until its end.\<close>

lemma keeps_lock [keeps_intros]:
  "keeps state_locked (db_call E f)" "keeps state_locked (change_state g)" "keeps state_locked (ecall_some h)"
  "keeps state_locked (world_call k)"
  by (auto simp: keeps_def db_call_def change_state_def on_state_def ecall_some_def ecall_def bnd_def ret_def panic_def world_call_def Let_def
      split: prod.splits sum.splits option.splits db_error.splits)

lemma keeps_lock_new_keys_inner: "keeps state_locked (write_state_file_inner E)" "keeps state_locked (new_keys_inner E)"
proof -
  show *: "keeps state_locked (write_state_file_inner E)"
    unfolding write_state_file_inner_def seal_attempt_def get_ingest_summary_inner_def
    by (intro keeps_intros keeps_modify) simp_all
  show "keeps state_locked (new_keys_inner E)"
    unfolding new_keys_inner_def decommission_ingest_invocation_id_def forget_sealed_key_def
    by (intro keeps_intros keeps_modify *) simp_all
qed

lemma wp_trivial: "wp True m (\<lambda>_ _. True) (\<lambda>_. True) = (\<lambda>_. True)"
  by (auto simp: wp_def fun_eq_iff split: option.splits outcome.splits)

text \<open>An idle server asked for new keys waits for its own lock; an active one refuses.\<close>

lemma wp_new_keys_waits:
  assumes "\<not> state_locked s" "is_idle (controller_state s)"
  shows "wp True (ctl_new_keys E) (\<lambda>_ _. False) (\<lambda>_. True) s"
proof -
  let ?W = "\<lambda>m. wp True m (\<lambda>_ _. False) (\<lambda>_. True)"
  have summary: "?W (bnd (get_ingest_summary E) (\<lambda>summary. ret (Ok summary))) s1" if "state_locked s1" for s1
    using that by (simp add: get_ingest_summary_def wp_simps)
  have "?W (bnd (write_state_file_inner E) (\<lambda>_. bnd (get_ingest_summary E) (\<lambda>summary. ret (Ok summary)))) s1"
    if "state_locked s1" for s1
    unfolding wp_bnd [of _ "write_state_file_inner E"]
    by (rule wp_mono [OF keeps_wp [OF keeps_lock_new_keys_inner(1) that]]) (use summary in auto)
  moreover have "wp True (new_keys_inner E) (\<lambda>r s'. (\<exists>u. r = Ok u) \<and> state_locked s') (\<lambda>_. True) (s\<lparr>state_locked := True\<rparr>)"
  proof -
    have "wp True (new_keys_inner E) (\<lambda>r _. \<exists>u. r = Ok u) (\<lambda>_. True) (s\<lparr>state_locked := True\<rparr>)"
      using assms by (auto simp: new_keys_inner_def wp_bnd wp_gets wp_ret wp_trivial)
    from wp_conj [OF this keeps_wp [OF keeps_lock_new_keys_inner(2)]] show ?thesis
      by (rule wp_mono) simp_all
  qed
  ultimately have "?W (attempt id (new_keys_inner E) (\<lambda>_.
        bnd (write_state_file_inner E) (\<lambda>_. bnd (get_ingest_summary E) (\<lambda>summary. ret (Ok summary))))) (s\<lparr>state_locked := True\<rparr>)"
    unfolding attempt_def wp_bnd [of _ "new_keys_inner E"] by (elim wp_mono) auto
  then show ?thesis
    unfolding ctl_new_keys_def wp_with_state using assms(1) by simp
qed

lemma wp_new_keys_active:
  assumes "\<not> state_locked s" "\<not> is_idle (controller_state s)"
  shows "wp t (ctl_new_keys E) (\<lambda>r s'. r = Err ServerNotIdle \<and> s' = s) (\<lambda>_. False) s"
proof -
  have "s\<lparr>state_locked := False\<rparr> = s" using assms(1) by (cases s) simp
  then show ?thesis
    using assms by (simp add: ctl_new_keys_def new_keys_inner_def wp_simps)
qed

lemma wp_serve_new_keys:
  assumes "J E content dec False False s"
  shows "wp True (serve_ingest E L New_keys) (\<lambda>_. J E content dec False False) (\<lambda>_. True) s"
proof -
  have lock: "\<not> state_locked s" using assms by (simp add: J_def)
  have "wp True (ctl_new_keys E) (\<lambda>r s'. r = Err ServerNotIdle \<and> s' = s) (\<lambda>_. True) s"
    by (cases "is_idle (controller_state s)")
       (rule wp_mono [OF wp_new_keys_waits [OF lock]] wp_mono [OF wp_new_keys_active [OF lock, where t = True]]; simp)+
  then have "wp True (ctl_new_keys E) (\<lambda>r. wp True (case r of Inl e \<Rightarrow> ret (Err RPC_Precondition) | Inr _ \<Rightarrow> get_status_impl E)
      (\<lambda>_. J E content dec False False) (\<lambda>_. True)) (\<lambda>_. True) s"
    by (rule wp_mono) (use assms in \<open>auto simp: wp_ret\<close>)
  then show ?thesis
    by (simp add: serve_ingest_def new_keys_impl_def attempt_def wp_bnd wp_ret)
qed

section \<open>Runs\<close>

text \<open>
  A server runs from its start: a pass of the worker that finishes its block, makes the server idle or
  leaves it as it was (all that remains is a chunk the enclave gives up on), a pass of the peer checkup, a call of one of the services, a synchronisation of the keys
  with a peer, a handshake with the enclave, or writes of other servers to the database.
\<close>

inductive ctl_reach ::
  "('m, 'g, 'priv, 'pub, 'rnd, 'a, 'uri::linorder, 'w, 'rep) ctl_env \<Rightarrow> 'w ledger_ops \<Rightarrow> ('m, 'g, 'priv, 'a, 'uri, 'w) IngestController \<Rightarrow> bool"
  for E L
where
  reach_start:
    "peers_valid E \<Longrightarrow> db_steps (enc_rows E) (enc_report E) empty_db db \<Longrightarrow> IngestController_new E a g db saved w = Some (Returns () s) \<Longrightarrow>
       ctl_reach E L s"
| reach_worker:
    "ctl_reach E L s \<Longrightarrow> ingest_worker_pass E L s = Some (Returns r s') \<Longrightarrow>
       cs_next_block_index (controller_state s') = cs_next_block_index (controller_state s) + 1 \<or> is_idle (controller_state s') \<or>
         calm s s' \<and> state_locked s' = state_locked s \<Longrightarrow> ctl_reach E L s'"
| reach_checkup: "ctl_reach E L s \<Longrightarrow> peer_checkup_pass E L s = Some (Returns r s') \<Longrightarrow> ctl_reach E L s'"
| reach_call: "ctl_reach E L s \<Longrightarrow> serve_ingest E L c s = Some (Returns r s') \<Longrightarrow> ctl_reach E L s'"
| reach_peer_call: "ctl_reach E L s \<Longrightarrow> serve_peer E pc s = Some (Returns r s') \<Longrightarrow> ctl_reach E L s'"
| reach_sync: "ctl_reach E L s \<Longrightarrow> sync_keys_from_remote E remote s = Some (Returns x s') \<Longrightarrow> ctl_reach E L s'"
| reach_handshake: "ctl_reach E L s \<Longrightarrow> ctl_reach E L (s\<lparr>enclave := (enclave s)\<lparr>ie_ake := ake'\<rparr>\<rparr>)"
| reach_others:
    "ctl_reach E L s \<Longrightarrow> db_steps (enc_rows E) (enc_report E) (ctl_db s) db' \<Longrightarrow>
       ctl_reach E L (s\<lparr>ctl_db := db', outside := w'\<rparr>)"

lemma triple_peer_checkup_pass:
  "triple (J E content dec False False) (peer_checkup_pass E L) (J E content dec False False)"
proof -
  have "quiet True (if stop then ret (Ok ()) else bnd (peer_checkup E) (\<lambda>_. ret (Err ())))" for stop
    by (auto intro!: quiet_intros quiet_peer_checkup)
  then have "quiet True (peer_checkup_pass E L)"
    unfolding peer_checkup_pass_def by (intro quiet_bnd quiet_world_call)
  then show ?thesis by (rule triple_quiet) simp
qed

lemma triple_Returns: "triple P m Q \<Longrightarrow> P s \<Longrightarrow> m s = Some (Returns x s') \<Longrightarrow> Q s'"
  by (metis tripleD wp_Returns)

lemma ctl_reach_J:
  assumes "ctl_laws E content dec" "ledger_ok L" "ctl_reach E L s"
  shows "J E content dec False False s"
  using assms(3)
proof (induction rule: ctl_reach.induct)
  case (reach_start db a g saved w s)
  have "db_inv db" using reach_start(2) db_steps_inv empty_db_inv by blast
  from IngestController_new_inv [OF assms(1) this, of a g saved w] reach_start(3) show ?case by simp
next
  case (reach_worker s r s')
  have "\<not> (is_active (controller_state s) \<and> ingest_failed E s s') \<or> calm s s' \<and> state_locked s' = state_locked s"
    using reach_worker(3) by (auto simp: ingest_failed_def is_active_def is_idle_def)
  with wp_Returns [OF wp_ingest_worker_pass [OF assms(1,2) reach_worker.IH] reach_worker(2)] J_calm [OF reach_worker.IH]
  show ?case by blast
next
  case (reach_checkup s r s')
  from triple_Returns [OF triple_peer_checkup_pass reach_checkup.IH reach_checkup(2)] show ?case .
next
  case (reach_call s c r s')
  show ?case
  proof (cases "c = New_keys")
    case True
    with reach_call(2) wp_Returns [OF wp_serve_new_keys [OF reach_call.IH]] show ?thesis by blast
  next
    case False
    from triple_Returns [OF triple_serve_ingest [OF assms(1) False] reach_call.IH reach_call(2)] show ?thesis .
  qed
next
  case (reach_peer_call s pc r s')
  from triple_Returns [OF triple_serve_peer [OF assms(1)] reach_peer_call.IH reach_peer_call(2)] show ?case .
next
  case (reach_sync s remote x s')
  from triple_Returns [OF triple_sync_keys [OF assms(1)] reach_sync.IH reach_sync(2)] show ?case .
next
  case (reach_handshake s ake')
  show ?case by (rule J_calm [OF reach_handshake.IH]) (simp_all add: calm_def)
next
  case (reach_others s db' w')
  have "db_grows (ctl_db s) db'" using reach_others(2) by (meson db_grows_def db_steps_inv db_steps_le)
  then show ?case by (intro J_calm [OF reach_others.IH]) (simp_all add: calm_def)
qed

end
