(* ===== verification/Controller_Toy.thy ===== *)
theory Controller_Toy
  imports Controller_Reach
begin

text \<open>
  A small ingest server to evaluate the handlers on: keys are single bytes padded to 32, the outside
  world answers every call, the database is always up and nobody else writes to it.
\<close>

section \<open>An encoding of rows\<close>

fun esc :: "bytes \<Rightarrow> bytes" where
  "esc [] = [0]"
| "esc (b # bs) = 1 # b # esc bs"

fun unesc :: "bytes \<Rightarrow> bytes \<times> bytes" where
  "unesc (t # b # bs) = (if t = 0 then ([], b # bs) else (case unesc bs of (x, r) \<Rightarrow> (b # x, r)))"
| "unesc [t] = ([], [])"
| "unesc [] = ([], [])"

fun toy_rows :: "ETxOutRecord list \<Rightarrow> bytes" where
  "toy_rows [] = []"
| "toy_rows (r # rs) = esc (search_key r) @ esc (payload r) @ toy_rows rs"

lemma unesc_esc [simp]: "unesc (esc x @ r) = (x, r)"
  by (induction x) (cases r; simp)+

lemma unesc_shorter: "unesc bs = (x, r) \<Longrightarrow> length r \<le> length bs - 1"
  by (induction bs arbitrary: x r rule: unesc.induct) (fastforce split: if_splits prod.splits)+

function toy_rows_from :: "bytes \<Rightarrow> ETxOutRecord list" where
  "toy_rows_from [] = []"
| "toy_rows_from (b # bs) =
     (case unesc (b # bs) of (k, r) \<Rightarrow> case unesc r of (p, r') \<Rightarrow> \<lparr>search_key = k, payload = p\<rparr> # toy_rows_from r')"
  by pat_completeness auto
termination
  by (relation "measure length") (fastforce dest!: unesc_shorter [OF sym])+

lemma toy_rows_roundtrip [simp]: "toy_rows_from (toy_rows rows) = rows"
proof (induction rows)
  case (Cons r rs)
  obtain b bs where eq: "toy_rows (r # rs) = b # bs" by (cases "search_key r") auto
  have "toy_rows_from (toy_rows (r # rs)) =
      (case unesc (toy_rows (r # rs)) of (k, r) \<Rightarrow> case unesc r of (p, r') \<Rightarrow> \<lparr>search_key = k, payload = p\<rparr> # toy_rows_from r')"
    unfolding eq by (rule toy_rows_from.simps)
  with Cons show ?case by simp
qed simp

section \<open>The server\<close>

definition toy_net :: "(unit, unit, nat, unit) peer_net" where
  "toy_net =
     \<lparr>ake_peer_init = (\<lambda>_ a. (Ok [], a)), ake_peer_connect = (\<lambda>_ _ a. (Ok [], a)),
      rpc_auth = (\<lambda>_ _ w. (Ok [], w)), rpc_get_status = (\<lambda>_ w. (Err ''down'', w)),
      rpc_set_peers = (\<lambda>_ _ w. (Err ''down'', w)), call_get_private_key = (\<lambda>_ _ (a, w). (Err (PC_Grpc ''down''), a, w)),
      call_set_private_key = (\<lambda>_ _ (a, w). (Err (PC_Grpc ''down''), a, w)),
      report_cache_update = (\<lambda>(a, w). (Ok (), a, w)), ias_report = (\<lambda>_. Ok ()), file_access = (\<lambda>w. (Ok (), w))\<rparr>"

definition toy_env :: "nat \<Rightarrow> (nat \<times> (bytes \<times> bytes) list, u8, u8, u8, u8, unit, nat, unit, unit) ctl_env" where
  "toy_env capacity =
     \<lparr>config = \<lparr>cfg_max_transactions = 2, cfg_omap_capacity = of_nat capacity, cfg_local_node_id = ''node'', cfg_peers = [0],
                cfg_pubkey_expiry_window = 10, cfg_fog_report_id = ''id'', cfg_state_file = True\<rparr>,
      crypto = toy_crypto, kex = toy_kex\<lparr>Public_bytes := (\<lambda>p. p # replicate 31 0)\<rparr>, omap = table_ops,
      rng_core = KexRng20201124 toy_blake2b, crc = (\<lambda>_. 0), enc_record = (\<lambda>_. []), enc_rows = toy_rows, enc_report = (\<lambda>_. []),
      key_try_from = (\<lambda>b. if length b = 32 then Ok b else Err ''length''),
      sessions = \<lparr>peer_state_init = (\<lambda>_ a. (Ok (), a)), is_peer_known = (\<lambda>_ _. Ok True),
                  peer_encrypt = (\<lambda>_ _ m a. (Ok \<lparr>msg_channel_id = [], msg_aad = [], msg_data = m\<rparr>, a)),
                  peer_decrypt = (\<lambda>m a. (Ok (msg_data m), a))\<rparr>,
      uri = \<lparr>responder_id = (\<lambda>n. Ok (if n = 0 then ''node'' else replicate n CHR ''a'')), uri_to_string = (\<lambda>n. replicate n CHR ''a''),
             uri_from_str = (\<lambda>s. Ok (length s))\<rparr>,
      net = toy_net, clock = (\<lambda>_. 0), others = (\<lambda>w db. (db\<lparr>pool_up := True\<rparr>, w))\<rparr>"

lemma toy_others: "others_ok (toy_env n)"
  unfolding others_ok_def db_steps_def by (auto simp: toy_env_def intro: step_pool)

lemma toy_laws: "ctl_laws (toy_env n) (\<lambda>m. map_of (snd m)) (\<lambda>b. Some (toy_rows_from b))"
  using toy_others by (simp add: ctl_laws_def toy_env_def table_laws toy_crypto_def secret_laws_def toy_kex_def zero_key_def)

definition toy_ledger :: "unit ledger_ops" where
  "toy_ledger =
     \<lparr>get_block_data = (\<lambda>n w. (if n = 3 then Ok (\<lparr>bk_index = n, bk_cumulative_txo_count = 43\<rparr>, [toy_tx 5, toy_tx 6, toy_tx 5])
                              else Err LE_NotFound, w)),
      num_blocks = (\<lambda>w. (Ok 3, w)), get_block_timestamp = (\<lambda>n w. (Ok (9, TimestampFound), w)), stop_requested = (\<lambda>w. (False, w))\<rparr>"

lemma toy_ledger_ok: "ledger_ok toy_ledger"
  by (simp add: ledger_ok_def toy_ledger_def)

text \<open>The server after its start, after an activation, and after a pass of its worker.\<close>

definition returned :: "('s, 'x) outcome option \<Rightarrow> 's option" where
  "returned out = (case out of Some (Returns _ s) \<Rightarrow> Some s | _ \<Rightarrow> None)"

definition toy_started :: "nat \<Rightarrow> (nat \<times> (bytes \<times> bytes) list, u8, u8, unit, nat, unit) IngestController option" where
  "toy_started n = returned (IngestController_new (toy_env n) () 7 empty_db None ())"

definition toy_active :: "nat \<Rightarrow> (nat \<times> (bytes \<times> bytes) list, u8, u8, unit, nat, unit) IngestController option" where
  "toy_active n = Option.bind (toy_started n) (\<lambda>s. returned (serve_ingest (toy_env n) toy_ledger Activate s))"

definition toy_worked :: "nat \<Rightarrow> (nat \<times> (bytes \<times> bytes) list, u8, u8, unit, nat, unit) IngestController option" where
  "toy_worked n = Option.bind (toy_active n) (\<lambda>s. returned (ingest_worker_pass (toy_env n) toy_ledger s))"

lemma returned_Some: "returned out = Some s \<Longrightarrow> \<exists>x. out = Some (Returns x s)"
  by (auto simp: returned_def split: option.splits outcome.splits)

lemma toy_run:
  obtains s0 s1 s2 where "toy_started 8 = Some s0" "toy_active 8 = Some s1" "toy_worked 8 = Some s2"
    and "is_idle (controller_state s0)" "is_active (controller_state s1)" "is_active (controller_state s2)"
    and "cs_next_block_index (controller_state s1) = 3" "cs_next_block_index (controller_state s2) = 4"
    and "cs_ingest_invocation_id (controller_state s2) = Some 1" "length (ingested_blocks (ctl_db s2)) = 1"
proof -
  have "case toy_started 8 of None \<Rightarrow> False | Some s \<Rightarrow> is_idle (controller_state s)" by code_simp
  moreover have "case toy_active 8 of None \<Rightarrow> False | Some s \<Rightarrow>
      is_active (controller_state s) \<and> cs_next_block_index (controller_state s) = 3" by code_simp
  moreover have "case toy_worked 8 of None \<Rightarrow> False | Some s \<Rightarrow>
      is_active (controller_state s) \<and> cs_next_block_index (controller_state s) = 4 \<and>
      cs_ingest_invocation_id (controller_state s) = Some 1 \<and> length (ingested_blocks (ctl_db s)) = 1" by code_simp
  ultimately show thesis using that by (simp split: option.splits)
qed

lemma toy_reach_active:
  assumes "toy_active n = Some s"
  shows "ctl_reach (toy_env n) toy_ledger s"
proof -
  obtain s0 where s0: "toy_started n = Some s0" using assms by (cases "toy_started n") (auto simp: toy_active_def)
  have "db_steps (enc_rows (toy_env n)) (enc_report (toy_env n)) empty_db empty_db" by (simp add: db_steps_def)
  moreover have "peers_valid (toy_env n)" by (simp add: peers_valid_def toy_env_def)
  ultimately have "\<And>a g saved w s. IngestController_new (toy_env n) a g empty_db saved w = Some (Returns () s) \<Longrightarrow> ctl_reach (toy_env n) toy_ledger s"
    by (rule_tac reach_start)
  with s0 have "ctl_reach (toy_env n) toy_ledger s0"
    unfolding toy_started_def by (auto dest!: returned_Some)
  from reach_call [OF this] s0 assms show ?thesis
    unfolding toy_active_def by (fastforce dest: returned_Some)
qed

lemma toy_reach:
  assumes "toy_active 8 = Some s1" "toy_worked 8 = Some s2"
  shows "ctl_reach (toy_env 8) toy_ledger s1" "ctl_reach (toy_env 8) toy_ledger s2"
proof -
  have nxt: "cs_next_block_index (controller_state s2) = cs_next_block_index (controller_state s1) + 1"
    using assms by (rule_tac toy_run) simp
  show "ctl_reach (toy_env 8) toy_ledger s1" by (rule toy_reach_active [OF assms(1)])
  from reach_worker [OF this _ disjI1 [OF nxt]] assms show "ctl_reach (toy_env 8) toy_ledger s2"
    unfolding toy_worked_def by (fastforce dest: returned_Some)
qed

end
