(* ===== verification/Controller_Props.thy ===== *)
theory Controller_Props
  imports Controller_Toy Recovery_Props
begin

text \<open>
  The properties of the ingest controller: its invariant in every run, the outcome of
  \<^verbatim>\<open>process_next_block\<close>, the end of its write loop, and that its other handlers come back and free the
  lock.
\<close>

section \<open>The write of a block\<close>

text \<open>
  What the loop that writes a block relies on: the others leave an id for the next row, and each
  outage of the database lasts for finitely many calls.
\<close>

definition outages_end :: "('m, 'g, 'priv, 'pub, 'rnd, 'a, 'uri, 'w, 'rep) ctl_env \<Rightarrow> bool" where
  "outages_end E \<longleftrightarrow>
     (\<exists>\<mu> :: 'w \<Rightarrow> nat. \<forall>w db db' w'. others E w db = (db', w') \<longrightarrow>
        (pool_up db' \<or> \<mu> w' < \<mu> w) \<and> (seq_ib db \<le> i64_max \<longrightarrow> seq_ib db' \<le> i64_max))"

lemma blocks_ofD: "blocks_of db k n \<noteq> [] \<Longrightarrow> \<exists>b \<in> set (ingested_blocks db). ib_key b = k \<and> ib_block_number b = as_i64 n"
  by (auto simp: blocks_of_def filter_empty_conv)

lemma wp_write_attempt:
  assumes ok: "others_ok E" and \<mu>: "\<And>w db db' w'. others E w db = (db', w') \<Longrightarrow>
        (pool_up db' \<or> \<mu> w' < (\<mu> w :: nat)) \<and> (seq_ib db \<le> i64_max \<longrightarrow> seq_ib db' \<le> i64_max)"
    and s: "db_inv (ctl_db s)" "seq_ib (ctl_db s) \<le> i64_max" "r \<in> set (ingest_invocations (ctl_db s))" "ii_id r = iid"
  shows "wp False (db_call E (\<lambda>now. add_block_data enc now iid block ts rows))
     (\<lambda>st s'. case st of
        Inl e \<Rightarrow> (db_inv (ctl_db s') \<and> seq_ib (ctl_db s') \<le> i64_max \<and> db_le (ctl_db s) (ctl_db s')) \<and> \<mu> (outside s') < \<mu> (outside s)
      | Inr x \<Rightarrow> \<exists>b \<in> set (ingested_blocks (ctl_db s')). ib_key b = ii_ingress_key r \<and> ib_block_number b = as_i64 (bk_index block))
     (\<lambda>_. False) s"
proof -
  obtain db w where o: "others E (outside s) (ctl_db s) = (db, w)" by (metis surj_pair)
  have db: "db_inv db" "db_le (ctl_db s) db" using others_grow [OF ok o] s(1) by (auto simp: db_grows_def)
  have seq: "seq_ib db \<le> i64_max" "pool_up db \<or> \<mu> w < \<mu> (outside s)" using \<mu> [OF o] s(2) by auto
  let ?f = "add_block_data enc (clock E w) iid block ts rows"
  show ?thesis
  proof (cases "pool_up db")
    case True
    obtain r' where r': "r' \<in> set (ingest_invocations db)" "ii_id r' = iid" "ii_ingress_key r' = ii_ingress_key r"
      using db_le_invocation [OF db(2) s(3)] s(4) by (auto simp: ii_static_def)
    note out = add_block_data_outcome [OF db(1) True r'(1,2) seq(1), of enc "clock E w" block ts rows, unfolded r'(3)]
    have "\<exists>b \<in> set (ingested_blocks (snd (?f db))). ib_key b = ii_ingress_key r \<and> ib_block_number b = as_i64 (bk_index block)"
      using blocks_ofD [of db "ii_ingress_key r" "bk_index block"] by (auto simp: out(2))
    then show ?thesis using out(1) by (cases "?f db") (auto simp: wp_db_call o)
  next
    case False
    then have "?f db = (Err R2d2, db)" by (simp add: add_block_data_def with_conn_def)
    then show ?thesis using False seq db s(2) by (auto simp: wp_db_call o)
  qed
qed

lemma toy_worked_db:
  "case toy_worked 8 of None \<Rightarrow> False
   | Some s \<Rightarrow> seq_ib (ctl_db s) = 2 \<and>
       map (\<lambda>r. (ii_id r, ii_ingress_key r)) (ingest_invocations (ctl_db s)) = [(1, 7 # replicate 31 0)]"
  by code_simp

text \<open>
  C18: The loop of \<^verbatim>\<open>process_next_block\<close> that writes a block to the database ends: when each outage lasts
  for finitely many calls, the ids of the table do not run out and the invocation is in the database,
  the loop returns, and the database then has the block for the ingress key of the invocation.
\<close>

theorem publish_loop_ends:
  fixes E :: "('m, 'g, 'priv, 'pub, 'rnd, 'a, 'uri, 'w, 'rep) ctl_env"
  assumes "others_ok E" "outages_end E" "db_inv (ctl_db s)" "seq_ib (ctl_db s) \<le> i64_max"
    and r: "r \<in> set (ingest_invocations (ctl_db s))" "ii_id r = iid"
  shows "\<exists>st s'. retry (db_call E (\<lambda>now. add_block_data (enc_rows E) now iid block ts rows)) s = Some (Returns st s') \<and>
     (\<exists>b \<in> set (ingested_blocks (ctl_db s')). ib_key b = ii_ingress_key r \<and> ib_block_number b = as_i64 (bk_index block))"
proof -
  obtain \<mu> :: "'w \<Rightarrow> nat" where \<mu>: "\<And>w db db' w'. others E w db = (db', w') \<Longrightarrow>
      (pool_up db' \<or> \<mu> w' < \<mu> w) \<and> (seq_ib db \<le> i64_max \<longrightarrow> seq_ib db' \<le> i64_max)"
    using assms(2) unfolding outages_end_def by blast
  let ?Q = "\<lambda>_ s'. \<exists>b \<in> set (ingested_blocks (ctl_db s')). ib_key b = ii_ingress_key r \<and> ib_block_number b = as_i64 (bk_index block)"
  define I where "I = (\<lambda>s :: ('m, 'g, 'priv, 'a, 'uri, 'w) IngestController. db_inv (ctl_db s) \<and> seq_ib (ctl_db s) \<le> i64_max \<and>
      (\<exists>r' \<in> set (ingest_invocations (ctl_db s)). ii_static r' = ii_static r))"
  have "wp False (retry (db_call E (\<lambda>now. add_block_data (enc_rows E) now iid block ts rows))) ?Q (\<lambda>_. False) s"
  proof (rule wp_retry_total [where I = I and \<mu> = "\<lambda>s. \<mu> (outside s)"])
    fix s1 assume "I s1"
    then obtain r' where r': "r' \<in> set (ingest_invocations (ctl_db s1))" "ii_static r' = ii_static r"
      and s1: "db_inv (ctl_db s1)" "seq_ib (ctl_db s1) \<le> i64_max" by (auto simp: I_def)
    have "ii_id r' = iid" "ii_ingress_key r' = ii_ingress_key r" using r'(2) r(2) by (simp_all add: ii_static_def)
    moreover have "\<exists>x \<in> set (ingest_invocations db). ii_static x = ii_static r" if "db_le (ctl_db s1) db" for db
      using db_le_invocation [OF that r'(1)] r'(2) by metis
    ultimately show "wp False (db_call E (\<lambda>now. add_block_data (enc_rows E) now iid block ts rows))
        (\<lambda>st s'. case st of Inl e \<Rightarrow> I s' \<and> \<mu> (outside s') < \<mu> (outside s1) | Inr x \<Rightarrow> ?Q x s') (\<lambda>_. False) s1"
      by (intro wp_mono [OF wp_write_attempt [OF assms(1) \<mu> s1 r'(1)]]) (auto simp: I_def split: sum.splits)
  qed (use assms r(1) in \<open>auto simp: I_def\<close>)
  then show ?thesis by (auto simp: wp_def split: option.splits outcome.splits)
qed

theorem publish_loop_ends_witness:
  "\<exists>s st s'. toy_worked 8 = Some s \<and>
     retry (db_call (toy_env 8) (\<lambda>now. add_block_data (enc_rows (toy_env 8)) now 1 \<lparr>bk_index = 4, bk_cumulative_txo_count = 43\<rparr> 0 [])) s =
       Some (Returns st s') \<and>
     (\<exists>b \<in> set (ingested_blocks (ctl_db s')). ib_key b = 7 # replicate 31 0 \<and> ib_block_number b = as_i64 4)"
proof -
  obtain s where run: "toy_worked 8 = Some s" "ctl_reach (toy_env 8) toy_ledger s" using toy_reach by (rule_tac toy_run) blast
  obtain r where r: "r \<in> set (ingest_invocations (ctl_db s))" "ii_id r = 1" "ii_ingress_key r = 7 # replicate 31 0"
    and seq: "seq_ib (ctl_db s) \<le> i64_max" using toy_worked_db by (auto simp: run i64_max_def)
  have ends: "outages_end (toy_env 8)" by (simp add: outages_end_def toy_env_def)
  have inv: "db_inv (ctl_db s)" by (rule J_db [OF ctl_reach_J [OF toy_laws toy_ledger_ok run(2)]])
  show ?thesis
    using publish_loop_ends [OF toy_others ends inv seq r(1,2), of "\<lparr>bk_index = 4, bk_cumulative_txo_count = 43\<rparr>" 0 "[]"] run(1) r(3)
    by auto
qed

section \<open>Runs of the server\<close>






section \<open>Handlers that come back\<close>





text \<open>
  C32: \<^verbatim>\<open>new_keys\<close> on an idle server never returns: it asks for the summary while it holds the lock that
  the summary takes.
\<close>

theorem new_keys_never_returns:
  assumes "is_idle (controller_state s)"
  shows "\<nexists>r s'. ctl_new_keys E s = Some (Returns r s')"
proof (cases "state_locked s")
  case True
  then show ?thesis by (simp add: ctl_new_keys_def with_state_def)
next
  case False
  from wp_new_keys_waits [OF False assms, of E] show ?thesis by (auto simp: wp_def)
qed

theorem new_keys_never_returns_witness:
  "\<exists>s. toy_started 8 = Some s \<and> is_idle (controller_state s) \<and> (\<nexists>r s'. ctl_new_keys (toy_env 8) s = Some (Returns r s'))"
  using new_keys_never_returns by (rule_tac toy_run) blast




end
