(* ===== verification/Controller_Peers.thy ===== *)
theory Controller_Peers
  imports Controller_Toy
begin

text \<open>
  The peers of an ingest server are always well formed: an ordered set without duplicates, in which
  every peer has a responder id of its own and which has the server itself. Handlers change the peers
  in one place only, which the rules of \<open>keeps\<close> show along the structure of every handler.
\<close>

section \<open>Well-formed peers\<close>

text \<open>Every peer has a responder id of its own, one of which is ours.\<close>

definition peers_ok :: "('m, 'g, 'priv, 'pub, 'rnd, 'a, 'uri::linorder, 'w, 'rep) ctl_env \<Rightarrow> 'uri list \<Rightarrow> bool" where
  "peers_ok E ps \<longleftrightarrow>
     is_btree_set ps \<and>
     (\<exists>ids. map (responder_id (uri E)) ps = map Ok ids \<and> distinct ids \<and> cfg_local_node_id (config E) \<in> set ids)"

lemma fold_update_new:
  "distinct (map fst xs @ map fst acc) \<Longrightarrow> fold (\<lambda>(k, v). AList.update k v) xs acc = acc @ xs"
proof (induction xs arbitrary: acc)
  case (Cons x xs)
  obtain k v where x: "x = (k, v)" by (cases x)
  with Cons.prems have "k \<notin> fst ` set acc" by auto
  then have "AList.update k v acc = acc @ [(k, v)]" by (induction acc) auto
  with Cons x show ?case by simp
qed simp

lemma peers_by_responder_id_ok:
  assumes "map (responder_id U) ps = map Ok ids" "distinct ids"
  shows "peers_by_responder_id U ps = Ok (zip ids ps)"
proof -
  have len: "length ids = length ps" using assms(1) by (metis length_map)
  have "map (\<lambda>u. case responder_id U u of Inl e \<Rightarrow> Err e | Inr rid \<Rightarrow> Ok (rid, u)) ps = map Ok (zip ids ps)"
    using assms(1) len by (induction ids ps rule: list_induct2') auto
  then have "collect (map (\<lambda>u. case responder_id U u of Inl e \<Rightarrow> Err e | Inr rid \<Rightarrow> Ok (rid, u)) ps) = Ok (zip ids ps)"
    using collect_map_Ok [of "zip ids ps" "\<lambda>x. Ok x :: (string, _) result" id] by simp
  then show ?thesis
    using fold_update_new [of "zip ids ps" "[]"] assms(2) len by (simp add: peers_by_responder_id_def)
qed

lemma collect_Ok: "collect xs = Ok ys \<Longrightarrow> xs = map Ok ys"
  by (simp add: collect_Ok_iff)

lemma peers_valid_ok:
  assumes "peers_valid E" "is_btree_set (cfg_peers (config E))"
  shows "peers_ok E (cfg_peers (config E))"
proof -
  obtain ids where ids: "collect (map (responder_id (uri E)) (cfg_peers (config E))) = Ok ids"
      "length (remdups ids) = length (cfg_peers (config E))" "cfg_local_node_id (config E) \<in> set ids"
    using assms(1) by (auto simp: peers_valid_def split: sum.splits)
  have map: "map (responder_id (uri E)) (cfg_peers (config E)) = map Ok ids" by (rule collect_Ok [OF ids(1)])
  then have "length ids = length (cfg_peers (config E))" by (metis length_map)
  then have "distinct ids" using ids(2) by (metis length_remdups_card_conv card_distinct)
  with map ids(3) assms(2) show ?thesis by (auto simp: peers_ok_def)
qed

text \<open>The table of new peers has one entry for each responder id, with a URI of that id.\<close>

lemma fold_update_table:
  "\<forall>(rid, u) \<in> set xs. responder_id U u = Ok rid \<Longrightarrow> \<forall>(rid, u) \<in> set acc. responder_id U u = Ok rid \<Longrightarrow> distinct (map fst acc) \<Longrightarrow>
     (\<forall>(rid, u) \<in> set (fold (\<lambda>(k, v). AList.update k v) xs acc). responder_id U u = Ok rid) \<and>
     distinct (map fst (fold (\<lambda>(k, v). AList.update k v) xs acc))"
proof (induction xs arbitrary: acc)
  case (Cons x xs)
  obtain k v where x: "x = (k, v)" by (cases x)
  have "set (AList.update k v acc) \<subseteq> insert (k, v) (set acc)" by (induction acc) auto
  then have "\<forall>(rid, u) \<in> set (AList.update k v acc). responder_id U u = Ok rid" using Cons.prems(1,2) x by fastforce
  with Cons.IH [of "AList.update k v acc"] Cons.prems x show ?case by (simp add: distinct_update)
qed simp

lemma peers_by_responder_id_table:
  assumes "peers_by_responder_id U uris = Ok t"
  shows "\<forall>(rid, u) \<in> set t. responder_id U u = Ok rid" "distinct (map fst t)"
proof -
  let ?f = "\<lambda>u. case responder_id U u of Inl e \<Rightarrow> Err e | Inr rid \<Rightarrow> Ok (rid, u)"
  obtain pairs where pairs: "collect (map ?f uris) = Ok pairs" "t = fold (\<lambda>(rid, u). AList.update rid u) pairs []"
    using assms by (auto simp: peers_by_responder_id_def split: sum.splits)
  have "map ?f uris = map Ok pairs" by (rule collect_Ok [OF pairs(1)])
  then have "\<exists>u \<in> set uris. ?f u = Ok p" if "p \<in> set pairs" for p
    using that by (metis (no_types, lifting) imageE imageI list.set_map)
  then have "\<forall>(rid, u) \<in> set pairs. responder_id U u = Ok rid" by (fastforce split: sum.splits)
  from fold_update_table [OF this, of "[]"] show "\<forall>(rid, u) \<in> set t. responder_id U u = Ok rid" "distinct (map fst t)"
    by (simp_all add: pairs(2))
qed

lemma new_peers_ok:
  assumes "peers_by_responder_id (uri E) uris = Ok t" "map_of t (cfg_local_node_id (config E)) \<noteq> None"
  shows "peers_ok E (btree_set (map snd t))"
proof -
  let ?ps = "btree_set (map snd t)" and ?rid = "\<lambda>u. projr (responder_id (uri E) u)"
  note table = peers_by_responder_id_table [OF assms(1)]
  have rid: "\<exists>rid. (rid, u) \<in> set t \<and> responder_id (uri E) u = Ok rid" if "u \<in> set ?ps" for u
    using that table(1) by auto
  have "inj_on ?rid (set ?ps)"
  proof (rule inj_onI)
    fix u v assume uv: "u \<in> set ?ps" "v \<in> set ?ps" "?rid u = ?rid v"
    obtain r where "(r, u) \<in> set t" "(r, v) \<in> set t" using rid [OF uv(1)] rid [OF uv(2)] uv(3) by auto
    then show "u = v" using table(2) by (meson eq_key_imp_eq_value)
  qed
  then have "distinct (map ?rid ?ps)" by (simp add: distinct_map btree_set_def)
  moreover have "map (responder_id (uri E)) ?ps = map Ok (map ?rid ?ps)" using rid by fastforce
  moreover have "cfg_local_node_id (config E) \<in> set (map ?rid ?ps)"
  proof -
    obtain u where u: "(cfg_local_node_id (config E), u) \<in> set t" using assms(2) by (auto dest: map_of_SomeD)
    have "responder_id (uri E) u = Ok (cfg_local_node_id (config E))" using table(1) u by auto
    moreover have "u \<in> set ?ps" using u by (simp add: image_iff) (metis snd_conv)
    ultimately show ?thesis unfolding list.set_map by (intro image_eqI [of _ _ u]) simp_all
  qed
  ultimately show ?thesis unfolding peers_ok_def by (intro conjI exI [of _ "map ?rid ?ps"]) simp_all
qed

section \<open>Handlers\<close>

definition wf_peers :: "('m, 'g, 'priv, 'pub, 'rnd, 'a, 'uri::linorder, 'w, 'rep) ctl_env \<Rightarrow> ('m, 'g, 'priv, 'a, 'uri, 'w) IngestController \<Rightarrow> bool" where
  "wf_peers E s \<longleftrightarrow> peers_ok E (cs_peers (controller_state s))"

lemma keeps_wf_calls [keeps_intros]:
  "keeps (wf_peers E) (db_call E' f)" "keeps (wf_peers E) (ecall g)" "keeps (wf_peers E) (ecall_some h)" "keeps (wf_peers E) (world_call k)"
  "keeps (wf_peers E) (ake_call l)" "keeps (wf_peers E) (both_call n)"
  by (auto simp: keeps_def wf_peers_def db_call_def ecall_some_def ecall_def bnd_def ret_def panic_def world_call_def ake_call_def both_call_def Let_def
      split: prod.splits sum.splits option.splits db_error.splits)

lemma keeps_wf_state: "(\<And>st. cs_peers (snd (f st)) = cs_peers st) \<Longrightarrow> keeps (wf_peers E) (on_state f)"
  by (auto simp: keeps_def wf_peers_def on_state_def split: prod.splits) (metis snd_conv)

lemma keeps_wf_change: "(\<And>st. cs_peers (f st) = cs_peers st) \<Longrightarrow> keeps (wf_peers E) (change_state f)"
  unfolding change_state_def by (rule keeps_wf_state) simp

lemma keeps_wf_with_state [keeps_intros]:
  assumes "keeps (wf_peers E) m"
  shows "keeps (wf_peers E) (with_state m)"
proof (rule keepsI)
  fix s assume "wf_peers E s"
  then have "wf_peers E (s\<lparr>state_locked := True\<rparr>)" by (simp add: wf_peers_def)
  from keeps_wp [OF assms this] show "wp True (with_state m) (\<lambda>_. wf_peers E) (\<lambda>_. True) s"
    unfolding wp_with_state by (auto intro: wp_mono simp: wf_peers_def)
qed

lemma keeps_wf_set_peers [keeps_intros]: "keeps (wf_peers E) (set_peers_inner E uris)"
proof -
  have "wf_peers E (s\<lparr>controller_state := set_peers (btree_set (map snd t)) (controller_state s)\<rparr>)"
    if "peers_by_responder_id (uri E) uris = Ok t" "map_of t (cfg_local_node_id (config E)) \<noteq> None" "wf_peers E s" for t s
    using new_peers_ok [OF that(1,2)] that(3) by (auto simp: wf_peers_def set_peers_def Let_def)
  then show ?thesis
    by (intro keepsI) (auto simp: set_peers_inner_def wp_simps split: sum.splits)
qed

lemma keeps_wf_quiet:
  assumes "quiet False m"
  shows "keeps (wf_peers E) m"
proof (rule keepsI)
  fix s assume s: "wf_peers E s"
  have "wp True m (\<lambda>_ s'. calm s s' \<and> state_locked s' = state_locked s) (calm s) s" by (rule quietD [OF assms]) simp
  then show "wp True m (\<lambda>_. wf_peers E) (\<lambda>_. True) s"
    by (rule wp_mono) (use s in \<open>simp_all add: wf_peers_def calm_def\<close>)
qed

lemmas keeps_wf_quiets [keeps_intros] = quiet_summary_inner [THEN keeps_wf_quiet] quiet_report_cache [THEN keeps_wf_quiet]
  quiet_PeerConnection_new [THEN keeps_wf_quiet] quiet_peer_get_key [THEN keeps_wf_quiet] quiet_open_peers [THEN keeps_wf_quiet]
  quiet_check_statuses [THEN keeps_wf_quiet] quiet_check_backups [THEN keeps_wf_quiet]

lemma keeps_wf_write [keeps_intros]: "keeps (wf_peers E) (write_state_file_inner E')"
  unfolding write_state_file_inner_def seal_attempt_def
  by (intro keeps_intros keeps_modify) (simp_all add: wf_peers_def)

lemma keeps_wf_new_egress_key [keeps_intros]: "keeps (wf_peers E) (ctl_new_egress_key E')"
  unfolding ctl_new_egress_key_def decommission_ingest_invocation_id_def forget_sealed_key_def
  by (intro keeps_intros keeps_modify keeps_wf_change) (simp_all add: wf_peers_def)

lemma keeps_wf_publish_report [keeps_intros]: "keeps (wf_peers E) (publish_report E' k)"
  unfolding publish_report_def Let_def by (intro keeps_intros)

lemma keeps_wf_summary [keeps_intros]: "keeps (wf_peers E) (get_ingest_summary E')" "keeps (wf_peers E) (write_state_file E')"
  unfolding get_ingest_summary_def write_state_file_def by (intro keeps_intros)+

lemma keeps_wf_keys:
  "keeps (wf_peers E) (ctl_set_ingress_private_key E' msg)" "keeps (wf_peers E) (sync_keys_from_remote E' remote)"
  unfolding ctl_set_ingress_private_key_def sync_keys_from_remote_def forget_sealed_key_def
  by (intro keeps_intros keeps_modify; simp add: wf_peers_def)+

lemma keeps_wf_activate: "keeps (wf_peers E) (activate E' n)"
  unfolding activate_def activate_inner_def activate_idle_def activate_key_def find_start_block_def Let_def
  by (intro keeps_intros keeps_wf_state keeps_wf_change) (simp_all add: set_next_block_index_def set_active_def)

lemma keeps_wf_chunks [keeps_intros]: "keeps (wf_peers E) (ingest_chunks E' index ts k chunks iid gtx rows)"
proof (induction chunks arbitrary: iid gtx rows)
  case (Cons c chunks)
  show ?case
    unfolding ingest_chunks.simps rotate_invocation_def
    by (intro keeps_intros keeps_wf_change Cons.IH) simp_all
qed (simp add: keeps_ret)

lemma keeps_wf_block_added [keeps_intros]: "keeps (wf_peers E) (block_added E' result)"
proof -
  have next_index: "keeps (wf_peers E) (bnd (gets (\<lambda>s. increment_next_block_index (controller_state s))) (\<lambda>r.
      case r of None \<Rightarrow> panic | Some st \<Rightarrow> change_state (\<lambda>_. st)))"
    by (rule keepsI) (auto simp: wp_simps wf_peers_def increment_next_block_index_def split: option.splits)
  show ?thesis
    unfolding block_added_def
    by (rule keeps_if [OF _ next_index]) (intro keeps_intros keeps_wf_change; simp add: set_idle_def)
qed

lemma keeps_wf_process_next_block: "keeps (wf_peers E) (process_next_block E' block outputs ts)"
  unfolding process_next_block_def prepare_block_def report_before_block_def ensure_invocation_def
  by (intro keeps_intros keeps_wf_change) (simp_all add: set_idle_def)

lemma keeps_wf_worker: "keeps (wf_peers E) (ingest_worker_pass E' L)"
  unfolding ingest_worker_pass_def get_next_block_index_def get_watcher_timestamp_def timestamp_attempt_def
  by (intro keeps_intros keeps_wf_process_next_block) (auto split: TimestampResultCode.splits intro: keeps_ret)

lemma keeps_wf_new_keys: "keeps (wf_peers E) (ctl_new_keys E')"
  unfolding ctl_new_keys_def new_keys_inner_def decommission_ingest_invocation_id_def forget_sealed_key_def
  by (intro keeps_intros keeps_modify keeps_wf_change) (simp_all add: wf_peers_def)

lemma keeps_wf_retire: "keeps (wf_peers E) (ctl_retire E' b)"
  unfolding ctl_retire_def by (intro keeps_intros)

lemma keeps_wf_serve:
  "keeps (wf_peers E) (serve_ingest E L c)" "keeps (wf_peers E) (serve_peer E pc)"
proof -
  have "keeps (wf_peers E) (set_peers_impl E uris)" "keeps (wf_peers E) (get_status_impl E)" for uris
    unfolding set_peers_impl_def ctl_set_peers_def get_status_impl_def by (intro keeps_intros)+
  moreover have "keeps (wf_peers E) (set_pubkey_expiry_window_impl E window)" for window
    unfolding set_pubkey_expiry_window_impl_def ctl_set_pubkey_expiry_window_def get_status_impl_def
    by (intro keeps_intros keeps_wf_state) (simp add: set_pubkey_expiry_window_def Let_def)
  ultimately show "keeps (wf_peers E) (serve_ingest E L c)" "keeps (wf_peers E) (serve_peer E pc)"
    unfolding serve_ingest_def serve_peer_def new_keys_impl_def activate_impl_def retire_impl_def report_lost_ingress_key_impl_def
      get_missed_block_ranges_rpc_def ctl_report_lost_ingress_key_def get_ingress_private_key_impl_def set_ingress_private_key_impl_def get_status_impl_def
    by (cases c; cases pc; simp; intro keeps_intros keeps_wf_new_keys keeps_wf_activate keeps_wf_retire keeps_wf_keys)+
qed

lemma keeps_wf_restore: "keeps (wf_peers E) (restore_state_from_summary E sd)"
proof -
  have "keeps (wf_peers E) (restore_checks E sd k ps)" for k ps
    unfolding restore_checks_def restore_check_peer_def
    by (intro keeps_intros keeps_wf_quiet [OF quiet_confirm_backup_cached])
  then show ?thesis
    unfolding restore_state_from_summary_def restore_inner_def
    by (intro keeps_intros keeps_wf_state keeps_wf_change)
       (auto simp: set_pubkey_expiry_window_def set_next_block_index_def Let_def set_active_def split: IngestMode.splits
         intro!: keeps_intros keeps_wf_change)
qed

lemma keeps_wf_peer_checkup: "keeps (wf_peers E) (peer_checkup_pass E' L)"
proof -
  have backup: "keeps (wf_peers E) (confirm_backup E' conn None None None upd)" for conn upd
    unfolding confirm_backup_def
    by (rule keeps_attempt) (auto split: IngestMode.splits
        intro!: keeps_intros keeps_wf_quiet [OF quiet_peer_get_status] keeps_wf_quiet [OF quiet_confirm_key] keeps_wf_quiet [OF quiet_confirm_peers])
  have "keeps (wf_peers E) (peer_checkup_one E' p)" for p
    unfolding peer_checkup_one_def
    by (auto split: sum.splits PeerBackupError.splits PeerConnError.splits intro!: keeps_intros backup)
  then show ?thesis
    unfolding peer_checkup_pass_def peer_checkup_def by (intro keeps_intros)
qed

lemma keeps_wf_start: "keeps (wf_peers E) (start_enclave E' cached)"
  unfolding start_enclave_def by (intro keeps_intros)

lemma keeps_Returns: "keeps P m \<Longrightarrow> P s \<Longrightarrow> m s = Some (Returns x s') \<Longrightarrow> P s'"
  by (simp add: keeps_def)

lemma IngestController_new_wf:
  assumes "peers_valid E" "is_btree_set (cfg_peers (config E))" "IngestController_new E a g db saved w = Some (Returns () s)"
  shows "wf_peers E s"
proof -
  define m where "m = (\<lambda>file_data :: IngestStateFile option.
      bnd (if file_data = None then ret () else expect (world_call (file_access (net E)))) (\<lambda>_.
      bnd (start_enclave E (map_option sf_sealed_ingress_key file_data)) (\<lambda>_.
      bnd (case file_data of None \<Rightarrow> ret () | Some data \<Rightarrow> expect (restore_state_from_summary E (sf_summary data))) (\<lambda>_.
        write_state_file E))))"
  have keeps: "keeps (wf_peers E) (m d)" for d
    unfolding m_def by (intro keeps_intros keeps_wf_start keeps_wf_restore)
  obtain s0 where s0: "IngestController_new E a g db saved w = m (if cfg_state_file (config E) then saved else None) s0"
    "cs_peers (controller_state s0) = cfg_peers (config E)"
    unfolding IngestController_new_def Let_def m_def by (rule that [unfolded IngestController_new_def Let_def m_def], rule refl) (simp add: IngestControllerState_new_def)
  have "wf_peers E s0" using peers_valid_ok [OF assms(1,2)] s0(2) by (simp add: wf_peers_def)
  from keeps_Returns [OF keeps this] show ?thesis using assms(3) unfolding s0(1) by blast
qed

text \<open>
  C20: the peers of a server are well formed in every reachable state, started from a configuration
  that \<^verbatim>\<open>IngestServer::new\<close> accepts: they are a strictly ordered set of URIs, each with a responder id
  that no other peer has, one of which is the responder id of the server itself.
\<close>

theorem reachable_peers_wf:
  assumes "is_btree_set (cfg_peers (config E))" "ctl_reach E L s"
  shows "peers_ok E (cs_peers (controller_state s))"
proof -
  note handlers = keeps_wf_worker keeps_wf_peer_checkup keeps_wf_serve keeps_wf_keys(2)
  from assms(2) have "wf_peers E s"
  proof (induction rule: ctl_reach.induct)
    case (reach_start db a g saved w s)
    show ?case by (rule IngestController_new_wf [OF reach_start(1) assms(1) reach_start(3)])
  qed (auto simp: wf_peers_def dest: handlers [THEN keeps_Returns, unfolded wf_peers_def, rotated])
  then show ?thesis by (simp add: wf_peers_def)
qed

theorem reachable_peers_wf_witness:
  "\<exists>s. toy_worked 8 = Some s \<and> peers_ok (toy_env 8) (cs_peers (controller_state s)) \<and> cs_peers (controller_state s) = [0]"
proof -
  obtain s where run: "toy_worked 8 = Some s" "ctl_reach (toy_env 8) toy_ledger s"
    using toy_reach by (rule_tac toy_run) blast
  have "is_btree_set (cfg_peers (config (toy_env 8)))" by code_simp
  from reachable_peers_wf [OF this run(2)] run(1) have "peers_ok (toy_env 8) (cs_peers (controller_state s))" by simp
  moreover have "case toy_worked 8 of None \<Rightarrow> False | Some s \<Rightarrow> cs_peers (controller_state s) = [0]" by code_simp
  ultimately show ?thesis using run(1) by simp
qed

end
