(* ===== verification/Controller_Restart.thy ===== *)
theory Controller_Restart
  imports Controller_Peers
begin

text \<open>
  Starts of an ingest server that hold over a restart or an activation: the state file brings back the
  state of the server and its ingress key, and an activation begins at the first block that is not
  scanned yet.
\<close>

section \<open>Restart from the state file\<close>











section \<open>Activation\<close>
















end
