(* ===== verification/Ingest_Chunks.thy ===== *)
theory Ingest_Chunks
  imports Controller_Toy
begin

text \<open>
  The controller feeds a block to the enclave in chunks, so that the size of an enclave call is
  bounded. As long as the table of counters does not overflow, this makes no difference: the rows and
  the enclave are those of one call on the whole block.
\<close>

section \<open>One attempt in two parts\<close>

lemma attempt_ingest_from_append:
  "attempt_ingest_from C K M core crc32 enc chunk ingress egress i (xs @ ys) g store =
     (case attempt_ingest_from C K M core crc32 enc chunk ingress egress i xs g store of
        (Rows rows, g1, store1) \<Rightarrow>
          (case attempt_ingest_from C K M core crc32 enc chunk ingress egress (i + length xs) ys g1 store1 of
             (Rows rows', g2, store2) \<Rightarrow> (Rows (rows @ rows'), g2, store2)
           | (other, g2, store2) \<Rightarrow> (other, g2, store2))
      | (other, g1, store1) \<Rightarrow> (other, g1, store1))"
proof (induction xs arbitrary: i g store)
  case Nil
  show ?case by (auto split: prod.splits ingest_outcome.splits)
next
  case (Cons x xs)
  show ?case by (auto simp: Cons.IH Let_def split: prod.splits sum.splits option.splits ingest_outcome.splits)
qed

text \<open>The index in the ledger is what counts: a chunk that begins later has smaller indices.\<close>

lemma tx_out_record_shift:
  assumes "global_txo_index c = global_txo_index chunk + of_nat d" "chunk_block_index c = chunk_block_index chunk"
    and "chunk_timestamp c = chunk_timestamp chunk"
  shows "tx_out_record crc32 c i txo = tx_out_record crc32 chunk (d + i) txo"
  using assms by (simp add: tx_out_record_def add.assoc)

lemma attempt_ingest_from_shift:
  assumes "global_txo_index c = global_txo_index chunk + of_nat d" "chunk_block_index c = chunk_block_index chunk"
    and "chunk_timestamp c = chunk_timestamp chunk"
  shows "attempt_ingest_from C K M core crc32 enc c ingress egress i txs g store =
         attempt_ingest_from C K M core crc32 enc chunk ingress egress (d + i) txs g store"
proof (induction txs arbitrary: i g store)
  case (Cons txo txs)
  show ?case
    by (simp only: attempt_ingest_from.simps tx_out_record_shift [OF assms] Cons.IH [of "Suc i", simplified])
qed simp

lemma ingest_txs_Rows:
  "ingest_txs C K M core crc32 enc chunk e = (Some (Ok (rows, None)), e') \<longleftrightarrow>
     (\<exists>store g store'. rng_store e = Some store \<and>
        attempt_ingest_from C K M core crc32 enc chunk (ingress_key e) (egress_key e) 0 (redacted_txs chunk) (mc_rng e) store = (Rows rows, g, store') \<and>
        e' = e\<lparr>egress_key := egress_key e, mc_rng := g, rng_store := Some store'\<rparr>)"
proof -
  have pk: "ingest_loop n C K M core crc32 enc chunk ingress (Some pk) egress g store = (Some (Ok (rows, p)), egress', g', store') \<Longrightarrow> p \<noteq> None"
    for n ingress pk egress g store rows p egress' g' store'
    by (induction n arbitrary: pk egress g store) (auto simp: ingest_loop.simps Let_def split: prod.splits ingest_outcome.splits)
  have retries: "MAX_CHUNK_RETRIES = Suc 9" by (simp add: MAX_CHUNK_RETRIES_def)
  show ?thesis
    unfolding ingest_txs_def retries
    by (subst ingest_loop.simps)
       (auto simp: attempt_ingest_txs_def Let_def dest: pk split: option.splits prod.splits ingest_outcome.splits)
qed

section \<open>The loop over the chunks\<close>

lemma ingest_chunks_whole:
  fixes E :: "('m, 'g, 'priv, 'pub, 'rnd, 'a, 'uri, 'w, 'rep) ctl_env" and s :: "('m, 'g, 'priv, 'a, 'uri, 'w) IngestController"
  assumes "rng_store (enclave s) = Some store"
    and "attempt_ingest_from (crypto E) (kex E) (omap E) (rng_core E) (crc E) (enc_record E) blk (ingress_key (enclave s))
           (egress_key (enclave s)) d (concat chunks) (mc_rng (enclave s)) store = (Rows rows, g', store')"
    and "gtx = global_txo_index blk + of_nat d"
  shows "ingest_chunks E (chunk_block_index blk) (chunk_timestamp blk) k chunks iid gtx acc s =
     Some (Returns (Some (iid, acc @ rows)) (s\<lparr>enclave := (enclave s)\<lparr>mc_rng := g', rng_store := Some store'\<rparr>\<rparr>))"
  using assms
proof (induction chunks arbitrary: d gtx acc s store rows)
  case Nil
  then show ?case by (cases s; cases "enclave s") (auto simp: ret_def)
next
  case (Cons c chunks)
  let ?e = "enclave s"
  let ?c = "\<lparr>chunk_block_index = chunk_block_index blk, global_txo_index = gtx, redacted_txs = c, chunk_timestamp = chunk_timestamp blk\<rparr>"
  let ?at = "\<lambda>d. attempt_ingest_from (crypto E) (kex E) (omap E) (rng_core E) (crc E) (enc_record E) blk (ingress_key ?e) (egress_key ?e) d"
  obtain rows1 g1 store1 rows2 where first: "?at d c (mc_rng ?e) store = (Rows rows1, g1, store1)"
    and rest: "?at (d + length c) (concat chunks) g1 store1 = (Rows rows2, g', store')" and rows: "rows = rows1 @ rows2"
    using Cons.prems(2) by (auto simp: attempt_ingest_from_append split: prod.splits ingest_outcome.splits)
  let ?s = "s\<lparr>enclave := ?e\<lparr>mc_rng := g1, rng_store := Some store1\<rparr>\<rparr>"
  have "attempt_ingest_from (crypto E) (kex E) (omap E) (rng_core E) (crc E) (enc_record E) ?c (ingress_key ?e) (egress_key ?e) 0 c (mc_rng ?e) store =
      (Rows rows1, g1, store1)"
    by (subst attempt_ingest_from_shift [of ?c blk d]) (use first Cons.prems(3) in simp_all)
  moreover have "?e\<lparr>egress_key := egress_key ?e, mc_rng := g1, rng_store := Some store1\<rparr> = ?e\<lparr>mc_rng := g1, rng_store := Some store1\<rparr>"
    by (cases ?e) simp
  ultimately have "(ingest_txs (crypto E) (kex E) (omap E) (rng_core E) (crc E) (enc_record E) ?c ?e
      :: (string ingest_enclave_error, ETxOutRecord list \<times> KexRngPubkey option) result option \<times> _) = (Some (Ok (rows1, None)), ?e\<lparr>mc_rng := g1, rng_store := Some store1\<rparr>)"
    using Cons.prems(1) by (subst ingest_txs_Rows) auto
  moreover have "ingest_chunks E (chunk_block_index blk) (chunk_timestamp blk) k chunks iid (gtx + of_nat (length c)) (acc @ rows1) ?s =
      Some (Returns (Some (iid, (acc @ rows1) @ rows2)) (?s\<lparr>enclave := (enclave ?s)\<lparr>mc_rng := g', rng_store := Some store'\<rparr>\<rparr>))"
    by (rule Cons.IH [of _ store1 "d + length c"]) (use rest Cons.prems(3) in simp_all)
  ultimately show ?case
    by (simp add: bnd_def ecall_some_def ecall_def ret_def rotate_invocation_def rows)
qed

text \<open>
  C17: The loop that feeds a block to the enclave in chunks of any size is equivalent to one call of
  \<^verbatim>\<open>ingest_txs\<close> on the whole block, as long as that call does not rotate the egress key: the rows, in
  their order and with their indices in the ledger, and the enclave after it are the same.
\<close>

theorem chunked_ingest_equivalent:
  fixes E :: "('m, 'g, 'priv, 'pub, 'rnd, 'a, 'uri, 'w, 'rep) ctl_env" and s :: "('m, 'g, 'priv, 'a, 'uri, 'w) IngestController"
  assumes "n \<noteq> 0"
    and "(ingest_txs (crypto E) (kex E) (omap E) (rng_core E) (crc E) (enc_record E)
            \<lparr>chunk_block_index = index, global_txo_index = gtx, redacted_txs = outputs, chunk_timestamp = ts\<rparr> (enclave s)
          :: (string ingest_enclave_error, ETxOutRecord list \<times> KexRngPubkey option) result option \<times> _) =
         (Some (Ok (rows, None)), e')"
  shows "ingest_chunks E index ts k (chunks_of n outputs) iid gtx [] s = Some (Returns (Some (iid, rows)) (s\<lparr>enclave := e'\<rparr>))"
proof -
  let ?blk = "\<lparr>chunk_block_index = index, global_txo_index = gtx, redacted_txs = outputs, chunk_timestamp = ts\<rparr>"
  let ?e = "enclave s"
  obtain store g store' where w: "rng_store ?e = Some store"
      "attempt_ingest_from (crypto E) (kex E) (omap E) (rng_core E) (crc E) (enc_record E) ?blk (ingress_key ?e) (egress_key ?e) 0 outputs (mc_rng ?e) store =
        (Rows rows, g, store')"
      "e' = ?e\<lparr>egress_key := egress_key ?e, mc_rng := g, rng_store := Some store'\<rparr>"
    using assms(2) by (auto simp: ingest_txs_Rows)
  have "e' = ?e\<lparr>mc_rng := g, rng_store := Some store'\<rparr>" using w(3) by (cases ?e) simp
  with ingest_chunks_whole [OF w(1), of E ?blk 0 "chunks_of n outputs" rows g store' gtx k iid "[]"] w(2)
  show ?thesis by (simp add: chunks_of_concat [OF assms(1)])
qed

theorem chunked_ingest_equivalent_witness:
  "\<exists>s rows e'. toy_active 8 = Some s \<and> length rows = 3 \<and>
     ingest_chunks (toy_env 8) 3 9 [] (chunks_of 2 [toy_tx 5, toy_tx 6, toy_tx 5]) 1 40 [] s =
       Some (Returns (Some (1, rows)) (s\<lparr>enclave := e'\<rparr>))"
proof -
  let ?run = "\<lambda>s. ingest_txs (crypto (toy_env 8)) (kex (toy_env 8)) (omap (toy_env 8)) (rng_core (toy_env 8)) (crc (toy_env 8)) (enc_record (toy_env 8))
      \<lparr>chunk_block_index = 3, global_txo_index = 40, redacted_txs = [toy_tx 5, toy_tx 6, toy_tx 5], chunk_timestamp = 9\<rparr> (enclave s)
      :: (string ingest_enclave_error, ETxOutRecord list \<times> KexRngPubkey option) result option \<times> _"
  have "case toy_active 8 of None \<Rightarrow> False | Some s \<Rightarrow>
      (case fst (?run s) of Some (Inr (rows, pk)) \<Rightarrow> length rows = 3 \<and> pk = None | _ \<Rightarrow> False)" by code_simp
  then obtain s rows where a: "toy_active 8 = Some s" "fst (?run s) = Some (Ok (rows, None))" "length rows = 3"
    by (auto split: option.splits prod.splits sum.splits)
  then obtain e' where s: "toy_active 8 = Some s" "?run s = (Some (Ok (rows, None)), e')" "length rows = 3"
    by (cases "?run s") auto
  have "ingest_chunks (toy_env 8) 3 9 [] (chunks_of 2 [toy_tx 5, toy_tx 6, toy_tx 5]) 1 40 [] s =
      Some (Returns (Some (1, rows)) (s\<lparr>enclave := e'\<rparr>))"
    by (rule chunked_ingest_equivalent) (use s(2) in simp_all)
  with s show ?thesis by blast
qed

end
