(* ===== verification/Spec2Isabelle.thy ===== *)
theory Spec2Isabelle
  imports Recovery_Overlap Poll_Props Controller_Props Controller_Restart Ingest_Chunks
begin

text \<open>
  Verification of MobileCoin Fog.
\<close>

end
